(* ===== verification/Prelude.thy ===== *)
theory Prelude
  imports Main "HOL-Library.Word" "HOL-Library.Multiset"
begin

text \<open>
  Shared ground of the development: the C integer types, faults as values, array accesses
  with their bounds written out, the table scan that the kernel uses everywhere, and the
  lemma collections of the component theories.

  \<^item> C \<open>uint\<close>, \<open>ushort\<close> and \<open>uchar\<close> are words, so arithmetic wraps as in the source. C
    \<open>int\<close> is \<^typ>\<open>int\<close>: signed overflow is undefined in C, and a theorem on a number that can get that
    far (\<open>nextpid\<close>, the sum in \<open>atoi\<close>) says up to where it holds. The
    conversions between the two are \<open>uint_of_int\<close> and \<open>int_of_uint\<close>.
  \<^item> A call of \<open>panic\<close>, an access outside an array or through a null pointer, and a thread
    that would go to sleep are values of \<open>fault\<close>; an operation that can meet one returns
    \<open>fault + result\<close>.
\<close>

section \<open>Machine integers\<close>

unbundle bit_operations_syntax

type_synonym u8 = "8 word"
type_synonym u16 = "16 word"
type_synonym u32 = "32 word"

definition uint_of_int :: "int \<Rightarrow> u32" where
  "uint_of_int i = word_of_int i"

definition int_of_uint :: "u32 \<Rightarrow> int" where
  "int_of_uint w = sint w"

section \<open>Faults and the result type\<close>

text \<open>
  A wait channel is the address of a kernel object; distinct objects have distinct
  addresses, so a channel is named by the object it is the address of.
\<close>

datatype chan =
    ChProc nat          \<comment> \<open>a process slot: \<open>wait\<close> sleeps on the parent\<close>
  | ChTicks             \<comment> \<open>\<open>&ticks\<close>\<close>
  | ChBuf nat           \<comment> \<open>a disk buffer, waiting for the disk\<close>
  | ChBufLock nat       \<comment> \<open>the sleep-lock of a disk buffer\<close>
  | ChInodeLock nat     \<comment> \<open>the sleep-lock of a cached inode\<close>
  | ChLog               \<comment> \<open>\<open>&log\<close>\<close>
  | ChPipeRead u32      \<comment> \<open>\<open>&p->nread\<close> of the pipe in that page\<close>
  | ChPipeWrite u32     \<comment> \<open>\<open>&p->nwrite\<close> of the pipe in that page\<close>
  | ChInput             \<comment> \<open>\<open>&input.r\<close>\<close>

datatype fault =
    Panic string        \<comment> \<open>\<open>panic(msg)\<close>\<close>
  | Wild string         \<comment> \<open>an access outside an object: undefined in C\<close>
  | Asleep chan         \<comment> \<open>the thread followed by the model goes to sleep here\<close>

type_synonym 'a res = "fault + 'a"

definition bnd :: "'a res \<Rightarrow> ('a \<Rightarrow> 'b res) \<Rightarrow> 'b res" where
  "bnd m f = (case m of Inl e \<Rightarrow> Inl e | Inr x \<Rightarrow> f x)"

named_theorems res_iff \<open>inversion of a successful operation\<close>
named_theorems frame \<open>the parts of the state an operation leaves alone\<close>

lemma bnd_simps [simp]:
  "bnd (Inl e) f = Inl e"
  "bnd (Inr x) f = f x"
  by (simp_all add: bnd_def)

lemma bnd_cong [fundef_cong]:
  assumes "m = m'" and "\<And>x. m' = Inr x \<Longrightarrow> f x = g x"
  shows "bnd m f = bnd m' g"
  using assms by (cases m') simp_all

lemma bnd_Inr_iff [res_iff]: "bnd m f = Inr y \<longleftrightarrow> (\<exists>x. m = Inr x \<and> f x = Inr y)"
  by (cases m) auto

lemma Inr_bnd_iff [res_iff]: "Inr y = bnd m f \<longleftrightarrow> (\<exists>x. m = Inr x \<and> f x = Inr y)"
  by (cases m) auto

lemma bnd_assoc: "bnd (bnd m f) g = bnd m (\<lambda>x. bnd (f x) g)"
  by (cases m) simp_all

lemma bnd_ret [simp]: "bnd m Inr = m"
  by (cases m) simp_all

section \<open>C arrays\<close>

definition aget :: "'a list \<Rightarrow> int \<Rightarrow> 'a res" where
  "aget xs i = (if 0 \<le> i \<and> i < int (length xs) then Inr (xs ! nat i)
                else Inl (Wild ''array read''))"

definition aput :: "'a list \<Rightarrow> int \<Rightarrow> 'a \<Rightarrow> 'a list res" where
  "aput xs i v = (if 0 \<le> i \<and> i < int (length xs) then Inr (xs[nat i := v])
                  else Inl (Wild ''array write''))"

definition deref :: "'a option \<Rightarrow> 'a res" where
  "deref p = (case p of None \<Rightarrow> Inl (Wild ''null pointer'') | Some x \<Rightarrow> Inr x)"

lemma deref_simps [simp]:
  "deref None = Inl (Wild ''null pointer'')"
  "deref (Some x) = Inr x"
  by (simp_all add: deref_def)

lemma deref_Inr_iff [res_iff]: "deref p = Inr x \<longleftrightarrow> p = Some x"
  by (cases p) simp_all

lemma aget_Inr_iff [res_iff]:
  "aget xs i = Inr x \<longleftrightarrow> 0 \<le> i \<and> i < int (length xs) \<and> x = xs ! nat i"
  by (auto simp: aget_def)

lemma aput_Inr_iff [res_iff]:
  "aput xs i v = Inr ys \<longleftrightarrow> 0 \<le> i \<and> i < int (length xs) \<and> ys = xs[nat i := v]"
  by (auto simp: aput_def)

lemma aget_ok: "0 \<le> i \<Longrightarrow> i < int (length xs) \<Longrightarrow> aget xs i = Inr (xs ! nat i)"
  by (simp add: aget_def)

lemma aput_ok: "0 \<le> i \<Longrightarrow> i < int (length xs) \<Longrightarrow> aput xs i v = Inr (xs[nat i := v])"
  by (simp add: aput_def)

section \<open>Scanning a table for its first slot with a property\<close>

text \<open>
  The loops \<open>for(p = table; p < &table[N]; p++) if(P(p)) ...\<close> that stop at the first hit.
\<close>

fun first_idx :: "('a \<Rightarrow> bool) \<Rightarrow> 'a list \<Rightarrow> nat option" where
  "first_idx P [] = None"
| "first_idx P (x # xs) = (if P x then Some 0 else map_option Suc (first_idx P xs))"

lemma first_idx_None: "first_idx P xs = None \<longleftrightarrow> (\<forall>x \<in> set xs. \<not> P x)"
  by (induction xs) auto

lemma first_idx_Some:
  "first_idx P xs = Some i \<longleftrightarrow> i < length xs \<and> P (xs ! i) \<and> (\<forall>j<i. \<not> P (xs ! j))"
proof (induction xs arbitrary: i)
  case (Cons x xs)
  show ?case
  proof (cases i)
    case 0
    then show ?thesis by auto
  next
    case (Suc k)
    then show ?thesis by (auto simp: Cons.IH All_less_Suc2)
  qed
qed simp

lemma first_idx_SomeD:
  assumes "first_idx P xs = Some i"
  shows "i < length xs" "P (xs ! i)" "j < i \<Longrightarrow> \<not> P (xs ! j)"
  using assms by (auto simp: first_idx_Some)

lemma first_idx_unique:
  assumes "i < length xs" "P (xs ! i)"
    and "\<And>j. j < length xs \<Longrightarrow> P (xs ! j) \<Longrightarrow> j = i"
  shows "first_idx P xs = Some i"
proof -
  have "\<not> P (xs ! j)" if "j < i" for j
    using assms(3) [of j] assms(1) that by fastforce
  with assms(1,2) show ?thesis by (simp add: first_idx_Some)
qed

section \<open>Counting loops\<close>

text \<open>The loop \<open>for(k = i; k < i + n; k++) f(k)\<close> over a state; a fault ends it.\<close>

fun foreach :: "(nat \<Rightarrow> 's \<Rightarrow> 's res) \<Rightarrow> nat \<Rightarrow> nat \<Rightarrow> 's \<Rightarrow> 's res" where
  "foreach f i 0 s = Inr s"
| "foreach f i (Suc n) s = bnd (f i s) (foreach f (Suc i) n)"

lemma foreach_step:
  assumes "P i s" and "\<And>k s. i \<le> k \<Longrightarrow> k < i + n \<Longrightarrow> P k s \<Longrightarrow> \<exists>s'. f k s = Inr s' \<and> P (Suc k) s'"
  shows "\<exists>s'. foreach f i n s = Inr s' \<and> P (i + n) s'"
  using assms
proof (induction n arbitrary: i s)
  case (Suc n)
  from Suc.prems(2) [of i s] Suc.prems(1) obtain s1 where s1: "f i s = Inr s1" "P (Suc i) s1" by auto
  from Suc.IH [OF s1(2)] Suc.prems(2) have "\<exists>s'. foreach f (Suc i) n s1 = Inr s' \<and> P (Suc i + n) s'" by simp
  with s1(1) show ?case by simp
qed simp

lemma foreach_inv:
  assumes "P 0 s" and "\<And>k s. k < n \<Longrightarrow> P k s \<Longrightarrow> \<exists>s'. f k s = Inr s' \<and> P (Suc k) s'"
  shows "\<exists>s'. foreach f 0 n s = Inr s' \<and> P n s'"
  using foreach_step [of P 0 s n f] assms by simp

lemma foreach_keeps:
  assumes "foreach f i n s = Inr s'" "P i s"
    and "\<And>k s s'. i \<le> k \<Longrightarrow> k < i + n \<Longrightarrow> P k s \<Longrightarrow> f k s = Inr s' \<Longrightarrow> P (Suc k) s'"
  shows "P (i + n) s'"
  using assms
proof (induction n arbitrary: i s)
  case (Suc n)
  from Suc.prems(1) obtain s1 where s1: "f i s = Inr s1" "foreach f (Suc i) n s1 = Inr s'" by (auto simp: bnd_Inr_iff)
  have "P (Suc i) s1" using Suc.prems(3) [of i s s1] Suc.prems(2) s1(1) by simp
  from Suc.IH [OF s1(2) this] Suc.prems(3) show ?case by simp
qed simp

section \<open>Lists\<close>

lemma sum_list_update_int: "i < length xs \<Longrightarrow> sum_list (xs[i := v]) = sum_list xs - xs ! i + v" for xs :: "int list"
  by (induction xs arbitrary: i) (auto split: nat.splits)

lemma nth_le_sum_list: "i < length xs \<Longrightarrow> \<forall>x \<in> set xs. 0 \<le> x \<Longrightarrow> xs ! i \<le> sum_list xs" for xs :: "int list"
  using sum_list_update_int [of i xs 0] sum_list_nonneg [of "xs[i := 0]"] set_update_subset_insert [of xs i 0]
  by fastforce

lemma set_list_update_subset: "set (xs[i := v]) \<subseteq> insert v (set xs)"
  by (rule set_update_subset_insert)

lemma map_list_update_same: "f v = f (xs ! i) \<Longrightarrow> map f (xs[i := v]) = map f xs"
  by (cases "i < length xs") (simp_all add: map_update list_update_same_conv list_update_beyond)

lemma last_sorted_Max: "sorted xs \<Longrightarrow> xs \<noteq> [] \<Longrightarrow> last xs = Max (set xs)" for xs :: "'a :: linorder list"
  by (cases xs rule: rev_cases) (auto simp: sorted_append intro!: Max_eqI [symmetric])

end
