(* ===== verification/Proc_Table.thy ===== *)
theory Proc_Table
  imports Prelude
begin

text \<open>
  The process table of \<open>proc.c\<close> and the operations on it that touch nothing else: the
  structs of \<open>proc.h\<close> and \<open>x86.h\<close>, \<open>wakeup1\<close>, \<open>wakeup\<close>, \<open>kill\<close>, \<open>set_priority\<close>,
  \<open>getpinfo\<close>, \<open>ps\<close>, and \<open>switchuvm\<close>/\<open>switchkvm\<close> of \<open>vm.c\<close>, which only read a process
  and load CPU registers. A \<open>struct proc *\<close> is an index into the table, a null pointer is
  \<^term>\<open>None\<close>. The operations run with \<open>ptable.lock\<close> held from entry to exit, so each
  is one atomic step; the lock itself is the subject of theory \<open>Spinlock\<close>.
\<close>

section \<open>Constants of param.h and memlayout.h\<close>

definition NPROC :: nat where "NPROC = 64"
definition NOFILE :: nat where "NOFILE = 16"
definition KSTACKSIZE :: u32 where "KSTACKSIZE = 4096"
definition KERNBASE :: u32 where "KERNBASE = 0x80000000"

definition V2P :: "u32 \<Rightarrow> u32" where "V2P a = a - KERNBASE"
definition P2V :: "u32 \<Rightarrow> u32" where "P2V a = a + KERNBASE"

lemma P2V_V2P [simp]: "P2V (V2P a) = a" and V2P_P2V [simp]: "V2P (P2V a) = a"
  by (simp_all add: P2V_def V2P_def)

section \<open>The structs\<close>

record trapframe =
  tf_edi :: u32
  tf_esi :: u32
  tf_ebp :: u32
  tf_oesp :: u32
  tf_ebx :: u32
  tf_edx :: u32
  tf_ecx :: u32
  tf_eax :: u32
  tf_gs :: u16
  tf_fs :: u16
  tf_es :: u16
  tf_ds :: u16
  tf_trapno :: u32
  tf_err :: u32
  tf_eip :: u32
  tf_cs :: u16
  tf_eflags :: u32
  tf_esp :: u32
  tf_ss :: u16

record kcontext =
  cx_edi :: u32
  cx_esi :: u32
  cx_ebx :: u32
  cx_ebp :: u32
  cx_eip :: u32

datatype procstate = UNUSED | EMBRYO | SLEEPING | RUNNABLE | RUNNING | ZOMBIE

record proc =
  p_sz :: u32
  p_pgdir :: u32
  p_kstack :: u32
  p_state :: procstate
  p_pid :: int
  p_parent :: "nat option"
  p_tf :: trapframe
  p_context :: kcontext
  p_chan :: "chan option"
  p_killed :: int
  p_ofile :: "nat option list"
  p_cwd :: "nat option"
  p_name :: string
  p_ctime :: int
  p_etime :: int
  p_rtime :: int
  p_iotime :: int
  p_num_run :: int
  p_priority :: int
  p_ticks :: "int list"
  p_start :: int
  p_waittime :: int
  p_current_queue :: int
  p_total_ticks :: "int list"

record proc_stat =
  ps_pid :: int
  ps_runtime :: int
  ps_num_run :: int
  ps_current_queue :: int
  ps_ticks :: "int list"

text \<open>
  The members \<open>active\<close> and \<open>prev\<close> of \<open>struct proc\<close> and \<open>active\<close> of \<open>struct proc_stat\<close> are
  never read or written by the program and are left out. A name is the string before the
  terminating zero of its 16 bytes. The trap frame and the saved context, which the code
  places at the top of the kernel stack page and points to, are members of the process.
\<close>

text \<open>One of the arrays \<open>q0 .. q4\<close> with its counter \<open>c0 .. c4\<close> (the last used index).\<close>

record queue =
  q_slot :: "nat option list"
  q_cnt :: int

text \<open>
  The globals of \<open>proc.c\<close> and \<open>trap.c\<close>, and of the CPU that the model follows: its current
  process \<open>mycpu()->proc\<close>, its page-table register and the kernel stack of its task state.
\<close>

record ptable_st =
  procs :: "proc list"
  nextpid :: int
  initproc :: "nat option"
  ticks :: u32
  queues :: "queue list"
  cpu_proc :: "nat option"
  cpu_cr3 :: u32
  cpu_esp0 :: u32
  kpgdir :: u32

definition getp :: "nat option \<Rightarrow> 'a ptable_st_scheme \<Rightarrow> proc res" where
  "getp p s = bnd (deref p) (\<lambda>i. aget (procs s) (int i))"

definition modp :: "nat \<Rightarrow> (proc \<Rightarrow> proc) \<Rightarrow> 'a ptable_st_scheme \<Rightarrow> 'a ptable_st_scheme" where
  "modp i f s = s\<lparr>procs := (procs s)[i := f (procs s ! i)]\<rparr>"

abbreviation proc_at :: "'a ptable_st_scheme \<Rightarrow> nat \<Rightarrow> proc" where
  "proc_at s i \<equiv> procs s ! i"

text \<open>The table as static storage leaves it: every byte zero.\<close>

definition zero_tf :: trapframe where
  "zero_tf = \<lparr>tf_edi = 0, tf_esi = 0, tf_ebp = 0, tf_oesp = 0, tf_ebx = 0, tf_edx = 0, tf_ecx = 0,
     tf_eax = 0, tf_gs = 0, tf_fs = 0, tf_es = 0, tf_ds = 0, tf_trapno = 0, tf_err = 0, tf_eip = 0,
     tf_cs = 0, tf_eflags = 0, tf_esp = 0, tf_ss = 0\<rparr>"

definition zero_context :: kcontext where
  "zero_context = \<lparr>cx_edi = 0, cx_esi = 0, cx_ebx = 0, cx_ebp = 0, cx_eip = 0\<rparr>"

definition zero_proc :: proc where
  "zero_proc = \<lparr>p_sz = 0, p_pgdir = 0, p_kstack = 0, p_state = UNUSED, p_pid = 0, p_parent = None,
     p_tf = zero_tf, p_context = zero_context, p_chan = None, p_killed = 0,
     p_ofile = replicate NOFILE None, p_cwd = None, p_name = [], p_ctime = 0, p_etime = 0,
     p_rtime = 0, p_iotime = 0, p_num_run = 0, p_priority = 0, p_ticks = [0, 0, 0, 0, 0],
     p_start = 0, p_waittime = 0, p_current_queue = 0, p_total_ticks = [0, 0, 0, 0, 0]\<rparr>"

definition zero_ptable :: "proc list \<Rightarrow> ptable_st" where
  "zero_ptable tab = \<lparr>procs = tab, nextpid = 1, initproc = None, ticks = 0,
     queues = replicate 5 \<lparr>q_slot = replicate 64 None, q_cnt = -1\<rparr>,
     cpu_proc = None, cpu_cr3 = 0, cpu_esp0 = 0, kpgdir = 0\<rparr>"

section \<open>Waking, killing, priorities and statistics\<close>

text \<open>\<open>wakeup1\<close> and its wrapper \<open>wakeup\<close>, which takes \<open>ptable.lock\<close> around it.\<close>

definition wake_proc :: "chan option \<Rightarrow> u32 \<Rightarrow> proc \<Rightarrow> proc" where
  "wake_proc ch t p =
     (if p_state p = SLEEPING \<and> p_chan p = ch
      then p\<lparr>p_state := RUNNABLE, p_start := int_of_uint t\<rparr> else p)"

definition wakeup1 :: "chan option \<Rightarrow> 'a ptable_st_scheme \<Rightarrow> 'a ptable_st_scheme" where
  "wakeup1 ch s = s\<lparr>procs := map (wake_proc ch (ticks s)) (procs s)\<rparr>"

definition wakeup :: "chan \<Rightarrow> 'a ptable_st_scheme \<Rightarrow> 'a ptable_st_scheme" where
  "wakeup ch s = wakeup1 (Some ch) s"

definition kill :: "int \<Rightarrow> 'a ptable_st_scheme \<Rightarrow> int \<times> 'a ptable_st_scheme" where
  "kill pid s =
     (case first_idx (\<lambda>p. p_pid p = pid) (procs s) of
        None \<Rightarrow> (-1, s)
      | Some i \<Rightarrow>
          (0, modp i (\<lambda>p. let p = p\<lparr>p_killed := 1\<rparr> in
                if p_state p = SLEEPING
                then p\<lparr>p_start := int_of_uint (ticks s), p_state := RUNNABLE\<rparr> else p) s))"

definition set_priority :: "int \<Rightarrow> int \<Rightarrow> 'a ptable_st_scheme \<Rightarrow> int \<times> 'a ptable_st_scheme" where
  "set_priority pid priority s =
     (if priority < 0 \<or> priority > 100 then (-2, s)
      else case first_idx (\<lambda>p. p_pid p = pid) (procs s) of
        None \<Rightarrow> (-1, s)
      | Some i \<Rightarrow> (24, modp i (\<lambda>p. p\<lparr>p_priority := priority\<rparr>) s))"

text \<open>
  \<open>getpinfo\<close> fills the caller's struct when it finds the pid: \<^term>\<open>None\<close> leaves it as it is.
\<close>

definition getpinfo :: "int \<Rightarrow> 'a ptable_st_scheme \<Rightarrow> int \<times> proc_stat option" where
  "getpinfo pid s =
     (case first_idx (\<lambda>p. p_pid p = pid) (procs s) of
        None \<Rightarrow> (-1, None)
      | Some i \<Rightarrow>
          (let p = proc_at s i in
           (pid, Some \<lparr>ps_pid = p_pid p, ps_runtime = p_rtime p, ps_num_run = p_num_run p,
                       ps_current_queue = p_current_queue p,
                       ps_ticks = take 5 (p_total_ticks p)\<rparr>)))"

text \<open>\<open>ps\<close> prints one line for a sleeping, running or runnable process: its fields, in order.\<close>

datatype ps_line = Ps_line string int procstate int int

definition ps :: "'a ptable_st_scheme \<Rightarrow> int \<times> ps_line list" where
  "ps s = (24, [Ps_line (p_name p) (p_pid p) (p_state p) (p_priority p) (p_ctime p).
                p \<leftarrow> procs s, p_state p = SLEEPING \<or> p_state p = RUNNING \<or> p_state p = RUNNABLE])"

section \<open>Loading a process's address space\<close>

definition switchkvm :: "'a ptable_st_scheme \<Rightarrow> 'a ptable_st_scheme" where
  "switchkvm s = s\<lparr>cpu_cr3 := V2P (kpgdir s)\<rparr>"

definition switchuvm :: "nat option \<Rightarrow> 'a ptable_st_scheme \<Rightarrow> 'a ptable_st_scheme res" where
  "switchuvm p s =
     (if p = None then Inl (Panic ''switchuvm: no process'')
      else bnd (getp p s) (\<lambda>pr.
        if p_kstack pr = 0 then Inl (Panic ''switchuvm: no kstack'')
        else if p_pgdir pr = 0 then Inl (Panic ''switchuvm: no pgdir'')
        else Inr (s\<lparr>cpu_esp0 := p_kstack pr + KSTACKSIZE, cpu_cr3 := V2P (p_pgdir pr)\<rparr>)))"

section \<open>Library lemmas\<close>

lemma modp_sel [simp]:
  "procs (modp i f s) = (procs s)[i := f (procs s ! i)]"
  "nextpid (modp i f s) = nextpid s"
  "initproc (modp i f s) = initproc s"
  "ticks (modp i f s) = ticks s"
  "queues (modp i f s) = queues s"
  "cpu_proc (modp i f s) = cpu_proc s"
  by (simp_all add: modp_def)

lemma proc_at_modp:
  "j < length (procs s) \<Longrightarrow> proc_at (modp i f s) j = (if j = i then f (proc_at s i) else proc_at s j)"
  by simp

lemma getp_Inr_iff [res_iff]:
  "getp p s = Inr pr \<longleftrightarrow> (\<exists>i. p = Some i \<and> i < length (procs s) \<and> pr = proc_at s i)"
  by (auto simp: getp_def res_iff)

lemma getp_Some [simp]: "i < length (procs s) \<Longrightarrow> getp (Some i) s = Inr (proc_at s i)"
  by (simp add: getp_def aget_ok)

lemma wake_proc_sel [simp]:
  "p_pid (wake_proc ch t p) = p_pid p"
  "p_parent (wake_proc ch t p) = p_parent p"
  "p_killed (wake_proc ch t p) = p_killed p"
  "p_kstack (wake_proc ch t p) = p_kstack p"
  "p_pgdir (wake_proc ch t p) = p_pgdir p"
  "p_ofile (wake_proc ch t p) = p_ofile p"
  "p_cwd (wake_proc ch t p) = p_cwd p"
  "p_priority (wake_proc ch t p) = p_priority p"
  "p_chan (wake_proc ch t p) = p_chan p"
  "p_sz (wake_proc ch t p) = p_sz p"
  by (simp_all add: wake_proc_def)

lemma wakeup1_sel [simp]:
  "procs (wakeup1 ch s) = map (wake_proc ch (ticks s)) (procs s)"
  "nextpid (wakeup1 ch s) = nextpid s"
  "initproc (wakeup1 ch s) = initproc s"
  "ticks (wakeup1 ch s) = ticks s"
  "queues (wakeup1 ch s) = queues s"
  "cpu_proc (wakeup1 ch s) = cpu_proc s"
  by (simp_all add: wakeup1_def)

end
