(* ===== verification/Mlfq.thy ===== *)
theory Mlfq
  imports Proc_Table
begin

text \<open>
  The multi-level feedback queues of \<open>proc.c\<close>: the arrays \<open>q0 .. q4\<close> with their counters,
  \<open>rem_process\<close> and \<open>ageing\<close>. The five copies of each loop in the source differ only in the
  queue they name, so each loop is one definition with the queue's number as its argument.
  A queue's contents are abstracted to a list; the array loops are proved to be list
  operations on it, and the queue locale below states that contract once.
\<close>

section \<open>The array operations of the source\<close>

definition clockperiod :: "int list" where
  "clockperiod = [1, 2, 4, 8, 16]"

definition queue_init :: queue where
  "queue_init = \<lparr>q_slot = replicate 64 None, q_cnt = -1\<rparr>"

text \<open>\<open>c++; q[c] = p;\<close>\<close>

definition q_push :: "nat \<Rightarrow> queue \<Rightarrow> queue res" where
  "q_push p q = bnd (aput (q_slot q) (q_cnt q + 1) (Some p))
     (\<lambda>slot. Inr \<lparr>q_slot = slot, q_cnt = q_cnt q + 1\<rparr>)"

text \<open>\<open>for (j = i; j <= c - 1; j++) q[j] = q[j + 1];\<close>\<close>

function shift_loop :: "int \<Rightarrow> int \<Rightarrow> nat option list \<Rightarrow> nat option list res" where
  "shift_loop j c slot =
     (if j \<le> c - 1
      then bnd (aget slot (j + 1)) (\<lambda>x. bnd (aput slot j x) (\<lambda>slot. shift_loop (j + 1) c slot))
      else Inr slot)"
  by pat_completeness auto
termination
  by (relation "measure (\<lambda>(j, c, slot). nat (c - j))") auto

declare shift_loop.simps [simp del]

definition q_shift :: "int \<Rightarrow> queue \<Rightarrow> queue res" where
  "q_shift i q = bnd (shift_loop i (q_cnt q) (q_slot q)) (\<lambda>slot. Inr (q\<lparr>q_slot := slot\<rparr>))"

text \<open>
  The deletion of the entry at \<open>i\<close>, as \<open>rem_process\<close> and the scheduler write it: the shift,
  then \<open>c--\<close>.
\<close>

definition q_delete :: "int \<Rightarrow> queue \<Rightarrow> queue res" where
  "q_delete i q = bnd (q_shift i q) (\<lambda>q. Inr (q\<lparr>q_cnt := q_cnt q - 1\<rparr>))"

lemma q_delete_cnt: "q_delete i q = Inr q' \<Longrightarrow> q_cnt q' = q_cnt q - 1"
  by (auto simp: q_delete_def q_shift_def bnd_Inr_iff)

text \<open>One of the five loops of \<open>rem_process\<close>, from index \<open>i\<close> on.\<close>

function rem_loop :: "proc list \<Rightarrow> int \<Rightarrow> int \<Rightarrow> queue \<Rightarrow> queue res" where
  "rem_loop tab pid i q =
     (if i \<le> q_cnt q
      then bnd (aget (q_slot q) i) (\<lambda>p. bnd (deref p) (\<lambda>p. bnd (aget tab (int p)) (\<lambda>pr.
             if p_pid pr = pid
             then bnd (q_delete i q) (\<lambda>q. rem_loop tab pid (i + 1) q)
             else rem_loop tab pid (i + 1) q)))
      else Inr q)"
  by pat_completeness auto
termination
  by (relation "measure (\<lambda>(tab, pid, i, q). nat (q_cnt q + 1 - i))") (auto dest: q_delete_cnt)

declare rem_loop.simps [simp del]

definition getq :: "int \<Rightarrow> 'a ptable_st_scheme \<Rightarrow> queue res" where
  "getq k s = aget (queues s) k"

definition setq :: "nat \<Rightarrow> queue \<Rightarrow> 'a ptable_st_scheme \<Rightarrow> 'a ptable_st_scheme" where
  "setq k q s = s\<lparr>queues := (queues s)[k := q]\<rparr>"

definition rem_process :: "int \<Rightarrow> int \<Rightarrow> 'a ptable_st_scheme \<Rightarrow> 'a ptable_st_scheme res" where
  "rem_process pid curq s =
     (if curq = 0 \<or> curq = 1 \<or> curq = 2 \<or> curq = 3 \<or> curq = 4
      then bnd (getq curq s) (\<lambda>q. bnd (rem_loop (procs s) pid 0 q) (\<lambda>q. Inr (setq (nat curq) q s)))
      else Inr s)"

text \<open>
  The body of one loop of \<open>ageing\<close> for the process \<open>q[k][i]\<close>, once its wait is found to be
  over: it is counted and stored into the queue above, its fields are updated, and
  \<open>rem_process\<close> is called with the fields as they are by then.
\<close>

definition wait_over :: "u32 \<Rightarrow> proc \<Rightarrow> bool" where
  "wait_over t p \<longleftrightarrow> t - uint_of_int (p_start p) > uint_of_int (p_waittime p)"

definition age_one :: "nat \<Rightarrow> nat \<Rightarrow> 'a ptable_st_scheme \<Rightarrow> 'a ptable_st_scheme res" where
  "age_one k p s =
     (let cq = p_current_queue (proc_at s p) - 1 in
      bnd (aput (p_ticks (proc_at s p)) cq 0) (\<lambda>tk.
      bnd (getq (int k - 1) s) (\<lambda>up. bnd (q_push p up) (\<lambda>up.
      let s = setq (k - 1) up
                (modp p (\<lambda>pr. pr\<lparr>p_current_queue := cq, p_ticks := tk, p_start := int_of_uint (ticks s)\<rparr>) s)
      in rem_process (p_pid (proc_at s p)) cq s))))"

lemma rem_loop_cnt: "rem_loop tab pid i q = Inr q' \<Longrightarrow> q_cnt q' \<le> q_cnt q"
proof (induction tab pid i q rule: rem_loop.induct)
  case (1 tab pid i q)
  show ?case
  proof (cases "i \<le> q_cnt q")
    case True
    from "1.prems" True obtain p pr where
      r: "aget (q_slot q) i = Inr (Some p)" "aget tab (int p) = Inr pr"
      and step: "(if p_pid pr = pid then bnd (q_delete i q) (rem_loop tab pid (i + 1))
                  else rem_loop tab pid (i + 1) q) = Inr q'"
      by (subst (asm) rem_loop.simps) (auto simp: bnd_Inr_iff deref_Inr_iff)
    show ?thesis
    proof (cases "p_pid pr = pid")
      case True
      with step obtain x where x: "q_delete i q = Inr x" "rem_loop tab pid (i + 1) x = Inr q'"
        by (auto simp: bnd_Inr_iff)
      from "1.IH"(1) [OF \<open>i \<le> q_cnt q\<close> r(1) _ r(2) True x] q_delete_cnt [OF x(1)]
      show ?thesis by simp
    next
      case False
      with step "1.IH"(2) [OF \<open>i \<le> q_cnt q\<close> r(1) _ r(2) False] show ?thesis by simp
    qed
  next
    case False
    with "1.prems" show ?thesis by (subst (asm) rem_loop.simps) simp
  qed
qed

lemma setq_sel [simp]:
  "procs (setq k q s) = procs s"
  "nextpid (setq k q s) = nextpid s"
  "initproc (setq k q s) = initproc s"
  "ticks (setq k q s) = ticks s"
  "queues (setq k q s) = (queues s)[k := q]"
  "cpu_proc (setq k q s) = cpu_proc s"
  by (simp_all add: setq_def)

definition cnt :: "'a ptable_st_scheme \<Rightarrow> nat \<Rightarrow> int" where
  "cnt s k = q_cnt (queues s ! k)"

lemma rem_process_cnt:
  assumes "rem_process pid cq s = Inr s'"
  shows "cnt s' k \<le> cnt s k \<and> length (queues s') = length (queues s)"
  using assms rem_loop_cnt
  by (fastforce simp: rem_process_def cnt_def getq_def bnd_Inr_iff aget_Inr_iff nth_list_update split: if_splits)

lemma age_one_cnt:
  assumes "age_one k p s = Inr s'" "0 < k"
  shows "cnt s' k \<le> cnt s k \<and> length (queues s') = length (queues s)"
proof -
  from assms(1) obtain pid cq f u where
    "rem_process pid cq (setq (k - 1) u (modp p f s)) = Inr s'"
    unfolding age_one_def Let_def bnd_Inr_iff by blast
  from rem_process_cnt [OF this, of k] assms(2) show ?thesis by (simp add: cnt_def)
qed

text \<open>One loop of \<open>ageing\<close>, for the queue \<open>k\<close>, from index \<open>i\<close> on.\<close>

function age_loop :: "nat \<Rightarrow> int \<Rightarrow> 'a ptable_st_scheme \<Rightarrow> 'a ptable_st_scheme res" where
  "age_loop k i s =
     (if 0 < k \<and> k < length (queues s) \<and> i \<le> cnt s k
      then bnd (aget (q_slot (queues s ! k)) i) (\<lambda>p. bnd (deref p) (\<lambda>p. bnd (getp (Some p) s) (\<lambda>pr.
             if p_state pr \<noteq> RUNNABLE then age_loop k (i + 1) s
             else if wait_over (ticks s) pr
             then bnd (age_one k p s) (\<lambda>s. age_loop k (i + 1) s)
             else age_loop k (i + 1) s)))
      else Inr s)"
  by pat_completeness auto
termination
proof (relation "measure (\<lambda>(k, i, s). nat (cnt s k + 1 - i))", goal_cases)
  case (3 k i s x xa xb xc)
  then show ?case using age_one_cnt [of k xa s xc] by simp
qed auto

declare age_loop.simps [simp del]

definition ageing :: "'a ptable_st_scheme \<Rightarrow> 'a ptable_st_scheme res" where
  "ageing s = bnd (age_loop 1 0 s) (\<lambda>s. bnd (age_loop 2 0 s) (\<lambda>s.
              bnd (age_loop 3 0 s) (\<lambda>s. age_loop 4 0 s)))"

section \<open>A queue is a list\<close>

definition wf_queue :: "nat \<Rightarrow> queue \<Rightarrow> bool" where
  "wf_queue n q \<longleftrightarrow> length (q_slot q) = 64 \<and> -1 \<le> q_cnt q \<and> q_cnt q < 64 \<and>
     (\<forall>i < nat (q_cnt q + 1). \<exists>p < n. q_slot q ! i = Some p)"

definition live :: "queue \<Rightarrow> nat list" where
  "live q = map the (take (nat (q_cnt q + 1)) (q_slot q))"

text \<open>The contract of a bounded queue kept as a list.\<close>

locale bounded_queue =
  fixes inv :: "'q \<Rightarrow> bool" and items :: "'q \<Rightarrow> 'a list" and cap :: nat
    and ok :: "'a \<Rightarrow> bool"
    and push :: "'a \<Rightarrow> 'q \<Rightarrow> 'q res" and delete :: "nat \<Rightarrow> 'q \<Rightarrow> 'q res"
  assumes items_cap: "inv q \<Longrightarrow> length (items q) \<le> cap"
    and push_law: "inv q \<Longrightarrow> ok x \<Longrightarrow> length (items q) < cap \<Longrightarrow>
          \<exists>q'. push x q = Inr q' \<and> inv q' \<and> items q' = items q @ [x]"
    and push_full: "inv q \<Longrightarrow> length (items q) = cap \<Longrightarrow> \<exists>e. push x q = Inl e"
    and delete_law: "inv q \<Longrightarrow> i < length (items q) \<Longrightarrow>
          \<exists>q'. delete i q = Inr q' \<and> inv q' \<and> items q' = take i (items q) @ drop (Suc i) (items q)"
begin

text \<open>Pushing a list of entries one after the other succeeds exactly while there is room.\<close>

fun push_all :: "'a list \<Rightarrow> 'q \<Rightarrow> 'q res" where
  "push_all [] q = Inr q"
| "push_all (x # xs) q = bnd (push x q) (push_all xs)"

lemma push_all_ok:
  assumes "inv q" "\<forall>x \<in> set xs. ok x" "length (items q) + length xs \<le> cap"
  shows "\<exists>q'. push_all xs q = Inr q' \<and> inv q' \<and> items q' = items q @ xs"
  using assms
proof (induction xs arbitrary: q)
  case (Cons x xs)
  from push_law [of q x] Cons.prems obtain q1 where
    q1: "push x q = Inr q1" "inv q1" "items q1 = items q @ [x]" by auto
  with Cons.IH [of q1] Cons.prems show ?case by auto
qed simp

lemma push_all_overflow:
  assumes "inv q" "\<forall>x \<in> set xs. ok x" "cap < length (items q) + length xs"
  shows "\<exists>e. push_all xs q = Inl e"
  using assms
proof (induction xs arbitrary: q)
  case Nil
  with items_cap [of q] show ?case by simp
next
  case (Cons x xs)
  show ?case
  proof (cases "length (items q) = cap")
    case True
    with push_full [of q x] Cons.prems show ?thesis by auto
  next
    case False
    with items_cap [of q] Cons.prems have "length (items q) < cap" by simp
    with push_law [of q x] Cons.prems obtain q1 where
      "push x q = Inr q1" "inv q1" "items q1 = items q @ [x]" by auto
    with Cons.IH [of q1] Cons.prems show ?thesis by auto
  qed
qed

text \<open>Moving an entry between two queues loses and duplicates nothing.\<close>

lemma move_conserves:
  assumes "inv q" "inv r" "i < length (items q)" "ok (items q ! i)" "length (items r) < cap"
  shows "\<exists>q' r'. push (items q ! i) r = Inr r' \<and> delete i q = Inr q' \<and> inv q' \<and> inv r' \<and>
           items q' = take i (items q) @ drop (Suc i) (items q) \<and>
           items r' = items r @ [items q ! i] \<and>
           mset (items q') + mset (items r') = mset (items q) + mset (items r)"
proof -
  from push_law [OF assms(2,4,5)] obtain r' where
    r': "push (items q ! i) r = Inr r'" "inv r'" "items r' = items r @ [items q ! i]" by blast
  from delete_law [OF assms(1,3)] obtain q' where
    q': "delete i q = Inr q'" "inv q'" "items q' = take i (items q) @ drop (Suc i) (items q)" by blast
  have "mset (items q) = mset (take i (items q) @ items q ! i # drop (Suc i) (items q))"
    using assms(3) by (simp add: id_take_nth_drop [symmetric])
  with r' q' show ?thesis by auto
qed

end

lemma shift_loop_eq:
  assumes "j \<le> c" "c < length slot"
  shows "shift_loop (int j) (int c) slot =
           Inr (take j slot @ take (c - j) (drop (Suc j) slot) @ drop c slot)"
  using assms
proof (induction "c - j" arbitrary: j slot)
  case 0
  then have "j = c" by simp
  with 0 show ?case by (subst shift_loop.simps) simp
next
  case (Suc d)
  let ?slot = "slot[j := slot ! Suc j]"
  from Suc have jc: "j < c" by simp
  have "shift_loop (int j) (int c) slot = shift_loop (int (Suc j)) (int c) ?slot"
    using jc Suc.prems by (subst shift_loop.simps) (simp add: aget_ok aput_ok nat_add_distrib add.commute)
  also have "\<dots> = Inr (take (Suc j) ?slot @ take (c - Suc j) (drop (Suc (Suc j)) ?slot) @ drop c ?slot)"
    using Suc jc by (intro Suc.hyps(1)) simp_all
  also have "take (Suc j) ?slot @ take (c - Suc j) (drop (Suc (Suc j)) ?slot) @ drop c ?slot
             = take j slot @ take (c - j) (drop (Suc j) slot) @ drop c slot"
    using jc Suc.prems
    by (auto intro!: nth_equalityI simp: nth_append nth_list_update less_Suc_eq)
  finally show ?case .
qed

lemma length_live [simp]: "wf_queue n q \<Longrightarrow> length (live q) = nat (q_cnt q + 1)"
  by (auto simp: wf_queue_def live_def)

lemma cnt_live: "wf_queue n q \<Longrightarrow> q_cnt q = int (length (live q)) - 1"
  by (auto simp: wf_queue_def live_def)

lemma wf_live_lt: "wf_queue n q \<Longrightarrow> p \<in> set (live q) \<Longrightarrow> p < n"
  by (fastforce simp: wf_queue_def live_def in_set_conv_nth)

lemma slot_live:
  assumes "wf_queue n q" "i < length (live q)"
  shows "q_slot q ! i = Some (live q ! i)"
  using assms by (auto simp: wf_queue_def live_def)

lemma q_push_law:
  assumes "wf_queue n q" "p < n" "length (live q) < 64"
  shows "\<exists>q'. q_push p q = Inr q' \<and> wf_queue n q' \<and> live q' = live q @ [p]"
proof -
  let ?c = "nat (q_cnt q + 1)"
  from assms have c: "?c < 64" "length (q_slot q) = 64" "-1 \<le> q_cnt q" by (auto simp: wf_queue_def)
  have push: "q_push p q = Inr \<lparr>q_slot = (q_slot q)[?c := Some p], q_cnt = q_cnt q + 1\<rparr>"
    using c by (simp add: q_push_def aput_ok)
  have n1: "nat (q_cnt q + 1 + 1) = Suc ?c" using c by simp
  have "wf_queue n \<lparr>q_slot = (q_slot q)[?c := Some p], q_cnt = q_cnt q + 1\<rparr>"
    using assms(1,2) c n1 by (auto simp: wf_queue_def nth_list_update less_Suc_eq)
  moreover have "live \<lparr>q_slot = (q_slot q)[?c := Some p], q_cnt = q_cnt q + 1\<rparr> = live q @ [p]"
    using c n1 by (simp add: live_def take_Suc_conv_app_nth)
  ultimately show ?thesis using push by blast
qed

lemma q_delete_law:
  assumes "wf_queue n q" "i < length (live q)"
  shows "\<exists>q'. q_delete (int i) q = Inr q' \<and> wf_queue n q' \<and>
           live q' = take i (live q) @ drop (Suc i) (live q)"
proof -
  define c where "c = nat (q_cnt q)"
  from assms have c: "q_cnt q = int c" "c < 64" "i \<le> c" "length (q_slot q) = 64"
    by (auto simp: wf_queue_def c_def)
  let ?slot = "take i (q_slot q) @ take (c - i) (drop (Suc i) (q_slot q)) @ drop c (q_slot q)"
  have del: "q_delete (int i) q = Inr (q\<lparr>q_slot := ?slot, q_cnt := int c - 1\<rparr>)"
    using c by (simp add: q_delete_def q_shift_def shift_loop_eq)
  have tk: "take c ?slot = take i (q_slot q) @ take (c - i) (drop (Suc i) (q_slot q))"
    using c by simp
  have lv: "live (q\<lparr>q_slot := ?slot, q_cnt := int c - 1\<rparr>) = take i (live q) @ drop (Suc i) (live q)"
    using c by (simp add: live_def take_map drop_map drop_take nat_add_distrib min_def)
  have "\<exists>p<n. ?slot ! k = Some p" if "k < c" for k
  proof -
    have "?slot ! k = q_slot q ! (if k < i then k else Suc k)"
      using that c by (auto simp: nth_append)
    moreover have "(if k < i then k else Suc k) < nat (q_cnt q + 1)" using that c by auto
    ultimately show ?thesis using assms(1) unfolding wf_queue_def by metis
  qed
  then have "wf_queue n (q\<lparr>q_slot := ?slot, q_cnt := int c - 1\<rparr>)"
    using c by (auto simp: wf_queue_def)
  with del lv show ?thesis by blast
qed

interpretation mq: bounded_queue "wf_queue n" live 64 "\<lambda>p. p < n" q_push "\<lambda>i. q_delete (int i)" for n
proof unfold_locales
  show "length (live q) \<le> 64" if "wf_queue n q" for q
    using that by (simp add: wf_queue_def live_def)
  show "\<exists>e. q_push x q = Inl e" if "wf_queue n q" "length (live q) = 64" for q x
    using that by (auto simp: q_push_def aput_def wf_queue_def live_def)
qed (use q_push_law q_delete_law in blast)+

section \<open>What rem\_process removes\<close>

text \<open>
  The loop does not look at the entry that moves into a deleted position: after a hit it
  steps over its successor.
\<close>

fun rem_skip :: "('a \<Rightarrow> bool) \<Rightarrow> 'a list \<Rightarrow> 'a list" where
  "rem_skip P [] = []"
| "rem_skip P (x # xs) =
     (if P x then (case xs of [] \<Rightarrow> [] | y # ys \<Rightarrow> y # rem_skip P ys) else x # rem_skip P xs)"

lemma rem_skip_id: "\<forall>x \<in> set xs. \<not> P x \<Longrightarrow> rem_skip P xs = xs"
  by (induction xs) auto

lemma rem_skip_filter:
  assumes "distinct (map f xs)"
  shows "rem_skip (\<lambda>x. f x = v) xs = filter (\<lambda>x. f x \<noteq> v) xs"
  using assms
proof (induction xs)
  case (Cons x xs)
  show ?case
  proof (cases "f x = v")
    case True
    with Cons.prems have "\<forall>y \<in> set xs. f y \<noteq> v" by (metis distinct.simps(2) imageI list.set_map list.simps(9))
    with True show ?thesis by (cases xs) (auto simp: rem_skip_id filter_id_conv)
  next
    case False
    with Cons show ?thesis by simp
  qed
qed simp

lemma rem_loop_live:
  assumes "wf_queue (length tab) q" "i \<le> length (live q)"
  shows "\<exists>q'. rem_loop tab pid (int i) q = Inr q' \<and> wf_queue (length tab) q' \<and>
           live q' = take i (live q) @ rem_skip (\<lambda>p. p_pid (tab ! p) = pid) (drop i (live q))"
  using assms
proof (induction "length (live q) - i" arbitrary: i q rule: less_induct)
  case less
  show ?case
  proof (cases "i < length (live q)")
    case False
    with less.prems cnt_live [OF less.prems(1)] have "\<not> int i \<le> q_cnt q" by linarith
    then have "rem_loop tab pid (int i) q = Inr q" by (subst rem_loop.simps) simp
    with less.prems False show ?thesis by auto
  next
    case True
    let ?p = "live q ! i" and ?P = "\<lambda>p. p_pid (tab ! p) = pid"
    have dr: "drop i (live q) = ?p # drop (Suc i) (live q)" using True by (simp add: Cons_nth_drop_Suc)
    have p: "?p < length tab" using wf_live_lt less.prems(1) True by (meson nth_mem)
    have le: "int i \<le> q_cnt q" using True less.prems(1) by simp
    have get: "aget (q_slot q) (int i) = Inr (Some ?p)"
      using slot_live [OF less.prems(1) True] less.prems(1) le by (simp add: aget_ok wf_queue_def)
    have step: "rem_loop tab pid (int i) q =
       (if ?P ?p then bnd (q_delete (int i) q) (\<lambda>q. rem_loop tab pid (int (Suc i)) q)
        else rem_loop tab pid (int (Suc i)) q)"
      using le get p by (subst rem_loop.simps) (simp add: aget_ok add.commute)
    show ?thesis
    proof (cases "?P ?p")
      case False
      with less.hyps [of q "Suc i"] True less.prems(1) show ?thesis
        by (simp add: step dr take_Suc_conv_app_nth)
    next
      case hit: True
      from mq.delete_law [OF less.prems(1) True] obtain q1 where
        q1: "q_delete (int i) q = Inr q1" "wf_queue (length tab) q1"
            "live q1 = take i (live q) @ drop (Suc i) (live q)" by blast
      have len1: "length (live q1) = length (live q) - 1" using q1(3) True by simp
      show ?thesis
      proof (cases "Suc i < length (live q)")
        case False
        then have "\<not> int (Suc i) \<le> q_cnt q1"
          using q_delete_cnt [OF q1(1)] cnt_live [OF less.prems(1)] by linarith
        then have "rem_loop tab pid (int (Suc i)) q1 = Inr q1" by (subst rem_loop.simps) simp
        with q1 False hit show ?thesis by (simp add: step dr)
      next
        case suc: True
        have t: "take (Suc i) (live q1) = take i (live q) @ [live q ! Suc i]"
          using q1(3) suc by (simp add: take_Suc_conv_app_nth nth_append)
        have d: "drop (Suc i) (live q1) = drop (Suc (Suc i)) (live q)"
          using q1(3) suc by simp
        have dd: "drop (Suc i) (live q) = live q ! Suc i # drop (Suc (Suc i)) (live q)"
          using suc by (simp add: Cons_nth_drop_Suc)
        have "length (live q1) - Suc i < length (live q) - i" "Suc i \<le> length (live q1)"
          using len1 suc by linarith+
        from less.hyps [OF this(1) q1(2) this(2)] obtain q2 where
          "rem_loop tab pid (int (Suc i)) q1 = Inr q2" "wf_queue (length tab) q2"
          "live q2 = take (Suc i) (live q1) @ rem_skip ?P (drop (Suc i) (live q1))" by auto
        with q1(1) hit t d dd show ?thesis by (simp add: step dr)
      qed
    qed
  qed
qed

section \<open>The queues of a state\<close>

definition wf_mlfq :: "'a ptable_st_scheme \<Rightarrow> bool" where
  "wf_mlfq s \<longleftrightarrow> length (queues s) = 5 \<and> (\<forall>k<5. wf_queue (length (procs s)) (queues s ! k))"

definition queued :: "'a ptable_st_scheme \<Rightarrow> nat \<Rightarrow> nat list" where
  "queued s k = live (queues s ! k)"

lemma getq_ok: "wf_mlfq s \<Longrightarrow> k < 5 \<Longrightarrow> getq (int k) s = Inr (queues s ! k)"
  by (simp add: getq_def aget_ok wf_mlfq_def)

lemma rem_process_skip:
  assumes "wf_mlfq s" "k < 5"
  shows "\<exists>q. rem_process pid (int k) s = Inr (setq k q s) \<and> wf_queue (length (procs s)) q \<and>
           live q = rem_skip (\<lambda>p. p_pid (proc_at s p) = pid) (queued s k)"
proof -
  have "wf_queue (length (procs s)) (queues s ! k)" using assms by (simp add: wf_mlfq_def)
  from rem_loop_live [OF this, of 0 pid] obtain q where
    "rem_loop (procs s) pid 0 (queues s ! k) = Inr q" "wf_queue (length (procs s)) q"
    "live q = rem_skip (\<lambda>p. p_pid (procs s ! p) = pid) (queued s k)" by (auto simp: queued_def)
  moreover have "int k = 0 \<or> int k = 1 \<or> int k = 2 \<or> int k = 3 \<or> int k = 4"
    using assms(2) by auto
  ultimately show ?thesis using assms by (auto simp: rem_process_def getq_ok)
qed

lemma wf_mlfq_setq:
  assumes "wf_mlfq s" "k < 5" "wf_queue (length (procs s)) q"
  shows "wf_mlfq (setq k q s)"
  using assms by (auto simp: wf_mlfq_def nth_list_update)

lemma wf_mlfq_modp [simp]: "wf_mlfq (modp p f s) = wf_mlfq s"
  by (simp add: wf_mlfq_def)

lemma queued_setq: "wf_mlfq s \<Longrightarrow> k < 5 \<Longrightarrow> queued (setq k q s) j = (if j = k then live q else queued s j)"
  by (simp add: queued_def wf_mlfq_def nth_list_update)

lemma queued_modp [simp]: "queued (modp p f s) j = queued s j"
  by (simp add: queued_def)

lemma rem_skip_last:
  assumes "\<forall>x \<in> set xs. \<not> P x" "P y"
  shows "rem_skip P (xs @ [y]) = xs"
  using assms by (induction xs) auto

text \<open>
  What \<open>ageing\<close> does to a process of queue \<open>k\<close> whose \<open>current_queue\<close> is \<open>k\<close>: it is appended
  to the queue above and, \<open>current_queue\<close> having been decremented before \<open>rem_process\<close> is
  called with it, taken out of that queue again. Every queue keeps its contents.
\<close>

definition age_fields :: "u32 \<Rightarrow> proc \<Rightarrow> proc" where
  "age_fields t p = p\<lparr>p_current_queue := p_current_queue p - 1,
                      p_ticks := (p_ticks p)[nat (p_current_queue p - 1) := 0],
                      p_start := int_of_uint t\<rparr>"

lemma age_one_effect:
  assumes wf: "wf_mlfq s" and k: "Suc k < 5" and p: "p < length (procs s)"
    and cq: "p_current_queue (proc_at s p) = int (Suc k)" and tk: "length (p_ticks (proc_at s p)) = 5"
    and room: "length (queued s k) < 64"
    and fresh: "\<forall>r \<in> set (queued s k). p_pid (proc_at s r) \<noteq> p_pid (proc_at s p)"
  shows "\<exists>s'. age_one (Suc k) p s = Inr s' \<and> wf_mlfq s' \<and> queued s' = queued s \<and> ticks s' = ticks s \<and>
           procs s' = (procs s)[p := age_fields (ticks s) (proc_at s p)]"
proof -
  let ?pr = "proc_at s p"
  let ?s1 = "modp p (\<lambda>pr. pr\<lparr>p_current_queue := int k, p_ticks := (p_ticks ?pr)[k := 0],
                p_start := int_of_uint (ticks s)\<rparr>) s"
  have k1: "k < 5" using k by simp
  have "wf_queue (length (procs s)) (queues s ! k)" using wf k1 by (simp add: wf_mlfq_def)
  from mq.push_law [OF this p] room obtain up where
    up: "q_push p (queues s ! k) = Inr up" "wf_queue (length (procs s)) up"
        "live up = queued s k @ [p]" by (auto simp: queued_def)
  let ?s2 = "setq k up ?s1"
  have wf2: "wf_mlfq ?s2" using wf up(2) k1 by (intro wf_mlfq_setq) simp_all
  have pid2: "p_pid (proc_at ?s2 r) = p_pid (proc_at s r)" if "r < length (procs s)" for r
    using that p by (simp add: nth_list_update)
  have q2: "queued ?s2 k = queued s k @ [p]"
    using wf k1 up(3) by (simp add: queued_setq)
  have lt: "r < length (procs s)" if "r \<in> set (queued s k)" for r
    using that wf_live_lt [of "length (procs s)" "queues s ! k"] wf k1
    by (auto simp: queued_def wf_mlfq_def)
  have skip: "rem_skip (\<lambda>r. p_pid (proc_at ?s2 r) = p_pid ?pr) (queued ?s2 k) = queued s k"
    unfolding q2 by (rule rem_skip_last) (use fresh lt pid2 p in auto)
  from rem_process_skip [OF wf2 k1, of "p_pid ?pr"] obtain q where
    q: "rem_process (p_pid ?pr) (int k) ?s2 = Inr (setq k q ?s2)"
       "wf_queue (length (procs s)) q" "live q = queued s k"
    unfolding skip by auto
  have age: "age_one (Suc k) p s = Inr (setq k q ?s2)"
    using k1 k cq tk up(1) q(1) p wf
    by (simp add: age_one_def Let_def aput_ok getq_ok)
  have "queued (setq k q ?s2) = queued s"
    using wf2 wf k1 q(3) by (intro ext) (simp add: queued_setq)
  moreover have "procs (setq k q ?s2) = (procs s)[p := age_fields (ticks s) ?pr]"
    using cq by (simp add: age_fields_def)
  moreover have "wf_mlfq (setq k q ?s2)" by (rule wf_mlfq_setq [OF wf2 k1]) (use q(2) in simp)
  ultimately show ?thesis using age by auto
qed

definition age_due :: "'a ptable_st_scheme \<Rightarrow> nat \<Rightarrow> bool" where
  "age_due s p \<longleftrightarrow> p_state (proc_at s p) = RUNNABLE \<and> wait_over (ticks s) (proc_at s p)"

text \<open>The states the queue code is written for.\<close>

definition mlfq_ok :: "'a ptable_st_scheme \<Rightarrow> bool" where
  "mlfq_ok s \<longleftrightarrow> wf_mlfq s \<and> (\<forall>p < length (procs s). length (p_ticks (proc_at s p)) = 5) \<and>
     (\<forall>k<5. \<forall>p \<in> set (queued s k). p_current_queue (proc_at s p) = int k) \<and>
     (\<forall>k<5. distinct (queued s k)) \<and>
     (\<forall>k<5. \<forall>j<5. j \<noteq> k \<longrightarrow> (\<forall>p \<in> set (queued s k). \<forall>r \<in> set (queued s j).
        p_pid (proc_at s r) \<noteq> p_pid (proc_at s p))) \<and>
     (\<forall>k<5. length (queued s k) < 64)"

lemma queued_lt: "wf_mlfq s \<Longrightarrow> k < 5 \<Longrightarrow> p \<in> set (queued s k) \<Longrightarrow> p < length (procs s)"
  using wf_live_lt [of "length (procs s)" "queues s ! k"] by (auto simp: queued_def wf_mlfq_def)

lemma age_fields_pid [simp]: "p_pid (age_fields t p) = p_pid p"
  by (simp add: age_fields_def)

lemma age_fields_ticks [simp]: "length (p_ticks (age_fields t p)) = length (p_ticks p)"
  by (simp add: age_fields_def)

lemma age_loop_step:
  assumes wf: "wf_mlfq s" and k: "k < 5" "0 < k" and i: "i < length (queued s k)"
  shows "age_loop k (int i) s =
    (if age_due s (queued s k ! i) then bnd (age_one k (queued s k ! i) s) (age_loop k (int (Suc i)))
     else age_loop k (int (Suc i)) s)"
proof -
  have wq: "wf_queue (length (procs s)) (queues s ! k)" using wf k by (simp add: wf_mlfq_def)
  have "aget (q_slot (queues s ! k)) (int i) = Inr (Some (queued s k ! i))"
    using slot_live [OF wq, of i] i wq mq.items_cap [OF wq]
    by (simp add: queued_def aget_ok wf_queue_def del: length_live)
  moreover have "queued s k ! i < length (procs s)" using queued_lt wf k i nth_mem by metis
  moreover have "int i \<le> cnt s k" using i cnt_live [OF wq] by (simp add: cnt_def queued_def)
  ultimately show ?thesis
    using wf k by (subst age_loop.simps) (auto simp: wf_mlfq_def age_due_def add.commute)
qed

lemma age_loop_done:
  assumes "wf_mlfq s" "k < 5" "length (queued s k) \<le> i"
  shows "age_loop k (int i) s = Inr s"
proof -
  have "wf_queue (length (procs s)) (queues s ! k)" using assms by (simp add: wf_mlfq_def)
  from cnt_live [OF this] assms have "\<not> int i \<le> cnt s k" by (simp add: cnt_def queued_def)
  then show ?thesis by (subst age_loop.simps) simp
qed

lemma age_loop_effect:
  assumes "wf_mlfq s" "Suc k < 5" "distinct (drop i (queued s (Suc k)))"
    and "\<forall>p < length (procs s). length (p_ticks (proc_at s p)) = 5"
    and "\<forall>p \<in> set (drop i (queued s (Suc k))). p_current_queue (proc_at s p) = int (Suc k)"
    and "length (queued s k) < 64"
    and "\<forall>p \<in> set (queued s (Suc k)). \<forall>r \<in> set (queued s k). p_pid (proc_at s r) \<noteq> p_pid (proc_at s p)"
  shows "\<exists>s'. age_loop (Suc k) (int i) s = Inr s' \<and> wf_mlfq s' \<and> queued s' = queued s \<and>
     ticks s' = ticks s \<and> length (procs s') = length (procs s) \<and>
     (\<forall>p < length (procs s). proc_at s' p =
        (if p \<in> set (drop i (queued s (Suc k))) \<and> age_due s p
         then age_fields (ticks s) (proc_at s p) else proc_at s p))"
  using assms
proof (induction "length (queued s (Suc k)) - i" arbitrary: i s rule: less_induct)
  case less
  show ?case
  proof (cases "i < length (queued s (Suc k))")
    case False
    with less.prems age_loop_done [of s "Suc k" i] show ?thesis by auto
  next
    case True
    let ?p = "queued s (Suc k) ! i"
    have dr: "drop i (queued s (Suc k)) = ?p # drop (Suc i) (queued s (Suc k))"
      using True by (simp add: Cons_nth_drop_Suc)
    have notin: "?p \<notin> set (drop (Suc i) (queued s (Suc k)))" using less.prems(3) dr by simp
    have plt: "?p < length (procs s)"
      using queued_lt [OF less.prems(1,2)] True nth_mem by blast
    note step = age_loop_step [OF less.prems(1,2) _ True]
    have dec: "length (queued s (Suc k)) - Suc i < length (queued s (Suc k)) - i" using True by simp
    show ?thesis
    proof (cases "age_due s ?p")
      case False
      from less.hyps [OF dec less.prems(1,2) _ less.prems(4) _ less.prems(6,7)] less.prems(3,5) dr
      obtain s' where "age_loop (Suc k) (int (Suc i)) s = Inr s'" "wf_mlfq s'" "queued s' = queued s"
        "ticks s' = ticks s" "length (procs s') = length (procs s)"
        "\<forall>p < length (procs s). proc_at s' p =
          (if p \<in> set (drop (Suc i) (queued s (Suc k))) \<and> age_due s p
           then age_fields (ticks s) (proc_at s p) else proc_at s p)" by auto
      with False step dr show ?thesis by auto
    next
      case due: True
      from age_one_effect [OF less.prems(1,2) plt] less.prems(4-7) dr True plt
      obtain s1 where s1: "age_one (Suc k) ?p s = Inr s1" "wf_mlfq s1" "queued s1 = queued s"
        "ticks s1 = ticks s" "procs s1 = (procs s)[?p := age_fields (ticks s) (proc_at s ?p)]"
        by auto
      have at1: "proc_at s1 r = (if r = ?p then age_fields (ticks s) (proc_at s ?p) else proc_at s r)"
        if "r < length (procs s)" for r using that s1(5) by (simp add: nth_list_update)
      have lt: "r < length (procs s)" if "r \<in> set (queued s j)" "j < 5" for r j
        using queued_lt less.prems(1) that by blast
      have pid1: "p_pid (proc_at s1 r) = p_pid (proc_at s r)" if "r < length (procs s)" for r
        using at1 [OF that] by simp
      have len1: "length (procs s1) = length (procs s)" using s1(5) by simp
      have "\<exists>s'. age_loop (Suc k) (int (Suc i)) s1 = Inr s' \<and> wf_mlfq s' \<and> queued s' = queued s1 \<and>
         ticks s' = ticks s1 \<and> length (procs s') = length (procs s1) \<and>
         (\<forall>p < length (procs s1). proc_at s' p =
            (if p \<in> set (drop (Suc i) (queued s1 (Suc k))) \<and> age_due s1 p
             then age_fields (ticks s1) (proc_at s1 p) else proc_at s1 p))"
      proof (rule less.hyps)
        show "\<forall>p < length (procs s1). length (p_ticks (proc_at s1 p)) = 5"
          using less.prems(4) at1 len1 plt by auto
        show "\<forall>p \<in> set (drop (Suc i) (queued s1 (Suc k))). p_current_queue (proc_at s1 p) = int (Suc k)"
        proof
          fix r assume r: "r \<in> set (drop (Suc i) (queued s1 (Suc k)))"
          with s1(3) have "r < length (procs s)" using lt [of r "Suc k"] less.prems(2) by (auto dest: in_set_dropD)
          with r at1 [of r] notin s1(3) less.prems(5) dr show "p_current_queue (proc_at s1 r) = int (Suc k)" by auto
        qed
        show "\<forall>p \<in> set (queued s1 (Suc k)). \<forall>r \<in> set (queued s1 k). p_pid (proc_at s1 r) \<noteq> p_pid (proc_at s1 p)"
          using less.prems(2,7) pid1 lt s1(3) by auto
      qed (use dec less.prems s1 dr in auto)
      then obtain s' where s': "age_loop (Suc k) (int (Suc i)) s1 = Inr s'" "wf_mlfq s'"
         "queued s' = queued s" "ticks s' = ticks s" "length (procs s') = length (procs s)"
         "\<And>p. p < length (procs s) \<Longrightarrow> proc_at s' p =
            (if p \<in> set (drop (Suc i) (queued s (Suc k))) \<and> age_due s1 p
             then age_fields (ticks s) (proc_at s1 p) else proc_at s1 p)"
        using s1(3,4) len1 by auto
      have "proc_at s' r = (if r \<in> set (drop i (queued s (Suc k))) \<and> age_due s r
              then age_fields (ticks s) (proc_at s r) else proc_at s r)" if "r < length (procs s)" for r
        using s'(6) [OF that] at1 [OF that] due notin dr s1(4) by (auto simp: age_due_def)
      with s' s1(1) step due show ?thesis by auto
    qed
  qed
qed

text \<open>The state after the loops for the queues \<open>1 .. m\<close> of \<open>ageing\<close>.\<close>

definition aged_upto :: "nat \<Rightarrow> 'a ptable_st_scheme \<Rightarrow> 'a ptable_st_scheme \<Rightarrow> bool" where
  "aged_upto m s0 s \<longleftrightarrow> wf_mlfq s \<and> queued s = queued s0 \<and> ticks s = ticks s0 \<and>
     length (procs s) = length (procs s0) \<and>
     (\<forall>p < length (procs s0). proc_at s p =
        (if (\<exists>k. 0 < k \<and> k \<le> m \<and> p \<in> set (queued s0 k)) \<and> age_due s0 p
         then age_fields (ticks s0) (proc_at s0 p) else proc_at s0 p))"

lemma aged_upto_step:
  assumes ok: "mlfq_ok s0" and a: "aged_upto m s0 s" and m: "Suc m < 5"
  shows "\<exists>s'. age_loop (Suc m) 0 s = Inr s' \<and> aged_upto (Suc m) s0 s'"
proof -
  note ok' = ok [unfolded mlfq_ok_def] and a' = a [unfolded aged_upto_def]
  from a' have wf: "wf_mlfq s" and qd: "queued s = queued s0" and tk: "ticks s = ticks s0"
    and ln: "length (procs s) = length (procs s0)"
    and at: "\<And>p. p < length (procs s0) \<Longrightarrow> proc_at s p =
        (if (\<exists>k. 0 < k \<and> k \<le> m \<and> p \<in> set (queued s0 k)) \<and> age_due s0 p
         then age_fields (ticks s0) (proc_at s0 p) else proc_at s0 p)" by blast+
  have lt: "r < length (procs s0)" if "r \<in> set (queued s0 j)" "j < 5" for r j
    using queued_lt [OF _ that(2,1)] ok' by blast
  have pid: "p_pid (proc_at s r) = p_pid (proc_at s0 r)" if "r < length (procs s0)" for r
    using at [OF that] by simp
  have new: "\<not> (\<exists>k. 0 < k \<and> k \<le> m \<and> r \<in> set (queued s0 k))" if "r \<in> set (queued s0 (Suc m))" for r
  proof
    assume "\<exists>k. 0 < k \<and> k \<le> m \<and> r \<in> set (queued s0 k)"
    then obtain k where k: "k \<le> m" "r \<in> set (queued s0 k)" by blast
    with m have "k < 5" "Suc m \<noteq> k" by auto
    with k that ok' m show False by blast
  qed
  have at0: "proc_at s r = proc_at s0 r" if "r \<in> set (queued s0 (Suc m))" for r
    using at [OF lt [OF that m]] new [OF that] by auto
  have cq: "p_current_queue (proc_at s0 p) = int (Suc m)" if "p \<in> set (queued s0 (Suc m))" for p
    using ok' m that by blast
  have pids: "p_pid (proc_at s0 r) \<noteq> p_pid (proc_at s0 p)"
    if "p \<in> set (queued s0 (Suc m))" "r \<in> set (queued s0 m)" for p r
  proof -
    have "m < 5" "m \<noteq> Suc m" using m by simp_all
    with ok' m that show ?thesis by blast
  qed
  have "\<exists>s'. age_loop (Suc m) (int 0) s = Inr s' \<and> wf_mlfq s' \<and> queued s' = queued s \<and>
     ticks s' = ticks s \<and> length (procs s') = length (procs s) \<and>
     (\<forall>p < length (procs s). proc_at s' p =
        (if p \<in> set (drop 0 (queued s (Suc m))) \<and> age_due s p
         then age_fields (ticks s) (proc_at s p) else proc_at s p))"
  proof (rule age_loop_effect [OF wf m])
    show "\<forall>p < length (procs s). length (p_ticks (proc_at s p)) = 5"
      using at ln ok' by auto
    show "\<forall>p \<in> set (queued s (Suc m)). \<forall>r \<in> set (queued s m). p_pid (proc_at s r) \<noteq> p_pid (proc_at s p)"
      using pids pid lt qd m by simp
    show "\<forall>p \<in> set (drop 0 (queued s (Suc m))). p_current_queue (proc_at s p) = int (Suc m)"
      using cq at0 qd by simp
  qed (use ok' m qd in auto)
  then obtain s' where s': "age_loop (Suc m) 0 s = Inr s'" "wf_mlfq s'" "queued s' = queued s0"
     "ticks s' = ticks s0" "length (procs s') = length (procs s0)"
     "\<And>p. p < length (procs s0) \<Longrightarrow> proc_at s' p =
        (if p \<in> set (queued s0 (Suc m)) \<and> age_due s p
         then age_fields (ticks s0) (proc_at s p) else proc_at s p)"
    using qd tk ln by auto
  have "proc_at s' p = (if (\<exists>k. 0 < k \<and> k \<le> Suc m \<and> p \<in> set (queued s0 k)) \<and> age_due s0 p
         then age_fields (ticks s0) (proc_at s0 p) else proc_at s0 p)" if "p < length (procs s0)" for p
  proof (cases "p \<in> set (queued s0 (Suc m))")
    case True
    with s'(6) [OF that] at0 [OF True] tk show ?thesis by (auto simp: age_due_def)
  next
    case False
    then have "(\<exists>k. 0 < k \<and> k \<le> Suc m \<and> p \<in> set (queued s0 k)) = (\<exists>k. 0 < k \<and> k \<le> m \<and> p \<in> set (queued s0 k))"
      by (auto simp: le_Suc_eq)
    with False s'(6) [OF that] at [OF that] show ?thesis by simp
  qed
  with s' show ?thesis by (auto simp: aged_upto_def)
qed

lemma ageing_effect:
  assumes "mlfq_ok s"
  shows "\<exists>s'. ageing s = Inr s' \<and> aged_upto 4 s s'"
proof -
  have "aged_upto 0 s s" using assms by (simp add: aged_upto_def mlfq_ok_def)
  from aged_upto_step [OF assms this] obtain s1 where
    s1: "age_loop (Suc 0) 0 s = Inr s1" "aged_upto (Suc 0) s s1" by auto
  from aged_upto_step [OF assms s1(2)] obtain s2 where
    s2: "age_loop (Suc (Suc 0)) 0 s1 = Inr s2" "aged_upto (Suc (Suc 0)) s s2" by auto
  from aged_upto_step [OF assms s2(2)] obtain s3 where
    s3: "age_loop (Suc (Suc (Suc 0))) 0 s2 = Inr s3" "aged_upto (Suc (Suc (Suc 0))) s s3" by auto
  from aged_upto_step [OF assms s3(2)] obtain s4 where
    "age_loop (Suc (Suc (Suc (Suc 0)))) 0 s3 = Inr s4" "aged_upto (Suc (Suc (Suc (Suc 0)))) s s4" by auto
  with s1 s2 s3 show ?thesis by (simp add: ageing_def numeral_eq_Suc)
qed

text \<open>The operations on queues change the queues and the process table, and nothing else.\<close>

definition pq :: "'a ptable_st_scheme \<Rightarrow> 'a ptable_st_scheme \<Rightarrow> bool" where
  "pq s0 s \<longleftrightarrow> s = s0\<lparr>procs := procs s, queues := queues s\<rparr>"

lemma pq_refl: "pq s s"
  by (simp add: pq_def)

lemma pq_update [simp, intro!]: "pq s0 s \<Longrightarrow> pq s0 (setq k q s)" "pq s0 s \<Longrightarrow> pq s0 (modp p f s)"
proof -
  have *: "pq s0 (s\<lparr>queues := x\<rparr>) \<and> pq s0 (s\<lparr>procs := y\<rparr>)" if "pq s0 s" for x y
    by (subst (1 2) that [unfolded pq_def]) (simp add: pq_def)
  then show "pq s0 s \<Longrightarrow> pq s0 (setq k q s)" "pq s0 s \<Longrightarrow> pq s0 (modp p f s)" by (simp_all add: setq_def modp_def)
qed

lemma rem_process_pq: "rem_process pid k s = Inr s' \<Longrightarrow> pq s0 s \<Longrightarrow> pq s0 s'"
  by (auto simp: rem_process_def res_iff split: if_splits)

lemma age_one_pq: "age_one k p s = Inr s' \<Longrightarrow> pq s0 s \<Longrightarrow> pq s0 s'"
  by (auto simp: age_one_def Let_def res_iff elim!: rem_process_pq)

lemma age_loop_pq: "age_loop k i s = Inr s' \<Longrightarrow> pq s0 s \<Longrightarrow> pq s0 s'"
proof (induction k i s rule: age_loop.induct)
  case (1 k i s)
  show ?case
  proof (cases "0 < k \<and> k < length (queues s) \<and> i \<le> cnt s k")
    case True
    with "1.prems" obtain p pr where
      r: "aget (q_slot (queues s ! k)) i = Inr (Some p)" "getp (Some p) s = Inr pr" and
      step: "(if p_state pr \<noteq> RUNNABLE then age_loop k (i + 1) s
             else if wait_over (ticks s) pr then bnd (age_one k p s) (age_loop k (i + 1))
             else age_loop k (i + 1) s) = Inr s'"
      by (subst (asm) age_loop.simps) (auto simp: bnd_Inr_iff deref_Inr_iff)
    show ?thesis
      using step "1.IH" [OF True r(1) _ r(2)] "1.prems"(2)
      by (auto simp: bnd_Inr_iff dest: age_one_pq split: if_splits)
  next
    case False
    with "1.prems" show ?thesis by (subst (asm) age_loop.simps) auto
  qed
qed

lemma ageing_pq: "ageing s = Inr s' \<Longrightarrow> pq s0 s \<Longrightarrow> pq s0 s'"
  by (auto simp: ageing_def bnd_Inr_iff elim!: age_loop_pq)

section \<open>Properties\<close>

definition waiting_example :: "int \<Rightarrow> ptable_st" where
  "waiting_example cq = (zero_ptable
     [zero_proc\<lparr>p_state := RUNNABLE, p_pid := 4, p_waittime := 20, p_current_queue := cq\<rparr>])
     \<lparr>ticks := 50, queues := [queue_init, \<lparr>q_slot = Some 0 # replicate 63 None, q_cnt = 0\<rparr>,
                             queue_init, queue_init, queue_init]\<rparr>"

lemma waiting_example_queued:
  "queued (waiting_example cq) k = (if k = 1 then [0] else [])" if "k < 5"
  using that by (auto simp: queued_def live_def waiting_example_def queue_init_def less_Suc_eq numeral_eq_Suc)

lemma waiting_example_wf: "wf_mlfq (waiting_example cq)"
  by (simp add: wf_mlfq_def wf_queue_def waiting_example_def zero_ptable_def queue_init_def
      less_Suc_eq numeral_eq_Suc)

lemma waiting_example_proc:
  "procs (waiting_example cq) =
     [zero_proc\<lparr>p_state := RUNNABLE, p_pid := 4, p_waittime := 20, p_current_queue := cq\<rparr>]"
  by (simp add: waiting_example_def zero_ptable_def)

text \<open>
  (C20) What \<open>rem_process\<close> removes from the queue it is told to look at, in every well-formed state. The loop does
  not step back after a deletion, so it removes the entries with the given pid but never looks at the entry right
  after one it has removed: the queue becomes \<open>rem_skip\<close> of what it was. When no two entries have the same
  pid that is the queue without the process, in the same order. Nothing else in the state changes.
\<close>

theorem rem_process_removes:
  assumes "wf_mlfq s" "k < 5"
  shows "\<exists>s'. rem_process pid (int k) s = Inr s' \<and> wf_mlfq s' \<and> s' = s\<lparr>queues := queues s'\<rparr> \<and>
     queued s' = (queued s)(k := rem_skip (\<lambda>p. p_pid (proc_at s p) = pid) (queued s k)) \<and>
     (distinct (map (\<lambda>p. p_pid (proc_at s p)) (queued s k)) \<longrightarrow>
        queued s' k = filter (\<lambda>p. p_pid (proc_at s p) \<noteq> pid) (queued s k))"
proof -
  obtain q where q: "rem_process pid (int k) s = Inr (setq k q s)" "wf_queue (length (procs s)) q"
    "live q = rem_skip (\<lambda>p. p_pid (proc_at s p) = pid) (queued s k)" using rem_process_skip [OF assms] by blast
  have "queued (setq k q s) = (queued s)(k := live q)" using assms by (auto simp: queued_setq fun_eq_iff)
  moreover have "setq k q s = s\<lparr>queues := queues (setq k q s)\<rparr>" by (simp add: setq_def)
  ultimately show ?thesis using q wf_mlfq_setq [OF assms q(2)]
    by (intro exI [of _ "setq k q s"]) (simp add: rem_skip_filter)
qed

theorem rem_process_removes_witness:
  "\<exists>s'. rem_process 4 1 (waiting_example 1) = Inr s' \<and> queued s' 1 = []"
  using rem_process_removes [of "waiting_example 1" 1 4] waiting_example_wf
  by (auto simp: waiting_example_queued waiting_example_proc)

text \<open>
  (C21) \<open>ageing\<close> moves no process. In every state the queues are meant to be in (\<open>mlfq_ok\<close>: each queued
  process is in one queue only, once, the one its \<open>current_queue\<close> names, and there is room) it succeeds and leaves all five queues
  as they are: \<open>current_queue\<close> is decremented before \<open>rem_process\<close> is called with it, so
  the entry just appended to the queue above is the one removed again. Of a runnable process of the queues 1 to 4
  that waited longer than its \<open>waittime\<close>, \<open>current_queue\<close> goes down by one, \<open>start\<close> becomes the current time and the tick count of
  the queue above is cleared; every other process, and the rest of the state, stays the same. So afterwards \<open>current_queue\<close> names a
  queue the process is not in.
\<close>

theorem ageing_moves_nothing:
  assumes "mlfq_ok s"
  shows "\<exists>s'. ageing s = Inr s' \<and> queued s' = queued s \<and> s' = s\<lparr>procs := procs s', queues := queues s'\<rparr> \<and>
     length (procs s') = length (procs s) \<and>
     (\<forall>p < length (procs s). proc_at s' p =
        (if (\<exists>k. 0 < k \<and> k < 5 \<and> p \<in> set (queued s k)) \<and> age_due s p
         then (proc_at s p)\<lparr>p_current_queue := p_current_queue (proc_at s p) - 1,
                p_ticks := (p_ticks (proc_at s p))[nat (p_current_queue (proc_at s p) - 1) := 0],
                p_start := int_of_uint (ticks s)\<rparr>
         else proc_at s p)) \<and>
     (\<forall>k. 0 < k \<and> k < 5 \<longrightarrow> (\<forall>p \<in> set (queued s k). age_due s p \<longrightarrow>
        p_current_queue (proc_at s' p) = int k - 1 \<and> p \<in> set (queued s' k) \<and> p \<notin> set (queued s' (k - 1))))"
proof -
  from ageing_effect [OF assms] obtain s' where s': "ageing s = Inr s'" "aged_upto 4 s s'" by blast
  have le: "k \<le> 4 \<longleftrightarrow> k < 5" for k :: nat by auto
  have at: "proc_at s' p = (if (\<exists>k. 0 < k \<and> k < 5 \<and> p \<in> set (queued s k)) \<and> age_due s p
         then age_fields (ticks s) (proc_at s p) else proc_at s p)" if "p < length (procs s)" for p
    using s'(2) that unfolding aged_upto_def le by blast
  have "p_current_queue (proc_at s' p) = int k - 1 \<and> p \<in> set (queued s' k) \<and> p \<notin> set (queued s' (k - 1))"
    if k: "0 < k" "k < 5" and p: "p \<in> set (queued s k)" and "age_due s p" for k p
  proof -
    have cq: "p_current_queue (proc_at s p) = int k" and wf: "wf_mlfq s"
      and "\<not> p \<in> set (queued s (k - 1))"
      using assms k p unfolding mlfq_ok_def by (auto, metis One_nat_def Suc_pred lessI less_imp_diff_less less_irrefl)
    moreover have "p < length (procs s)" using queued_lt [OF wf k(2) p] .
    moreover have "proc_at s' p = age_fields (ticks s) (proc_at s p)"
      using at [OF calculation(4)] k p \<open>age_due s p\<close> by auto
    ultimately show ?thesis using s'(2) p by (simp add: aged_upto_def age_fields_def)
  qed
  moreover have "s' = s\<lparr>procs := procs s', queues := queues s'\<rparr>"
    using ageing_pq [OF s'(1) pq_refl] by (simp only: pq_def)
  ultimately show ?thesis using s' at unfolding age_fields_def by (auto simp: aged_upto_def)
qed

lemma waiting_example_due: "age_due (waiting_example cq) 0"
  by (simp add: age_due_def wait_over_def waiting_example_proc zero_proc_def uint_of_int_def)
    (simp add: waiting_example_def)

lemma waiting_example_ok: "mlfq_ok (waiting_example 1)"
  by (auto simp: mlfq_ok_def waiting_example_wf waiting_example_queued waiting_example_proc zero_proc_def)

theorem ageing_moves_nothing_witness:
  "mlfq_ok (waiting_example 1) \<and>
   (\<exists>s'. ageing (waiting_example 1) = Inr s' \<and> p_current_queue (proc_at s' 0) = 0 \<and>
      0 \<in> set (queued s' 1) \<and> 0 \<notin> set (queued s' 0))"
proof -
  from ageing_moves_nothing [OF waiting_example_ok] obtain s' where
    s': "ageing (waiting_example 1) = Inr s'"
    "\<forall>k. 0 < k \<and> k < 5 \<longrightarrow> (\<forall>p \<in> set (queued (waiting_example 1) k). age_due (waiting_example 1) p \<longrightarrow>
        p_current_queue (proc_at s' p) = int k - 1 \<and> p \<in> set (queued s' k) \<and> p \<notin> set (queued s' (k - 1)))"
    by blast
  from s'(2) [rule_format, of 1 0] s'(1) waiting_example_ok waiting_example_due [of 1] show ?thesis
    by (auto simp: waiting_example_queued)
qed

text \<open>
  (C22) The second ageing of the same process writes out of bounds: if the first process of
  queue 1 is due and its \<open>current_queue\<close> is already 0, as \<open>ageing\<close> left it, the update
  of its tick counts is at index -1.
\<close>

theorem ageing_again_out_of_bounds:
  assumes "wf_mlfq s" "queued s 1 \<noteq> []" "age_due s (hd (queued s 1))"
    and "p_current_queue (proc_at s (hd (queued s 1))) = 0"
  shows "ageing s = Inl (Wild ''array write'')"
proof -
  have "queued s 1 ! 0 = hd (queued s 1)" using assms(2) by (simp add: hd_conv_nth)
  moreover have "age_one 1 (hd (queued s 1)) s = Inl (Wild ''array write'')"
    using assms(4) by (simp add: age_one_def aput_def)
  ultimately show ?thesis using age_loop_step [OF assms(1), of 1 0] assms(2,3)
    by (simp add: ageing_def)
qed

theorem ageing_again_out_of_bounds_witness:
  "ageing (waiting_example 0) = Inl (Wild ''array write'')"
  by (rule ageing_again_out_of_bounds)
    (simp_all add: waiting_example_wf waiting_example_queued waiting_example_due waiting_example_proc)

end
