(* ===== verification/Scheduler.thy ===== *)
theory Scheduler
  imports Mlfq "HOL-Library.Multiset"
begin

text \<open>
  The per-CPU \<open>scheduler\<close> of \<open>proc.c\<close> under each of its four compile-time policies. What a
  process does between the \<open>swtch\<close> to it and the \<open>swtch\<close> back is the argument \<open>run\<close> of the
  loops: the theorems say what they need of it. A pass over the table may step back to an
  earlier slot (the policies move the loop variable to the process they choose), and a
  queue may grow while it is walked, so the loops carry fuel; \<^term>\<open>None\<close> is running out of it.
\<close>

section \<open>Handing the CPU over and taking it back\<close>

definition dispatch :: "nat \<Rightarrow> 'a ptable_st_scheme \<Rightarrow> 'a ptable_st_scheme res" where
  "dispatch p s =
     bnd (switchuvm (Some p) (s\<lparr>cpu_proc := Some p\<rparr>)) (\<lambda>s.
       Inr (modp p (\<lambda>pr. pr\<lparr>p_state := RUNNING, p_num_run := p_num_run pr + 1\<rparr>) s))"

definition undispatch :: "'a ptable_st_scheme \<Rightarrow> 'a ptable_st_scheme" where
  "undispatch s = (switchkvm s)\<lparr>cpu_proc := None\<rparr>"

section \<open>The policies that walk the process table\<close>

datatype schedflag = DEFAULT | PRIORITY | FCFS

definition pick_priority :: "'a ptable_st_scheme \<Rightarrow> nat \<Rightarrow> nat" where
  "pick_priority s p =
     fold (\<lambda>p1 highest. if p_state (proc_at s p1) = RUNNABLE \<and>
                            p_priority (proc_at s highest) > p_priority (proc_at s p1)
                         then p1 else highest) [0..<length (procs s)] p"

definition pick_fcfs :: "'a ptable_st_scheme \<Rightarrow> nat \<Rightarrow> nat" where
  "pick_fcfs s p =
     fold (\<lambda>p2 min_process. if p_state (proc_at s p2) \<noteq> RUNNABLE then min_process
                             else if p_pid (proc_at s p2) \<le> 2 then min_process
                             else if p_ctime (proc_at s p2) < p_ctime (proc_at s p) then p2
                             else min_process) [0..<length (procs s)] p"

fun pick :: "schedflag \<Rightarrow> 'a ptable_st_scheme \<Rightarrow> nat \<Rightarrow> nat" where
  "pick DEFAULT s p = p"
| "pick PRIORITY s p = pick_priority s p"
| "pick FCFS s p = pick_fcfs s p"

text \<open>
  One pass of the loop over the table, from slot \<open>p\<close> on: the slots dispatched, in order, and
  the state at the end of the pass.
\<close>

fun table_pass ::
  "schedflag \<Rightarrow> (nat \<Rightarrow> 'a ptable_st_scheme \<Rightarrow> 'a ptable_st_scheme) \<Rightarrow> nat \<Rightarrow> nat \<Rightarrow>
   'a ptable_st_scheme \<Rightarrow> nat list \<times> 'a ptable_st_scheme res option" where
  "table_pass fl run 0 p s = ([], None)"
| "table_pass fl run (Suc fuel) p s =
     (if \<not> p < length (procs s) then ([], Some (Inr s))
      else if p_state (proc_at s p) \<noteq> RUNNABLE then table_pass fl run fuel (Suc p) s
      else let p = pick fl s p in
        case dispatch p s of
          Inl e \<Rightarrow> ([], Some (Inl e))
        | Inr s \<Rightarrow>
            (let (tr, r) = table_pass fl run fuel (Suc p) (undispatch (run p s)) in (p # tr, r)))"

section \<open>The multi-level feedback queues\<close>

text \<open>The test after the process comes back, for the queues 0 and 1 to 3.\<close>

definition slice_over :: "nat \<Rightarrow> proc \<Rightarrow> bool res" where
  "slice_over k pr = bnd (aget (p_ticks pr) (int k)) (\<lambda>t. bnd (aget clockperiod (int k)) (\<lambda>c.
     Inr (if k = 0 then t \<ge> c \<and> p_pid pr > 3 else t \<ge> c \<or> p_killed pr \<noteq> 0)))"

text \<open>
  The move to the next lower queue: \<open>m_proc\<close> is appended there unless it was killed, and
  deleted from position \<open>i\<close> of its own queue.
\<close>

definition demote :: "nat \<Rightarrow> int \<Rightarrow> nat \<Rightarrow> 'a ptable_st_scheme \<Rightarrow> 'a ptable_st_scheme res" where
  "demote k i p s =
     bnd (if p_killed (proc_at s p) = 0
          then bnd (getq (int k + 1) s) (\<lambda>q. bnd (q_push p q) (\<lambda>q.
                 Inr (modp p (\<lambda>pr. pr\<lparr>p_current_queue := p_current_queue pr + 1\<rparr>) (setq (k + 1) q s))))
          else Inr s) (\<lambda>s.
     bnd (getq (int k) s) (\<lambda>q. bnd (q_delete i q) (\<lambda>q.
     bnd (aput (p_ticks (proc_at s p)) (int k) 0) (\<lambda>tk.
     Inr (modp p (\<lambda>pr. pr\<lparr>p_ticks := tk\<rparr>) (setq k q s))))))"

text \<open>
  The lowest queue: a process that was not killed goes to the end of the queue. For a killed
  one the entries behind it are shifted and the counter is left alone.
\<close>

definition rotate4 :: "int \<Rightarrow> nat \<Rightarrow> 'a ptable_st_scheme \<Rightarrow> 'a ptable_st_scheme res" where
  "rotate4 i p s =
     bnd (getq 4 s) (\<lambda>q. bnd (q_shift i q) (\<lambda>q.
       if p_killed (proc_at s p) \<noteq> 0 then Inr (setq 4 q s)
       else bnd (aput (q_slot q) (q_cnt q) (Some p)) (\<lambda>slot. Inr (setq 4 (q\<lparr>q_slot := slot\<rparr>) s))))"

definition after_run :: "nat \<Rightarrow> int \<Rightarrow> nat \<Rightarrow> 'a ptable_st_scheme \<Rightarrow> 'a ptable_st_scheme res" where
  "after_run k i p s =
     (if k = 4 then rotate4 i p s
      else bnd (slice_over k (proc_at s p)) (\<lambda>b. if b then demote k i p s else Inr s))"




section \<open>The choice of the priority policy\<close>

lemma fold_priority:
  fixes f :: "nat \<Rightarrow> int" and P :: "nat \<Rightarrow> bool"
  assumes "P p"
  shows "let h = fold (\<lambda>p1 h. if P p1 \<and> f h > f p1 then p1 else h) xs p
         in P h \<and> f h \<le> f p \<and> (\<forall>q \<in> set xs. P q \<longrightarrow> f h \<le> f q) \<and> (h = p \<or> h \<in> set xs)"
  using assms
proof (induction xs arbitrary: p)
  case (Cons q xs)
  show ?case
  proof (cases "P q \<and> f p > f q")
    case True
    with Cons.IH [of q] show ?thesis by (auto simp: Let_def)
  next
    case False
    with Cons.IH [of p] Cons.prems show ?thesis by (auto simp: Let_def not_less intro: order_trans)
  qed
qed simp

lemma fold_fcfs:
  fixes P :: "nat \<Rightarrow> bool"
  shows "fold (\<lambda>p2 m. if P p2 then p2 else m) xs p = last (p # filter P xs)"
  by (induction xs arbitrary: p) auto

lemma dispatch_eq:
  assumes "p < length (procs s)" "p_kstack (proc_at s p) \<noteq> 0" "p_pgdir (proc_at s p) \<noteq> 0"
  shows "dispatch p s =
    Inr (modp p (\<lambda>pr. pr\<lparr>p_state := RUNNING, p_num_run := p_num_run pr + 1\<rparr>)
      (s\<lparr>cpu_proc := Some p, cpu_esp0 := p_kstack (proc_at s p) + KSTACKSIZE,
         cpu_cr3 := V2P (p_pgdir (proc_at s p))\<rparr>))"
  using assms by (simp add: dispatch_def switchuvm_def)

lemma undispatch_sel [simp]:
  "procs (undispatch s) = procs s"
  "queues (undispatch s) = queues s"
  "ticks (undispatch s) = ticks s"
  "cpu_proc (undispatch s) = None"
  by (simp_all add: undispatch_def switchkvm_def)

section \<open>One pass over the table\<close>

definition ready :: "'a ptable_st_scheme \<Rightarrow> bool" where
  "ready s \<longleftrightarrow> (\<forall>pr \<in> set (procs s). p_state pr = RUNNABLE \<or> p_state pr = RUNNING \<longrightarrow>
                 p_kstack pr \<noteq> 0 \<and> p_pgdir pr \<noteq> 0)"

lemma readyD:
  "ready s \<Longrightarrow> p < length (procs s) \<Longrightarrow> p_state (proc_at s p) = RUNNABLE \<Longrightarrow>
     p_kstack (proc_at s p) \<noteq> 0 \<and> p_pgdir (proc_at s p) \<noteq> 0"
  by (simp add: ready_def)

lemma dispatch_ready:
  assumes "ready s" "p < length (procs s)" "p_state (proc_at s p) = RUNNABLE"
  shows "\<exists>s1. dispatch p s = Inr s1 \<and> ready s1 \<and>
     procs s1 = (procs s)[p := (proc_at s p)\<lparr>p_state := RUNNING, p_num_run := p_num_run (proc_at s p) + 1\<rparr>]"
  using readyD [OF assms] assms
  by (auto simp: dispatch_eq ready_def dest!: set_list_update_subset [THEN subsetD])

lemma table_pass_default:
  assumes "\<And>p s. length (procs (run p s)) = length (procs s)"
    and "\<And>p s. ready s \<Longrightarrow> p < length (procs s) \<Longrightarrow> p_state (proc_at s p) = RUNNING \<Longrightarrow> ready (run p s)"
    and keep: "\<And>p q s. q \<noteq> p \<Longrightarrow> p_state (proc_at s q) = RUNNABLE \<Longrightarrow> p_state (proc_at (run p s) q) = RUNNABLE"
  shows "ready s \<Longrightarrow> length (procs s) - p < fuel \<Longrightarrow>
    \<exists>tr s'. table_pass DEFAULT run fuel p s = (tr, Some (Inr s')) \<and> ready s' \<and>
      sorted_wrt (<) tr \<and> set tr \<subseteq> {p..<length (procs s)} \<and>
      {q \<in> {p..<length (procs s)}. p_state (proc_at s q) = RUNNABLE} \<subseteq> set tr"
proof (induction fuel arbitrary: p s)
  case (Suc fuel)
  consider "\<not> p < length (procs s)"
    | "p < length (procs s)" "p_state (proc_at s p) \<noteq> RUNNABLE"
    | "p < length (procs s)" "p_state (proc_at s p) = RUNNABLE" by blast
  then show ?case
  proof cases
    case 1
    with Suc.prems show ?thesis by auto
  next
    case 2
    with Suc.prems have "length (procs s) - Suc p < fuel" by linarith
    from Suc.IH [OF Suc.prems(1) this] obtain tr s' where
      "table_pass DEFAULT run fuel (Suc p) s = (tr, Some (Inr s'))" "ready s'" "sorted_wrt (<) tr"
      "set tr \<subseteq> {Suc p..<length (procs s)}"
      "{q \<in> {Suc p..<length (procs s)}. p_state (proc_at s q) = RUNNABLE} \<subseteq> set tr" by blast
    moreover have "Suc p \<le> q" if "p \<le> q" "p_state (proc_at s q) = RUNNABLE" for q
      using that 2(2) by (cases "q = p") auto
    ultimately show ?thesis using 2 by fastforce
  next
    case 3
    obtain s1 where s1: "dispatch p s = Inr s1" "ready s1" and
      pr: "procs s1 = (procs s)[p := (proc_at s p)\<lparr>p_state := RUNNING, p_num_run := p_num_run (proc_at s p) + 1\<rparr>]"
      using dispatch_ready [OF Suc.prems(1) 3] by blast
    let ?s = "undispatch (run p s1)"
    have len: "length (procs ?s) = length (procs s)" by (simp add: assms(1) pr)
    have "ready ?s" using assms(2) [OF s1(2), of p] 3(1) by (simp add: ready_def pr)
    moreover have "length (procs ?s) - Suc p < fuel" using Suc.prems(2) 3(1) len by linarith
    ultimately obtain tr s' where
      tr: "table_pass DEFAULT run fuel (Suc p) ?s = (tr, Some (Inr s'))" "ready s'" "sorted_wrt (<) tr"
      "set tr \<subseteq> {Suc p..<length (procs s)}"
      "{q \<in> {Suc p..<length (procs s)}. p_state (proc_at ?s q) = RUNNABLE} \<subseteq> set tr"
      using Suc.IH [of ?s "Suc p"] len by auto
    have "p_state (proc_at ?s q) = RUNNABLE" if "p_state (proc_at s q) = RUNNABLE" "q \<noteq> p" for q
      using keep [of q p s1] that by (simp add: pr)
    with tr(5) have "{q \<in> {p..<length (procs s)}. p_state (proc_at s q) = RUNNABLE} \<subseteq> insert p (set tr)"
      by (auto simp: Suc_le_eq dest: le_neq_implies_less)
    moreover have "table_pass DEFAULT run (Suc fuel) p s = (p # tr, Some (Inr s'))"
      using 3 s1(1) tr(1) by simp
    ultimately show ?thesis using tr 3 by fastforce
  qed
qed simp

text \<open>
  (C9) Round robin: if the processes that get the CPU leave other runnable processes
  runnable and keep every runnable process loadable, a pass of the default scheduler over
  the table ends, dispatches slots in increasing order, hence none twice, and dispatches
  every process that was runnable when the pass began.
\<close>

theorem default_round_robin:
  assumes "\<And>p s. length (procs (run p s)) = length (procs s)"
    and "\<And>p s. ready s \<Longrightarrow> p < length (procs s) \<Longrightarrow> p_state (proc_at s p) = RUNNING \<Longrightarrow> ready (run p s)"
    and "\<And>p q s. q \<noteq> p \<Longrightarrow> p_state (proc_at s q) = RUNNABLE \<Longrightarrow> p_state (proc_at (run p s) q) = RUNNABLE"
    and "ready s"
  shows "\<exists>tr s'. table_pass DEFAULT run (Suc (length (procs s))) 0 s = (tr, Some (Inr s')) \<and>
     sorted_wrt (<) tr \<and> {q. q < length (procs s) \<and> p_state (proc_at s q) = RUNNABLE} \<subseteq> set tr"
  using table_pass_default [of run s 0 "Suc (length (procs s))", OF assms(1,2,3,4)]
  by (fastforce simp: atLeast0LessThan)

text \<open>A process that only uses its slice and yields.\<close>

definition yields :: "nat \<Rightarrow> 'a ptable_st_scheme \<Rightarrow> 'a ptable_st_scheme" where
  "yields p s = modp p (\<lambda>pr. pr\<lparr>p_state := RUNNABLE\<rparr>) s"

definition three_procs :: ptable_st where
  "three_procs = zero_ptable
     [zero_proc\<lparr>p_state := RUNNABLE, p_pid := 3, p_kstack := 4096, p_pgdir := 8192, p_priority := 60, p_ctime := 9\<rparr>,
      zero_proc\<lparr>p_state := RUNNABLE, p_pid := 4, p_kstack := 4096, p_pgdir := 8192, p_priority := 20, p_ctime := 1\<rparr>,
      zero_proc\<lparr>p_state := RUNNABLE, p_pid := 5, p_kstack := 4096, p_pgdir := 8192, p_priority := 60, p_ctime := 5\<rparr>]"

lemma yields_sel [simp]:
  "length (procs (yields p s)) = length (procs s)"
  "q \<noteq> p \<Longrightarrow> proc_at (yields p s) q = proc_at s q"
  by (simp_all add: yields_def)

lemma yields_ready:
  assumes "ready s" "p < length (procs s)" "p_state (proc_at s p) = RUNNING"
  shows "ready (yields p s)"
  using assms nth_mem [OF assms(2)]
  by (auto simp: ready_def yields_def dest!: set_list_update_subset [THEN subsetD])

theorem default_round_robin_witness:
  "ready three_procs \<and> (\<exists>tr s'. table_pass DEFAULT yields (Suc (length (procs three_procs))) 0 three_procs
       = (tr, Some (Inr s')) \<and> sorted_wrt (<) tr \<and>
     {q. q < length (procs three_procs) \<and> p_state (proc_at three_procs q) = RUNNABLE} \<subseteq> set tr)"
proof
  show "ready three_procs" by (simp add: ready_def three_procs_def zero_ptable_def zero_proc_def)
  then show "\<exists>tr s'. table_pass DEFAULT yields (Suc (length (procs three_procs))) 0 three_procs
       = (tr, Some (Inr s')) \<and> sorted_wrt (<) tr \<and>
     {q. q < length (procs three_procs) \<and> p_state (proc_at three_procs q) = RUNNABLE} \<subseteq> set tr"
    by (intro default_round_robin) (simp_all add: yields_ready)
qed

section \<open>The priority policy\<close>

lemma pick_priority_min:
  assumes "p < length (procs s)" "p_state (proc_at s p) = RUNNABLE"
  shows "pick_priority s p < length (procs s) \<and> p_state (proc_at s (pick_priority s p)) = RUNNABLE \<and>
     (\<forall>q < length (procs s). p_state (proc_at s q) = RUNNABLE \<longrightarrow>
        p_priority (proc_at s (pick_priority s p)) \<le> p_priority (proc_at s q))"
  using fold_priority [of "\<lambda>q. p_state (proc_at s q) = RUNNABLE" p "\<lambda>q. p_priority (proc_at s q)"
      "[0..<length (procs s)]"] assms
  by (auto simp: pick_priority_def Let_def)

definition prefers :: "nat \<Rightarrow> 'a ptable_st_scheme \<Rightarrow> bool" where
  "prefers h s \<longleftrightarrow> h < length (procs s) \<and>
     (\<forall>q < length (procs s). q \<noteq> h \<and> p_state (proc_at s q) = RUNNABLE \<longrightarrow>
        p_priority (proc_at s h) < p_priority (proc_at s q))"

lemma prefers_lt: "prefers h s \<Longrightarrow> h < length (procs s)"
  by (simp add: prefers_def)

lemma pick_priority_prefers:
  assumes "prefers h s" "p_state (proc_at s h) = RUNNABLE"
    and "p < length (procs s)" "p_state (proc_at s p) = RUNNABLE"
  shows "pick_priority s p = h"
  using pick_priority_min [OF assms(3,4)] assms(1,2) unfolding prefers_def
  by (metis not_le)

lemma table_pass_priority:
  assumes "\<And>s. ready s \<Longrightarrow> prefers h s \<Longrightarrow> p_state (proc_at s h) = RUNNING \<Longrightarrow>
      ready (run h s) \<and> prefers h (run h s) \<and> p_state (proc_at (run h s) h) = RUNNABLE"
  shows "ready s \<Longrightarrow> prefers h s \<Longrightarrow> p_state (proc_at s h) = RUNNABLE \<Longrightarrow>
    set (fst (table_pass PRIORITY run fuel p s)) \<subseteq> {h} \<and>
    (\<forall>e. snd (table_pass PRIORITY run fuel p s) \<noteq> Some (Inl e))"
proof (induction fuel arbitrary: p s)
  case (Suc fuel)
  have h: "h < length (procs s)" using Suc.prems(2) by (simp add: prefers_def)
  show ?case
  proof (cases "p < length (procs s) \<and> p_state (proc_at s p) = RUNNABLE")
    case True
    then have pick: "pick PRIORITY s p = h" using pick_priority_prefers Suc.prems by auto
    obtain s1 where s1: "dispatch h s = Inr s1" "ready s1" and
      pr: "procs s1 = (procs s)[h := (proc_at s h)\<lparr>p_state := RUNNING, p_num_run := p_num_run (proc_at s h) + 1\<rparr>]"
      using dispatch_ready [OF Suc.prems(1) h Suc.prems(3)] by blast
    have "prefers h s1" "p_state (proc_at s1 h) = RUNNING"
      using Suc.prems(2) h by (auto simp: prefers_def pr)
    from assms [OF s1(2) this] have
      "ready (undispatch (run h s1))" "prefers h (undispatch (run h s1))"
      "p_state (proc_at (undispatch (run h s1)) h) = RUNNABLE" by (simp_all add: ready_def prefers_def)
    from Suc.IH [OF this, of "Suc h"] show ?thesis
      using True pick s1(1) by (auto split: prod.splits)
  qed (use Suc in auto)
qed simp

text \<open>
  (C14) The priority policy chooses a runnable process whose priority number no runnable
  process undercuts.
\<close>

theorem pick_priority_highest:
  assumes "p < length (procs s)" "p_state (proc_at s p) = RUNNABLE"
  shows "let h = pick PRIORITY s p in h < length (procs s) \<and> p_state (proc_at s h) = RUNNABLE \<and>
     (\<forall>q < length (procs s). p_state (proc_at s q) = RUNNABLE \<longrightarrow> p_priority (proc_at s h) \<le> p_priority (proc_at s q))"
  using pick_priority_min [OF assms] by simp

theorem pick_priority_highest_witness:
  "let h = pick PRIORITY three_procs 0 in h < length (procs three_procs) \<and>
     p_state (proc_at three_procs h) = RUNNABLE \<and>
     (\<forall>q < length (procs three_procs). p_state (proc_at three_procs q) = RUNNABLE \<longrightarrow>
        p_priority (proc_at three_procs h) \<le> p_priority (proc_at three_procs q))"
  using pick_priority_highest [of 0 three_procs]
  by (simp add: three_procs_def zero_ptable_def zero_proc_def)

text \<open>
  (C15) Priorities are strict: while one process has a smaller priority number than every
  other runnable process and is runnable again whenever it gives the CPU back, a pass of
  the priority scheduler, from whatever slot and for however long, dispatches no other
  process, and does not panic.
\<close>

theorem priority_pass_strict:
  assumes "\<And>s. ready s \<Longrightarrow> prefers h s \<Longrightarrow> p_state (proc_at s h) = RUNNING \<Longrightarrow>
      ready (run h s) \<and> prefers h (run h s) \<and> p_state (proc_at (run h s) h) = RUNNABLE"
    and "ready s" "prefers h s" "p_state (proc_at s h) = RUNNABLE"
  shows "set (fst (table_pass PRIORITY run fuel p s)) \<subseteq> {h} \<and>
     (\<forall>e. snd (table_pass PRIORITY run fuel p s) \<noteq> Some (Inl e))"
  using table_pass_priority [of h run, OF assms] .

lemma yields_prefers: "prefers h s \<Longrightarrow> prefers h (yields h s) \<and> p_state (proc_at (yields h s) h) = RUNNABLE"
  by (auto simp: prefers_def) (auto simp: yields_def)

theorem priority_pass_strict_witness:
  "ready three_procs \<and> prefers 1 three_procs \<and>
   set (fst (table_pass PRIORITY yields 4 0 three_procs)) \<subseteq> {1} \<and>
   (\<forall>e. snd (table_pass PRIORITY yields 4 0 three_procs) \<noteq> Some (Inl e)) \<and>
   table_pass PRIORITY yields 4 0 three_procs = ([1, 1, 1, 1], None)"
proof -
  have r: "ready three_procs" by (simp add: ready_def three_procs_def zero_ptable_def zero_proc_def)
  have p: "prefers 1 three_procs" "p_state (proc_at three_procs 1) = RUNNABLE"
    by (auto simp: prefers_def less_Suc_eq three_procs_def zero_ptable_def zero_proc_def)
  have "table_pass PRIORITY yields 4 0 three_procs = ([1, 1, 1, 1], None)"
    by code_simp
  moreover have "set (fst (table_pass PRIORITY yields 4 0 three_procs)) \<subseteq> {1} \<and>
      (\<forall>e. snd (table_pass PRIORITY yields 4 0 three_procs) \<noteq> Some (Inl e))"
    using r p by (intro priority_pass_strict) (simp_all add: yields_prefers yields_ready prefers_lt)
  ultimately show ?thesis using r p by blast
qed

section \<open>The first-come-first-served policy\<close>

lemma pick_fcfs_eq:
  "pick_fcfs s p = last (p # filter (\<lambda>q. p_state (proc_at s q) = RUNNABLE \<and> 2 < p_pid (proc_at s q) \<and>
     p_ctime (proc_at s q) < p_ctime (proc_at s p)) [0..<length (procs s)])"
  unfolding pick_fcfs_def fold_fcfs [symmetric]
  by (rule fold_cong) (auto simp: fun_eq_iff)

text \<open>
  (C16) The first-come-first-served policy chooses a runnable process that is not younger
  than the one its scan stands at: that one itself exactly if no other runnable process
  with pid above 2 is older, and otherwise the older one with the highest slot number. That
  is not always the oldest one: the comparison is with the process the scan stands at.
\<close>

theorem fcfs_choice:
  assumes "p < length (procs s)" "p_state (proc_at s p) = RUNNABLE"
  shows "let older = {q. q < length (procs s) \<and> p_state (proc_at s q) = RUNNABLE \<and> 2 < p_pid (proc_at s q) \<and>
                         p_ctime (proc_at s q) < p_ctime (proc_at s p)}
     in pick FCFS s p = (if older = {} then p else Max older)"
proof -
  let ?P = "\<lambda>q. p_state (proc_at s q) = RUNNABLE \<and> 2 < p_pid (proc_at s q) \<and>
              p_ctime (proc_at s q) < p_ctime (proc_at s p)"
  let ?xs = "filter ?P [0..<length (procs s)]"
  have set: "set ?xs = {q. q < length (procs s) \<and> ?P q}" by auto
  have "last ?xs = Max (set ?xs)" if "?xs \<noteq> []"
    using that by (intro last_sorted_Max) (simp_all add: sorted_wrt_filter)
  then show ?thesis unfolding Let_def set [symmetric] by (simp add: pick_fcfs_eq del: set_filter)
qed

lemma three_procs_sel:
  "length (procs three_procs) = 3" "p_ctime (proc_at three_procs 0) = 9"
  "p_ctime (proc_at three_procs (Suc 0)) = 1" "p_ctime (proc_at three_procs 2) = 5"
  by (simp_all add: three_procs_def zero_ptable_def)

lemma less_3: "q < 3 \<Longrightarrow> q = 0 \<or> q = 1 \<or> q = (2 :: nat)"
  by auto

theorem fcfs_choice_witness:
  "p_state (proc_at three_procs 1) = RUNNABLE \<and> pick FCFS three_procs 1 = 1"
proof -
  have "{q. q < length (procs three_procs) \<and> p_state (proc_at three_procs q) = RUNNABLE \<and>
          2 < p_pid (proc_at three_procs q) \<and> p_ctime (proc_at three_procs q) < p_ctime (proc_at three_procs 1)} = {}"
    by (auto simp: three_procs_sel dest!: less_3)
  moreover have "1 < length (procs three_procs)" "p_state (proc_at three_procs 1) = RUNNABLE"
    by (simp_all add: three_procs_def zero_ptable_def)
  ultimately show ?thesis using fcfs_choice [of 1 three_procs] unfolding Let_def by metis
qed

section \<open>The feedback queues: what happens when a process comes back\<close>

lemma wf_mlfq_queue: "wf_mlfq s \<Longrightarrow> k < 5 \<Longrightarrow> wf_queue (length (procs s)) (queues s ! k)"
  by (simp add: wf_mlfq_def)

lemma push_queue:
  assumes "wf_mlfq s" "k < 5" "p < length (procs s)" "length (queued s k) < 64"
  shows "\<exists>q. bnd (getq (int k) s) (q_push p) = Inr q \<and> wf_mlfq (setq k q s) \<and>
     queued (setq k q s) = (queued s)(k := queued s k @ [p])"
  using q_push_law [OF wf_mlfq_queue [OF assms(1,2)] assms(3)] assms
  by (auto simp: getq_ok queued_def [symmetric] queued_setq wf_mlfq_setq fun_eq_iff)

lemma delete_queue:
  assumes "wf_mlfq s" "k < 5" "i < length (queued s k)"
  shows "\<exists>q. bnd (getq (int k) s) (q_delete (int i)) = Inr q \<and> wf_mlfq (setq k q s) \<and>
     queued (setq k q s) = (queued s)(k := take i (queued s k) @ drop (Suc i) (queued s k))"
  using q_delete_law [OF wf_mlfq_queue [OF assms(1,2)], of i] assms
  by (auto simp: getq_ok queued_def [symmetric] queued_setq wf_mlfq_setq fun_eq_iff)

lemma demote_delete:
  assumes "wf_mlfq s" "k < 4" "i < length (queued s k)" "length (p_ticks (proc_at s p)) = 5"
  shows "\<exists>s'. bnd (getq (int k) s) (\<lambda>q. bnd (q_delete (int i) q) (\<lambda>q.
      bnd (aput (p_ticks (proc_at s p)) (int k) 0) (\<lambda>tk.
        Inr (modp p (\<lambda>pr. pr\<lparr>p_ticks := tk\<rparr>) (setq k q s))))) = Inr s' \<and> wf_mlfq s' \<and>
    queued s' = (queued s)(k := take i (queued s k) @ drop (Suc i) (queued s k)) \<and>
    procs s' = (procs s)[p := (proc_at s p)\<lparr>p_ticks := (p_ticks (proc_at s p))[k := 0]\<rparr>]"
proof -
  from delete_queue [of s k i] assms obtain q where
    q: "bnd (getq (int k) s) (q_delete (int i)) = Inr q" "wf_mlfq (setq k q s)"
    "queued (setq k q s) = (queued s)(k := take i (queued s k) @ drop (Suc i) (queued s k))" by auto
  then show ?thesis using assms(2,4)
    by (auto simp: bnd_assoc [symmetric] aput_ok fun_eq_iff)
qed

lemma demote_eq:
  assumes wf: "wf_mlfq s" and k: "k < 4" and p: "p < length (procs s)"
    and i: "i < length (queued s k)" and tk: "length (p_ticks (proc_at s p)) = 5"
    and room: "p_killed (proc_at s p) = 0 \<Longrightarrow> length (queued s (Suc k)) < 64"
  shows "\<exists>s'. demote k (int i) p s = Inr s' \<and> wf_mlfq s' \<and>
    queued s' = (queued s)(k := take i (queued s k) @ drop (Suc i) (queued s k),
                  Suc k := queued s (Suc k) @ (if p_killed (proc_at s p) = 0 then [p] else [])) \<and>
    procs s' = (procs s)[p := (proc_at s p)\<lparr>
      p_current_queue := p_current_queue (proc_at s p) + (if p_killed (proc_at s p) = 0 then 1 else 0),
      p_ticks := (p_ticks (proc_at s p))[k := 0]\<rparr>]"
proof (cases "p_killed (proc_at s p) = 0")
  case False
  with demote_delete [OF wf k i tk] show ?thesis
    by (auto simp: demote_def fun_eq_iff)
next
  case True
  from push_queue [of s "Suc k" p] wf k p room [OF True] obtain q where
    q: "bnd (getq (int (Suc k)) s) (q_push p) = Inr q" "wf_mlfq (setq (Suc k) q s)"
    "queued (setq (Suc k) q s) = (queued s)(Suc k := queued s (Suc k) @ [p])" by auto
  let ?s = "modp p (\<lambda>pr. pr\<lparr>p_current_queue := p_current_queue pr + 1\<rparr>) (setq (Suc k) q s)"
  have qd: "queued ?s = (queued s)(Suc k := queued s (Suc k) @ [p])" using q(3) by (simp add: fun_eq_iff)
  have "wf_mlfq ?s" using q(2) by simp
  moreover have "i < length (queued ?s k)" using i qd by simp
  moreover have "length (p_ticks (proc_at ?s p)) = 5" using tk p by simp
  ultimately obtain s' where s': "bnd (getq (int k) ?s) (\<lambda>q. bnd (q_delete (int i) q) (\<lambda>q.
      bnd (aput (p_ticks (proc_at ?s p)) (int k) 0) (\<lambda>tk.
        Inr (modp p (\<lambda>pr. pr\<lparr>p_ticks := tk\<rparr>) (setq k q ?s))))) = Inr s'" "wf_mlfq s'"
    "queued s' = (queued ?s)(k := take i (queued ?s k) @ drop (Suc i) (queued ?s k))"
    "procs s' = (procs ?s)[p := (proc_at ?s p)\<lparr>p_ticks := (p_ticks (proc_at ?s p))[k := 0]\<rparr>]"
    using demote_delete [of ?s k i p] k by blast
  have "demote k (int i) p s = Inr s'"
    using True q(1) s'(1) by (simp add: demote_def bnd_assoc [symmetric] add.commute)
  moreover have "queued s' = (queued s)(k := take i (queued s k) @ drop (Suc i) (queued s k),
                  Suc k := queued s (Suc k) @ [p])"
    unfolding s'(3) qd by (simp add: fun_eq_iff)
  ultimately show ?thesis using True s'(2,4) p by (intro exI [of _ s']) simp
qed

lemma q_slot_update_eq: "q\<lparr>q_slot := x\<rparr> = \<lparr>q_slot = x, q_cnt = q_cnt q\<rparr>"
  by simp

text \<open>Shifting without \<open>c--\<close> and storing into the last entry is deleting and appending.\<close>

lemma q_shift_store:
  assumes wf: "wf_queue n q" and i: "i < length (live q)"
  shows "\<exists>q1. q_shift (int i) q = Inr q1 \<and> q_cnt q1 = q_cnt q \<and>
     q_slot q1 ! nat (q_cnt q) = Some (last (live q)) \<and>
     (\<forall>p<n. \<exists>slot. aput (q_slot q1) (q_cnt q) (Some p) = Inr slot \<and> wf_queue n (q1\<lparr>q_slot := slot\<rparr>) \<and>
        live (q1\<lparr>q_slot := slot\<rparr>) = take i (live q) @ drop (Suc i) (live q) @ [p])"
proof -
  define c where "c = nat (q_cnt q)"
  from wf i have c: "q_cnt q = int c" "c < 64" "i \<le> c" "length (q_slot q) = 64"
    by (auto simp: wf_queue_def c_def)
  from q_delete_law [OF wf i] obtain q1 where
    q1: "q_shift (int i) q = Inr q1" "wf_queue n (q1\<lparr>q_cnt := q_cnt q1 - 1\<rparr>)"
    "live (q1\<lparr>q_cnt := q_cnt q1 - 1\<rparr>) = take i (live q) @ drop (Suc i) (live q)"
    by (auto simp: q_delete_def bnd_Inr_iff)
  have slot: "q1 = q\<lparr>q_slot := take i (q_slot q) @ take (c - i) (drop (Suc i) (q_slot q)) @ drop c (q_slot q)\<rparr>"
    using q1(1) c by (simp add: q_shift_def shift_loop_eq)
  have "live q \<noteq> []" using i by auto
  then have "last (live q) = live q ! c" using wf c by (simp add: last_conv_nth nat_add_distrib)
  moreover have "q_slot q ! c = Some (live q ! c)"
    using slot_live [OF wf, of c] wf c by (simp add: nat_add_distrib)
  ultimately have lst: "q_slot q1 ! c = Some (last (live q))"
    using c by (simp add: slot nth_append)
  have "\<exists>sl. aput (q_slot q1) (q_cnt q) (Some p) = Inr sl \<and> wf_queue n (q1\<lparr>q_slot := sl\<rparr>) \<and>
        live (q1\<lparr>q_slot := sl\<rparr>) = take i (live q) @ drop (Suc i) (live q) @ [p]" if "p < n" for p
  proof -
    have cnt1: "q_cnt q1 = q_cnt q" by (simp add: slot)
    have "length (live (q1\<lparr>q_cnt := q_cnt q1 - 1\<rparr>)) < 64" unfolding q1(3) using wf i c by simp
    from q_push_law [OF q1(2) that this] q1(3) show ?thesis
      by (auto simp: q_push_def bnd_Inr_iff cnt1 q_slot_update_eq)
  qed
  with q1(1) lst slot show ?thesis by (auto simp: c)
qed

lemma rotate4_eq:
  assumes wf: "wf_mlfq s" and p: "p < length (procs s)" and i: "i < length (queued s 4)"
  shows "\<exists>s'. rotate4 (int i) p s = Inr s' \<and> wf_mlfq s' \<and> procs s' = procs s \<and>
     queued s' = (queued s)(4 := take i (queued s 4) @ drop (Suc i) (queued s 4) @
                    [if p_killed (proc_at s p) = 0 then p else last (queued s 4)])"
proof -
  let ?q = "queues s ! 4" and ?n = "length (procs s)"
  have g: "getq 4 s = Inr ?q" using getq_ok [OF wf, of 4] by simp
  have wq: "wf_queue ?n ?q" using wf_mlfq_queue [OF wf, of 4] by simp
  from q_shift_store [OF wq, of i] i obtain q1 where q1: "q_shift (int i) ?q = Inr q1" "q_cnt q1 = q_cnt ?q"
    "q_slot q1 ! nat (q_cnt ?q) = Some (last (queued s 4))"
    "\<And>p. p < ?n \<Longrightarrow> \<exists>slot. aput (q_slot q1) (q_cnt ?q) (Some p) = Inr slot \<and> wf_queue ?n (q1\<lparr>q_slot := slot\<rparr>) \<and>
        live (q1\<lparr>q_slot := slot\<rparr>) = take i (queued s 4) @ drop (Suc i) (queued s 4) @ [p]"
    by (auto simp: queued_def)
  let ?x = "if p_killed (proc_at s p) = 0 then p else last (queued s 4)"
  have "last (queued s 4) \<in> set (queued s 4)" using i by (intro last_in_set) auto
  then have "?x < ?n" using p queued_lt [OF wf, of 4] by simp
  from q1(4) [OF this] obtain slot where slot: "aput (q_slot q1) (q_cnt ?q) (Some ?x) = Inr slot"
    "wf_queue ?n (q1\<lparr>q_slot := slot\<rparr>)"
    "live (q1\<lparr>q_slot := slot\<rparr>) = take i (queued s 4) @ drop (Suc i) (queued s 4) @ [?x]" by blast
  have "q1\<lparr>q_slot := slot\<rparr> = q1" if "p_killed (proc_at s p) \<noteq> 0"
    using slot(1) q1(3) that by (cases q1) (auto simp: aput_Inr_iff, metis list_update_id)
  then have "rotate4 (int i) p s = Inr (setq 4 (q1\<lparr>q_slot := slot\<rparr>) s)"
    using g q1(1,2) slot(1) by (auto simp: rotate4_def)
  then show ?thesis using slot(2,3) wf
    by (auto simp: wf_mlfq_setq queued_setq fun_eq_iff)
qed

lemma after_run_upper:
  assumes "wf_mlfq s" "k < 4" "i < length (queued s k)" "p < length (procs s)"
    and "length (p_ticks (proc_at s p)) = 5"
    and "p_killed (proc_at s p) = 0 \<Longrightarrow> length (queued s (Suc k)) < 64"
  shows "let used = p_ticks (proc_at s p) ! k \<ge> clockperiod ! k; killed = p_killed (proc_at s p) \<noteq> 0;
             over = (if k = 0 then used \<and> p_pid (proc_at s p) > 3 else used \<or> killed)
    in \<exists>s'. after_run k (int i) p s = Inr s' \<and> wf_mlfq s' \<and> (\<not> over \<longrightarrow> s' = s) \<and>
    (over \<longrightarrow> queued s' = (queued s)(k := take i (queued s k) @ drop (Suc i) (queued s k),
                             Suc k := queued s (Suc k) @ (if killed then [] else [p])) \<and>
      procs s' = (procs s)[p := (proc_at s p)\<lparr>
        p_current_queue := p_current_queue (proc_at s p) + (if killed then 0 else 1),
        p_ticks := (p_ticks (proc_at s p))[k := 0]\<rparr>])"
proof -
  let ?over = "if k = 0 then p_ticks (proc_at s p) ! k \<ge> clockperiod ! k \<and> p_pid (proc_at s p) > 3
     else p_ticks (proc_at s p) ! k \<ge> clockperiod ! k \<or> p_killed (proc_at s p) \<noteq> 0"
  have "slice_over k (proc_at s p) = Inr ?over"
    using assms(2,5) by (auto simp: slice_over_def aget_ok clockperiod_def)
  then have "after_run k (int i) p s = (if ?over then demote k (int i) p s else Inr s)"
    using assms(2) by (simp add: after_run_def)
  with demote_eq [OF assms(1,2,4,3,5,6)] assms(1) show ?thesis
    unfolding Let_def by (cases ?over) auto
qed

text \<open>
  (C17) What becomes of a process of one of the queues 0 to 3 when it gives the CPU back at
  position \<open>i\<close> of its queue. Its slice is over when its tick count for that queue has reached
  the queue's clock period; in queue 0 only for pids above 3, and in the queues 1 to 3 also when it
  was killed. When it is not over, nothing changes. When it is, the process leaves its queue
  and its tick count for it restarts at zero; unless it was killed it also goes to the end of
  the next lower queue and its \<open>current_queue\<close> goes up by one. The order of the other entries and
  the other queues stay. The lower queue must have room, when the process is not killed:
  the code does not look.
\<close>

theorem slice_end_moves:
  assumes "wf_mlfq s" "k < 4" "i < length (queued s k)" "queued s k ! i = p"
    and "length (p_ticks (proc_at s p)) = 5"
    and "p_killed (proc_at s p) = 0 \<Longrightarrow> length (queued s (Suc k)) < 64"
  shows "let used = p_ticks (proc_at s p) ! k \<ge> clockperiod ! k; killed = p_killed (proc_at s p) \<noteq> 0;
             over = (if k = 0 then used \<and> p_pid (proc_at s p) > 3 else used \<or> killed)
    in \<exists>s'. after_run k (int i) p s = Inr s' \<and> wf_mlfq s' \<and> (\<not> over \<longrightarrow> s' = s) \<and>
    (over \<longrightarrow> queued s' = (queued s)(k := take i (queued s k) @ drop (Suc i) (queued s k),
                             Suc k := queued s (Suc k) @ (if killed then [] else [p])) \<and>
      procs s' = (procs s)[p := (proc_at s p)\<lparr>
        p_current_queue := p_current_queue (proc_at s p) + (if killed then 0 else 1),
        p_ticks := (p_ticks (proc_at s p))[k := 0]\<rparr>])"
proof -
  have "p \<in> set (queued s k)" using assms(3,4) nth_mem by blast
  then have "p < length (procs s)" using queued_lt [OF assms(1), of k] assms(2) by simp
  from after_run_upper [OF assms(1-3) this assms(5,6)] show ?thesis .
qed

definition mlfq_example :: ptable_st where
  "mlfq_example = (zero_ptable
     [zero_proc\<lparr>p_state := RUNNABLE, p_pid := 4, p_ticks := [0, 2, 0, 0, 0], p_current_queue := 1\<rparr>,
      zero_proc\<lparr>p_state := RUNNABLE, p_pid := 5, p_current_queue := 1\<rparr>])
     \<lparr>queues := [queue_init, \<lparr>q_slot = [Some 0, Some 1] @ replicate 62 None, q_cnt = 1\<rparr>,
                 queue_init, queue_init, \<lparr>q_slot = [Some 0, Some 1] @ replicate 62 None, q_cnt = 1\<rparr>]\<rparr>"

lemma mlfq_example_wf: "wf_mlfq mlfq_example"
  by (simp add: wf_mlfq_def wf_queue_def mlfq_example_def zero_ptable_def queue_init_def
      less_Suc_eq numeral_eq_Suc)

lemma mlfq_example_sel:
  "queued mlfq_example 1 = [0, 1]" "queued mlfq_example (Suc 1) = []" "queued mlfq_example 4 = [0, 1]"
  "p_ticks (proc_at mlfq_example 0) = [0, 2, 0, 0, 0]" "p_pid (proc_at mlfq_example 0) = 4"
  "p_killed (proc_at mlfq_example 0) = 0"
  by (simp_all add: zero_ptable_def zero_proc_def queued_def live_def mlfq_example_def queue_init_def numeral_eq_Suc)

theorem slice_end_moves_witness:
  "\<exists>s'. after_run 1 0 0 mlfq_example = Inr s' \<and> queued s' 1 = [1] \<and> queued s' 2 = [0]"
proof -
  have "queued mlfq_example 1 ! 0 = 0" "length (p_ticks (proc_at mlfq_example 0)) = 5"
    "length (queued mlfq_example (Suc 1)) < 64" "0 < length (queued mlfq_example 1)"
    by (simp_all only: mlfq_example_sel) simp_all
  from slice_end_moves [OF mlfq_example_wf _ this(4,1,2,3)]
  have "\<exists>s'. after_run 1 0 0 mlfq_example = Inr s' \<and> queued s' = (queued mlfq_example)
      (1 := take 0 (queued mlfq_example 1) @ drop (Suc 0) (queued mlfq_example 1),
       Suc 1 := queued mlfq_example (Suc 1) @ [0])"
    unfolding Let_def mlfq_example_sel by (auto simp: clockperiod_def)
  then obtain s' where s': "after_run 1 0 0 mlfq_example = Inr s'" and
    q: "queued s' = (queued mlfq_example)(1 := take 0 (queued mlfq_example 1) @ drop (Suc 0) (queued mlfq_example 1),
                  Suc 1 := queued mlfq_example (Suc 1) @ [0])" by blast
  have "queued s' 1 = [1]" unfolding q mlfq_example_sel by simp
  moreover have "queued s' 2 = [0]" unfolding q mlfq_example_sel by simp
  ultimately show ?thesis using s' by blast
qed

text \<open>
  (C18) The lowest queue is served round robin: a process that comes back and was not killed
  goes to its end. For a killed process the entries behind it move up but the counter does
  not go down, so the last entry of the queue is there twice.
\<close>

theorem lowest_queue_rotates:
  assumes "wf_mlfq s" "i < length (queued s 4)" "queued s 4 ! i = p"
  shows "\<exists>s'. after_run 4 (int i) p s = Inr s' \<and> wf_mlfq s' \<and> procs s' = procs s \<and>
     queued s' = (queued s)(4 := take i (queued s 4) @ drop (Suc i) (queued s 4) @
                    [if p_killed (proc_at s p) = 0 then p else last (queued s 4)])"
proof -
  have "p \<in> set (queued s 4)" using assms(2,3) nth_mem by blast
  then have "p < length (procs s)" using queued_lt [OF assms(1), of 4] by simp
  from rotate4_eq [OF assms(1) this assms(2)] show ?thesis by (simp add: after_run_def)
qed

theorem lowest_queue_rotates_witness:
  "\<exists>s'. after_run 4 0 0 mlfq_example = Inr s' \<and> queued s' 4 = [1, 0]"
  using lowest_queue_rotates [of mlfq_example 0 0]
  by (auto simp: mlfq_example_wf mlfq_example_sel)

section \<open>A whole round of the feedback scheduler\<close>

























end
