(* ===== verification/Spinlock.thy ===== *)
theory Spinlock
  imports Prelude
begin

text \<open>
  The spin locks of \<open>spinlock.c\<close> on several CPUs: \<open>pushcli\<close>, \<open>popcli\<close>, \<open>holding\<close>,
  \<open>acquire\<close> and \<open>release\<close>, cut into steps at the memory accesses that other CPUs can see,
  and interleaved by a step relation. The invariant gives mutual exclusion and the
  discipline of disabled interrupts that lets every other theory treat a critical section
  as one step. A \<open>struct cpu *\<close> is the number of the CPU; \<open>name\<close> and \<open>pcs\<close>, which are kept
  for debugging only, are left out.
\<close>

section \<open>Locks and CPUs\<close>

record spinlock =
  lk_locked :: u32
  lk_cpu :: "nat option"

definition initlock :: spinlock where
  "initlock = \<lparr>lk_locked = 0, lk_cpu = None\<rparr>"

text \<open>Where a CPU is in \<open>acquire\<close> or \<open>release\<close>.\<close>

datatype pc =
    Idle               \<comment> \<open>in neither\<close>
  | Spinning nat       \<comment> \<open>in the loop around \<open>xchg\<close>\<close>
  | Got nat            \<comment> \<open>\<open>xchg\<close> returned 0, \<open>lk->cpu\<close> not yet set\<close>
  | Clearing nat       \<comment> \<open>\<open>lk->cpu\<close> cleared, \<open>lk->locked\<close> not yet\<close>
  | Stopped string     \<comment> \<open>in \<open>panic\<close>\<close>

record core =
  c_ncli :: int
  c_intena :: bool
  c_if :: bool          \<comment> \<open>\<open>FL_IF\<close> of the flags register\<close>
  c_pc :: pc

definition pushcli :: "core \<Rightarrow> core" where
  "pushcli c = (let eflags = c_if c; c = c\<lparr>c_if := False\<rparr> in
     (if c_ncli c = 0 then c\<lparr>c_intena := eflags\<rparr> else c)\<lparr>c_ncli := c_ncli c + 1\<rparr>)"

definition popcli :: "core \<Rightarrow> core res" where
  "popcli c =
     (if c_if c then Inl (Panic ''popcli - interruptible'')
      else let c = c\<lparr>c_ncli := c_ncli c - 1\<rparr> in
        if c_ncli c < 0 then Inl (Panic ''popcli'')
        else Inr (if c_ncli c = 0 \<and> c_intena c then c\<lparr>c_if := True\<rparr> else c))"

definition holding :: "nat \<Rightarrow> spinlock \<Rightarrow> core \<Rightarrow> (bool \<times> core) res" where
  "holding me lk c =
     (let c = pushcli c; r = (lk_locked lk \<noteq> 0 \<and> lk_cpu lk = Some me) in
      bnd (popcli c) (\<lambda>c. Inr (r, c)))"

text \<open>The parts of \<open>acquire\<close> and \<open>release\<close> between two accesses to the lock.\<close>

definition panic_core :: "core res \<Rightarrow> core \<Rightarrow> core" where
  "panic_core r c = (case r of Inr c' \<Rightarrow> c' | Inl (Panic m) \<Rightarrow> c\<lparr>c_pc := Stopped m\<rparr> | Inl _ \<Rightarrow> c)"

definition acquire_enter :: "nat \<Rightarrow> nat \<Rightarrow> spinlock \<Rightarrow> core \<Rightarrow> core" where
  "acquire_enter me l lk c =
     (let c = pushcli c in
      panic_core (bnd (holding me lk c) (\<lambda>(r, c).
        if r then Inl (Panic ''acquire'') else Inr (c\<lparr>c_pc := Spinning l\<rparr>))) c)"

definition acquire_xchg :: "nat \<Rightarrow> spinlock \<Rightarrow> core \<Rightarrow> spinlock \<times> core" where
  "acquire_xchg l lk c =
     (lk\<lparr>lk_locked := 1\<rparr>, if lk_locked lk \<noteq> 0 then c else c\<lparr>c_pc := Got l\<rparr>)"

definition acquire_leave :: "nat \<Rightarrow> spinlock \<Rightarrow> core \<Rightarrow> spinlock \<times> core" where
  "acquire_leave me lk c = (lk\<lparr>lk_cpu := Some me\<rparr>, c\<lparr>c_pc := Idle\<rparr>)"

definition release_enter :: "nat \<Rightarrow> nat \<Rightarrow> spinlock \<Rightarrow> core \<Rightarrow> spinlock \<times> core" where
  "release_enter me l lk c =
     (case holding me lk c of
        Inl e \<Rightarrow> (lk, panic_core (Inl e) c)
      | Inr (r, c) \<Rightarrow>
          if \<not> r then (lk, c\<lparr>c_pc := Stopped ''release''\<rparr>)
          else (lk\<lparr>lk_cpu := None\<rparr>, c\<lparr>c_pc := Clearing l\<rparr>))"

definition release_leave :: "spinlock \<Rightarrow> core \<Rightarrow> spinlock \<times> core" where
  "release_leave lk c =
     (lk\<lparr>lk_locked := 0\<rparr>, panic_core (bnd (popcli c) (\<lambda>c. Inr (c\<lparr>c_pc := Idle\<rparr>))) c)"

section \<open>Interleaving\<close>

record smp =
  cores :: "core list"
  locks :: "spinlock list"

definition upd :: "nat \<Rightarrow> nat \<Rightarrow> spinlock \<times> core \<Rightarrow> smp \<Rightarrow> smp" where
  "upd i l lc m = m\<lparr>cores := (cores m)[i := snd lc], locks := (locks m)[l := fst lc]\<rparr>"

text \<open>
  One step of CPU \<open>i\<close>: it enters \<open>acquire\<close> or \<open>release\<close> for a lock of its choice, takes
  the next step of the one it is in, or, outside of both and with no \<open>pushcli\<close> pending,
  turns interrupts on or off.
\<close>

inductive smp_step :: "smp \<Rightarrow> smp \<Rightarrow> bool" where
  enter: "i < length (cores m) \<Longrightarrow> l < length (locks m) \<Longrightarrow> c_pc (cores m ! i) = Idle \<Longrightarrow>
     smp_step m (upd i l (locks m ! l, acquire_enter i l (locks m ! l) (cores m ! i)) m)"
| xchg: "i < length (cores m) \<Longrightarrow> l < length (locks m) \<Longrightarrow> c_pc (cores m ! i) = Spinning l \<Longrightarrow>
     smp_step m (upd i l (acquire_xchg l (locks m ! l) (cores m ! i)) m)"
| leave: "i < length (cores m) \<Longrightarrow> l < length (locks m) \<Longrightarrow> c_pc (cores m ! i) = Got l \<Longrightarrow>
     smp_step m (upd i l (acquire_leave i (locks m ! l) (cores m ! i)) m)"
| give: "i < length (cores m) \<Longrightarrow> l < length (locks m) \<Longrightarrow> c_pc (cores m ! i) = Idle \<Longrightarrow>
     smp_step m (upd i l (release_enter i l (locks m ! l) (cores m ! i)) m)"
| clear: "i < length (cores m) \<Longrightarrow> l < length (locks m) \<Longrightarrow> c_pc (cores m ! i) = Clearing l \<Longrightarrow>
     smp_step m (upd i l (release_leave (locks m ! l) (cores m ! i)) m)"
| flags: "i < length (cores m) \<Longrightarrow> c_pc (cores m ! i) = Idle \<Longrightarrow> c_ncli (cores m ! i) = 0 \<Longrightarrow>
     smp_step m (m\<lparr>cores := (cores m)[i := (cores m ! i)\<lparr>c_if := b\<rparr>]\<rparr>)"

definition smp_init :: "nat \<Rightarrow> nat \<Rightarrow> smp" where
  "smp_init ncpu nlock =
     \<lparr>cores = replicate ncpu \<lparr>c_ncli = 0, c_intena = False, c_if = False, c_pc = Idle\<rparr>,
      locks = replicate nlock initlock\<rparr>"

inductive reachable :: "nat \<Rightarrow> nat \<Rightarrow> smp \<Rightarrow> bool" for ncpu nlock where
  start: "reachable ncpu nlock (smp_init ncpu nlock)"
| step: "reachable ncpu nlock m \<Longrightarrow> smp_step m m' \<Longrightarrow> reachable ncpu nlock m'"

section \<open>The invariant\<close>

text \<open>CPU \<open>i\<close> has lock \<open>l\<close>: from the successful \<open>xchg\<close> to the store that frees it.\<close>

definition owns :: "smp \<Rightarrow> nat \<Rightarrow> nat \<Rightarrow> bool" where
  "owns m i l \<longleftrightarrow> i < length (cores m) \<and> l < length (locks m) \<and>
     (c_pc (cores m ! i) = Got l \<or> c_pc (cores m ! i) = Clearing l \<or> lk_cpu (locks m ! l) = Some i)"

definition stopped :: "core \<Rightarrow> bool" where
  "stopped c \<longleftrightarrow> (\<exists>msg. c_pc c = Stopped msg)"

definition spins :: "core \<Rightarrow> bool" where
  "spins c \<longleftrightarrow> (\<exists>l. c_pc c = Spinning l)"

definition core_ok :: "smp \<Rightarrow> nat \<Rightarrow> core \<Rightarrow> bool" where
  "core_ok m i c \<longleftrightarrow>
     (0 < c_ncli c \<longrightarrow> \<not> c_if c) \<and> 0 \<le> c_ncli c \<and>
     (stopped c \<longrightarrow> c_pc c = Stopped ''acquire'' \<or> c_pc c = Stopped ''release'') \<and>
     (\<not> stopped c \<longrightarrow> c_ncli c = int (card {l. owns m i l}) + (if spins c then 1 else 0)) \<and>
     (\<forall>l. c_pc c = Clearing l \<longrightarrow> lk_cpu (locks m ! l) \<noteq> Some i)"

definition smp_inv :: "smp \<Rightarrow> bool" where
  "smp_inv m \<longleftrightarrow>
     (\<forall>l < length (locks m). lk_locked (locks m ! l) = 0 \<longrightarrow> (\<forall>i. \<not> owns m i l)) \<and>
     (\<forall>i j l. owns m i l \<longrightarrow> owns m j l \<longrightarrow> i = j) \<and>
     (\<forall>i < length (cores m). core_ok m i (cores m ! i))"

lemma upd_sel [simp]:
  "length (cores (upd i l lc m)) = length (cores m)"
  "length (locks (upd i l lc m)) = length (locks m)"
  "j < length (cores m) \<Longrightarrow> cores (upd i l lc m) ! j = (if j = i then snd lc else cores m ! j)"
  "k < length (locks m) \<Longrightarrow> locks (upd i l lc m) ! k = (if k = l then fst lc else locks m ! k)"
  by (simp_all add: upd_def nth_list_update)

lemma owns_upd:
  "owns (upd i l (lk, c) m) j k \<longleftrightarrow> j < length (cores m) \<and> k < length (locks m) \<and>
     (let c' = if j = i then c else cores m ! j; lk' = if k = l then lk else locks m ! k in
      c_pc c' = Got k \<or> c_pc c' = Clearing k \<or> lk_cpu lk' = Some j)"
  by (auto simp: owns_def Let_def)

lemma finite_owns [simp]: "finite {l. owns m i l}"
  by (rule finite_subset [of _ "{..<length (locks m)}"]) (auto simp: owns_def)

lemma pushcli_sel [simp]:
  "c_ncli (pushcli c) = c_ncli c + 1" "c_if (pushcli c) = False" "c_pc (pushcli c) = c_pc c"
  by (simp_all add: pushcli_def Let_def)

lemma holding_eq:
  assumes "0 \<le> c_ncli c" "0 < c_ncli c \<longrightarrow> \<not> c_if c"
  shows "holding me lk c = Inr (lk_locked lk \<noteq> 0 \<and> lk_cpu lk = Some me,
           c\<lparr>c_intena := if c_ncli c = 0 then c_if c else c_intena c\<rparr>)"
  using assms by (cases c) (auto simp: holding_def pushcli_def popcli_def Let_def)

text \<open>A step that changes no ownership keeps the invariant if it keeps the CPU that takes it well.\<close>

lemma smp_inv_same:
  assumes inv: "smp_inv m" and i: "i < length (cores m)" and l: "l < length (locks m)"
    and own: "owns (upd i l (lk, c) m) = owns m"
    and lock: "lk_locked lk = 0 \<Longrightarrow> lk_locked (locks m ! l) = 0"
    and cpu: "lk_cpu lk = lk_cpu (locks m ! l) \<or> lk_cpu lk = None \<or> lk_cpu lk = Some i"
    and ok: "core_ok (upd i l (lk, c) m) i c"
  shows "smp_inv (upd i l (lk, c) m)"
proof -
  have "core_ok (upd i l (lk, c) m) j (cores m ! j)" if "j < length (cores m)" "j \<noteq> i" for j
  proof -
    have j: "core_ok m j (cores m ! j)" using inv that by (simp add: smp_inv_def)
    have "lk_cpu (locks (upd i l (lk, c) m) ! k) \<noteq> Some j" if "lk_cpu (locks m ! k) \<noteq> Some j" for k
      using cpu \<open>j \<noteq> i\<close> that l by (cases "k = l") (auto simp: upd_def)
    with j show ?thesis unfolding core_ok_def own by blast
  qed
  with ok i have "\<forall>j < length (cores m). core_ok (upd i l (lk, c) m) j (cores (upd i l (lk, c) m) ! j)" by simp
  moreover have "\<forall>k < length (locks m). lk_locked (locks (upd i l (lk, c) m) ! k) = 0 \<longrightarrow>
      (\<forall>j. \<not> owns (upd i l (lk, c) m) j k)"
    using inv lock l unfolding smp_inv_def own by (metis fst_conv upd_sel(4))
  moreover have "\<forall>j j' k. owns (upd i l (lk, c) m) j k \<longrightarrow> owns (upd i l (lk, c) m) j' k \<longrightarrow> j = j'"
    using inv unfolding smp_inv_def own by blast
  ultimately show ?thesis unfolding smp_inv_def upd_sel(1,2) by blast
qed

lemma smp_inv_owner:
  assumes "smp_inv m" "owns m i l" "owns m j l"
  shows "i = j"
  using assms unfolding smp_inv_def by blast

lemma smp_inv_free:
  assumes "smp_inv m" "l < length (locks m)" "lk_locked (locks m ! l) = 0"
  shows "\<not> owns m i l"
  using assms unfolding smp_inv_def by blast

lemma smp_inv_core:
  assumes "smp_inv m" "i < length (cores m)"
  shows "core_ok m i (cores m ! i)"
  using assms unfolding smp_inv_def by blast

lemma enter_inv:
  assumes inv: "smp_inv m" and i: "i < length (cores m)" and l: "l < length (locks m)"
    and idle: "c_pc (cores m ! i) = Idle"
  shows "smp_inv (upd i l (locks m ! l, acquire_enter i l (locks m ! l) (cores m ! i)) m)"
proof -
  let ?lk = "locks m ! l" and ?c = "cores m ! i"
  have ok: "core_ok m i ?c" using smp_inv_core [OF inv i] .
  then have n: "0 \<le> c_ncli ?c" by (simp add: core_ok_def)
  have eq: "acquire_enter i l ?lk ?c =
      (pushcli ?c)\<lparr>c_pc := if lk_locked ?lk \<noteq> 0 \<and> lk_cpu ?lk = Some i then Stopped ''acquire'' else Spinning l\<rparr>"
    using n by (auto simp: acquire_enter_def Let_def holding_eq panic_core_def)
  let ?c' = "acquire_enter i l ?lk ?c"
  have own: "owns (upd i l (?lk, ?c') m) = owns m"
    using idle i l by (auto simp: fun_eq_iff owns_def eq split: if_splits)
  have "core_ok (upd i l (?lk, ?c') m) i ?c'"
    using ok idle unfolding core_ok_def own by (auto simp: eq stopped_def spins_def)
  with inv i l own show ?thesis by (intro smp_inv_same) auto
qed

lemma give_inv:
  assumes inv: "smp_inv m" and i: "i < length (cores m)" and l: "l < length (locks m)"
    and idle: "c_pc (cores m ! i) = Idle"
  shows "smp_inv (upd i l (release_enter i l (locks m ! l) (cores m ! i)) m)"
proof -
  let ?lk = "locks m ! l" and ?c = "cores m ! i"
  let ?c1 = "?c\<lparr>c_intena := if c_ncli ?c = 0 then c_if ?c else c_intena ?c\<rparr>"
  have ok: "core_ok m i ?c" using smp_inv_core [OF inv i] .
  show ?thesis
  proof (cases "lk_locked ?lk \<noteq> 0 \<and> lk_cpu ?lk = Some i")
    case True
    let ?lk' = "?lk\<lparr>lk_cpu := None\<rparr>" and ?c' = "?c1\<lparr>c_pc := Clearing l\<rparr>"
    have eq: "release_enter i l ?lk ?c = (?lk', ?c')"
      using ok True by (simp add: release_enter_def holding_eq core_ok_def)
    have own: "owns (upd i l (?lk', ?c') m) = owns m"
      using idle i l True by (auto simp: fun_eq_iff owns_def split: if_splits)
    have "core_ok (upd i l (?lk', ?c') m) i ?c'"
      using ok idle l unfolding core_ok_def own by (auto simp: stopped_def spins_def)
    with inv i l own show ?thesis unfolding eq by (intro smp_inv_same) auto
  next
    case False
    let ?c' = "?c1\<lparr>c_pc := Stopped ''release''\<rparr>"
    have eq: "release_enter i l ?lk ?c = (?lk, ?c')"
      using ok False by (auto simp: release_enter_def holding_eq core_ok_def)
    have own: "owns (upd i l (?lk, ?c') m) = owns m"
      using idle i l by (auto simp: fun_eq_iff owns_def split: if_splits)
    have "core_ok (upd i l (?lk, ?c') m) i ?c'"
      using ok idle unfolding core_ok_def own by (auto simp: stopped_def spins_def)
    with inv i l own show ?thesis unfolding eq by (intro smp_inv_same) auto
  qed
qed

lemma leave_inv:
  assumes inv: "smp_inv m" and i: "i < length (cores m)" and l: "l < length (locks m)"
    and got: "c_pc (cores m ! i) = Got l"
  shows "smp_inv (upd i l (acquire_leave i (locks m ! l) (cores m ! i)) m)"
proof -
  let ?lk = "(locks m ! l)\<lparr>lk_cpu := Some i\<rparr>" and ?c = "(cores m ! i)\<lparr>c_pc := Idle\<rparr>"
  have ok: "core_ok m i (cores m ! i)" using smp_inv_core [OF inv i] .
  have il: "owns m i l" using got i l by (simp add: owns_def)
  have uniq: "j = i" if "lk_cpu (locks m ! l) = Some j" "j < length (cores m)" for j
    using smp_inv_owner [OF inv _ il, of j] that l by (simp add: owns_def)
  have own: "owns (upd i l (?lk, ?c) m) = owns m"
    using got i l by (auto simp: fun_eq_iff owns_def split: if_splits dest: uniq)
  have "core_ok (upd i l (?lk, ?c) m) i ?c"
    using ok got unfolding core_ok_def own by (auto simp: stopped_def spins_def)
  with inv i l own show ?thesis unfolding acquire_leave_def by (intro smp_inv_same) auto
qed

text \<open>The two steps that change who owns a lock.\<close>

lemma xchg_inv:
  assumes inv: "smp_inv m" and i: "i < length (cores m)" and l: "l < length (locks m)"
    and sp: "c_pc (cores m ! i) = Spinning l"
  shows "smp_inv (upd i l (acquire_xchg l (locks m ! l) (cores m ! i)) m)"
proof (cases "lk_locked (locks m ! l) = 0")
  case False
  let ?lk = "(locks m ! l)\<lparr>lk_locked := 1\<rparr>" and ?c = "cores m ! i"
  have own: "owns (upd i l (?lk, ?c) m) = owns m"
    using i l by (auto simp: fun_eq_iff owns_def split: if_splits)
  have "core_ok (upd i l (?lk, ?c) m) i ?c"
    using smp_inv_core [OF inv i] sp unfolding core_ok_def own by auto
  with False inv i l own show ?thesis unfolding acquire_xchg_def by (auto intro!: smp_inv_same)
next
  case True
  let ?lk = "(locks m ! l)\<lparr>lk_locked := 1\<rparr>" and ?c = "(cores m ! i)\<lparr>c_pc := Got l\<rparr>"
  let ?m = "upd i l (?lk, ?c) m"
  have free: "\<not> owns m j l" for j using smp_inv_free [OF inv l True] .
  have own: "owns ?m j k \<longleftrightarrow> owns m j k \<or> (j = i \<and> k = l)" for j k
    using i l sp by (auto simp: owns_def split: if_splits)
  have ok: "core_ok m j (cores m ! j)" if "j < length (cores m)" for j using smp_inv_core [OF inv that] .
  have "{k. owns ?m i k} = insert l {k. owns m i k}" unfolding own by auto
  then have "card {k. owns ?m i k} = Suc (card {k. owns m i k})" using free by simp
  then have 1: "core_ok ?m i ?c" using ok [OF i] sp by (auto simp: core_ok_def stopped_def spins_def)
  have lk: "lk_cpu (locks ?m ! k) = lk_cpu (locks m ! k)" for k
    using l by (cases "k = l") (auto simp: upd_def)
  have 2: "core_ok ?m j (cores m ! j)" if "j < length (cores m)" "j \<noteq> i" for j
    using ok [OF that(1)] that(2) unfolding core_ok_def own lk by auto
  have 3: "\<forall>j j' k. owns ?m j k \<longrightarrow> owns ?m j' k \<longrightarrow> j = j'"
    unfolding own using free smp_inv_owner [OF inv] by blast
  have 4: "\<forall>k < length (locks m). lk_locked (locks ?m ! k) = 0 \<longrightarrow> (\<forall>j. \<not> owns ?m j k)"
    using smp_inv_free [OF inv] l by (auto simp: own)
  have "\<forall>j < length (cores m). core_ok ?m j (cores ?m ! j)" using 1 2 i by simp
  with 3 4 have "smp_inv ?m" unfolding smp_inv_def upd_sel(1,2) by blast
  with True show ?thesis by (simp add: acquire_xchg_def)
qed

lemma clear_inv:
  assumes inv: "smp_inv m" and i: "i < length (cores m)" and l: "l < length (locks m)"
    and cl: "c_pc (cores m ! i) = Clearing l"
  shows "smp_inv (upd i l (release_leave (locks m ! l) (cores m ! i)) m)"
proof -
  let ?c0 = "cores m ! i" and ?lk = "(locks m ! l)\<lparr>lk_locked := 0\<rparr>"
  have ok: "core_ok m j (cores m ! j)" if "j < length (cores m)" for j using smp_inv_core [OF inv that] .
  have il: "owns m i l" using cl i l by (simp add: owns_def)
  then have "0 < card {k. owns m i k}" by (auto simp: card_gt_0_iff)
  moreover have n: "c_ncli ?c0 = int (card {k. owns m i k})" "\<not> c_if ?c0 \<or> c_ncli ?c0 \<le> 0"
    using ok [OF i] cl by (auto simp: core_ok_def stopped_def spins_def)
  ultimately have pos: "0 < c_ncli ?c0" "\<not> c_if ?c0" by auto
  define c where "c = ?c0\<lparr>c_ncli := c_ncli ?c0 - 1, c_if := (c_ncli ?c0 = 1 \<and> c_intena ?c0), c_pc := Idle\<rparr>"
  have eq: "release_leave (locks m ! l) ?c0 = (?lk, c)"
    using pos by (cases ?c0) (auto simp: release_leave_def popcli_def panic_core_def c_def Let_def)
  let ?m = "upd i l (?lk, c) m"
  have "lk_cpu (locks m ! l) \<noteq> Some i" using ok [OF i] cl by (simp add: core_ok_def)
  then have own: "owns ?m j k \<longleftrightarrow> owns m j k \<and> \<not> (j = i \<and> k = l)" for j k
    using i l cl by (auto simp: owns_def c_def split: if_splits)
  have "{k. owns ?m i k} = {k. owns m i k} - {l}" unfolding own by auto
  then have "int (card {k. owns ?m i k}) = int (card {k. owns m i k}) - 1"
    using il pos n by (simp add: of_nat_diff)
  then have 1: "core_ok ?m i c" using pos n by (auto simp: core_ok_def stopped_def spins_def c_def)
  have lk: "lk_cpu (locks ?m ! k) = lk_cpu (locks m ! k)" for k
    using l by (cases "k = l") (auto simp: upd_def)
  have 2: "core_ok ?m j (cores m ! j)" if "j < length (cores m)" "j \<noteq> i" for j
    using ok [OF that(1)] that(2) unfolding core_ok_def own lk by auto
  have 3: "\<forall>j j' k. owns ?m j k \<longrightarrow> owns ?m j' k \<longrightarrow> j = j'"
    unfolding own using smp_inv_owner [OF inv] by blast
  have "\<not> owns ?m j l" for j unfolding own using smp_inv_owner [OF inv il] by blast
  then have 4: "\<forall>k < length (locks m). lk_locked (locks ?m ! k) = 0 \<longrightarrow> (\<forall>j. \<not> owns ?m j k)"
    using smp_inv_free [OF inv] by (auto simp: own split: if_splits)
  have "\<forall>j < length (cores m). core_ok ?m j (cores ?m ! j)" using 1 2 i by simp
  with 3 4 have "smp_inv ?m" unfolding smp_inv_def upd_sel(1,2) by blast
  then show ?thesis by (simp add: eq)
qed

lemma flags_inv:
  assumes "smp_inv m" "i < length (cores m)" "c_pc (cores m ! i) = Idle" "c_ncli (cores m ! i) = 0"
  shows "smp_inv (m\<lparr>cores := (cores m)[i := (cores m ! i)\<lparr>c_if := b\<rparr>]\<rparr>)"
proof -
  let ?m = "m\<lparr>cores := (cores m)[i := (cores m ! i)\<lparr>c_if := b\<rparr>]\<rparr>"
  have own: "owns ?m = owns m" using assms by (auto simp: fun_eq_iff owns_def nth_list_update)
  have "core_ok ?m j (cores ?m ! j)" if j: "j < length (cores m)" for j
  proof (cases "j = i")
    case True
    with smp_inv_core [OF assms(1,2)] assms(2,3,4) show ?thesis
      unfolding core_ok_def own by (simp add: stopped_def spins_def)
  next
    case False
    with smp_inv_core [OF assms(1) j] show ?thesis unfolding core_ok_def own by simp
  qed
  moreover have eq: "length (cores ?m) = length (cores m)" "locks ?m = locks m" by simp_all
  ultimately show ?thesis using assms(1) unfolding smp_inv_def own eq by blast
qed

lemma smp_step_inv: "smp_step m m' \<Longrightarrow> smp_inv m \<Longrightarrow> smp_inv m'"
  by (induction rule: smp_step.induct) (simp_all add: enter_inv give_inv leave_inv xchg_inv clear_inv flags_inv)

lemma reachable_inv: "reachable ncpu nlock m \<Longrightarrow> smp_inv m"
proof (induction rule: reachable.induct)
  case start
  have own: "owns (smp_init ncpu nlock) = (\<lambda>_ _. False)"
    by (auto simp: fun_eq_iff owns_def smp_init_def initlock_def)
  show ?case unfolding smp_inv_def core_ok_def own by (auto simp: stopped_def spins_def smp_init_def)
qed (rule smp_step_inv)

section \<open>Properties\<close>

text \<open>
  (C27) Mutual exclusion: in every state that any number of CPUs can reach by interleaved
  calls of \<open>acquire\<close> and \<open>release\<close>, at most one of them has a given lock, counting from
  the \<open>xchg\<close> that took it to the store that frees it.
\<close>

theorem spinlock_mutual_exclusion:
  assumes "reachable ncpu nlock m" "owns m i l" "owns m j l"
  shows "i = j"
  using smp_inv_owner [OF reachable_inv [OF assms(1)] assms(2,3)] .

text \<open>Two CPUs and one lock, which CPU 0 has taken while CPU 1 spins.\<close>

definition held_example :: smp where
  "held_example = \<lparr>cores = [\<lparr>c_ncli = 1, c_intena = False, c_if = False, c_pc = Idle\<rparr>,
                           \<lparr>c_ncli = 1, c_intena = False, c_if = False, c_pc = Spinning 0\<rparr>],
                  locks = [\<lparr>lk_locked = 1, lk_cpu = Some 0\<rparr>]\<rparr>"

lemma held_example_reachable: "reachable 2 1 held_example"
proof -
  let ?idle = "\<lparr>c_ncli = 0, c_intena = False, c_if = False, c_pc = Idle\<rparr>"
  let ?on = "\<lambda>pc. \<lparr>c_ncli = 1, c_intena = False, c_if = False, c_pc = pc\<rparr>"
  let ?st = "\<lambda>a b k. \<lparr>cores = [a, b], locks = [k]\<rparr>"
  have 0: "reachable 2 1 (?st ?idle ?idle initlock)"
    using reachable.start [of 2 1] by (simp add: smp_init_def numeral_2_eq_2)
  have 1: "reachable 2 1 (?st (?on (Spinning 0)) ?idle initlock)"
    using reachable.step [OF 0 smp_step.enter [of 0 _ 0]]
    by (simp add: upd_def acquire_enter_def holding_def pushcli_def popcli_def panic_core_def initlock_def)
  have 2: "reachable 2 1 (?st (?on (Spinning 0)) (?on (Spinning 0)) initlock)"
    using reachable.step [OF 1 smp_step.enter [of 1 _ 0]]
    by (simp add: upd_def acquire_enter_def holding_def pushcli_def popcli_def panic_core_def initlock_def)
  have 3: "reachable 2 1 (?st (?on (Got 0)) (?on (Spinning 0)) \<lparr>lk_locked = 1, lk_cpu = None\<rparr>)"
    using reachable.step [OF 2 smp_step.xchg [of 0 _ 0]]
    by (simp add: upd_def acquire_xchg_def initlock_def)
  show ?thesis
    using reachable.step [OF 3 smp_step.leave [of 0 _ 0]]
    by (simp add: upd_def acquire_leave_def held_example_def)
qed

theorem spinlock_mutual_exclusion_witness: "{j. owns held_example j 0} = {0}"
proof -
  have "owns held_example 0 0" by (simp add: owns_def held_example_def)
  with spinlock_mutual_exclusion [OF held_example_reachable this] show ?thesis by blast
qed

text \<open>
  (C28) A CPU that has a lock runs with interrupts off, \<open>ncli\<close> counts exactly the locks it
  has and the one it is spinning for, and the only panics that can happen are those for
  acquiring a lock the CPU has already and for releasing one it does not have: \<open>popcli\<close>
  never finds its count or the interrupt flag wrong.
\<close>

theorem spinlock_interrupts_off:
  assumes "reachable ncpu nlock m" "i < length (cores m)"
  shows "let c = cores m ! i in
     (if stopped c then c_pc c = Stopped ''acquire'' \<or> c_pc c = Stopped ''release''
      else c_ncli c = int (card {l. owns m i l}) + (if spins c then 1 else 0) \<and>
           ((\<exists>l. owns m i l) \<longrightarrow> \<not> c_if c))"
proof -
  have "core_ok m i (cores m ! i)" using smp_inv_core [OF reachable_inv [OF assms(1)] assms(2)] .
  moreover have "0 < c_ncli (cores m ! i)" if "owns m i l" "\<not> stopped (cores m ! i)" for l
  proof -
    have "0 < card {l. owns m i l}" using that by (auto simp: card_gt_0_iff)
    then show ?thesis using calculation that(2) by (simp add: core_ok_def)
  qed
  ultimately show ?thesis unfolding core_ok_def Let_def by auto
qed

theorem spinlock_interrupts_off_witness:
  "owns held_example 0 0 \<and> \<not> c_if (cores held_example ! 0)"
proof -
  have "owns held_example 0 0" by (simp add: owns_def held_example_def)
  moreover have "\<not> stopped (cores held_example ! 0)" "0 < length (cores held_example)"
    by (simp_all add: stopped_def held_example_def)
  ultimately show ?thesis using spinlock_interrupts_off [OF held_example_reachable, of 0] by (auto simp: Let_def)
qed

end
