(* ===== verification/Cstring.thy ===== *)
theory Cstring
  imports Prelude
begin

text \<open>
  The memory and string functions of \<open>string.c\<close> (kernel) and \<open>ulib.c\<close> (user programs) over
  a byte memory, a function from addresses to bytes. Loops bounded by a count are recursive
  on it; the loops that run until they meet a zero byte are partial functions with
  \<^term>\<open>None\<close> for not ending. The theorems relate memory to lists of bytes.
\<close>

type_synonym bytes = "nat \<Rightarrow> u8"

definition bytes_at :: "bytes \<Rightarrow> nat \<Rightarrow> nat \<Rightarrow> u8 list" where
  "bytes_at m p n = map (\<lambda>i. m (p + i)) [0..<n]"

text \<open>Storing a list of bytes at an offset; a memory that holds a list at 0 and zeros after it.\<close>

definition put_bytes :: "nat \<Rightarrow> u8 list \<Rightarrow> bytes \<Rightarrow> bytes" where
  "put_bytes off xs pg = (\<lambda>i. if off \<le> i \<and> i < off + length xs then xs ! (i - off) else pg i)"

definition mem_of :: "u8 list \<Rightarrow> bytes" where
  "mem_of xs = put_bytes 0 xs (\<lambda>_. 0)"

text \<open>The C string \<open>xs\<close> stands at address \<open>p\<close>.\<close>

definition cstr :: "bytes \<Rightarrow> nat \<Rightarrow> u8 list \<Rightarrow> bool" where
  "cstr m p xs \<longleftrightarrow> bytes_at m p (length xs) = xs \<and> m (p + length xs) = 0 \<and> 0 \<notin> set xs"

section \<open>string.c\<close>

fun stosb :: "nat \<Rightarrow> u8 \<Rightarrow> nat \<Rightarrow> bytes \<Rightarrow> bytes" where
  "stosb d c 0 m = m"
| "stosb d c (Suc n) m = stosb (d + 1) c n (m(d := c))"

definition put32 :: "nat \<Rightarrow> u32 \<Rightarrow> bytes \<Rightarrow> bytes" where
  "put32 d w m = m(d := ucast w, d + 1 := ucast (drop_bit 8 w), d + 2 := ucast (drop_bit 16 w),
                   d + 3 := ucast (drop_bit 24 w))"

definition get32 :: "bytes \<Rightarrow> nat \<Rightarrow> u32" where
  "get32 m d = ucast (m d) OR push_bit 8 (ucast (m (d + 1))) OR push_bit 16 (ucast (m (d + 2))) OR
     push_bit 24 (ucast (m (d + 3)))"

fun stosl :: "nat \<Rightarrow> u32 \<Rightarrow> nat \<Rightarrow> bytes \<Rightarrow> bytes" where
  "stosl d w 0 m = m"
| "stosl d w (Suc n) m = stosl (d + 4) w n (put32 d w m)"

definition kmemset :: "nat \<Rightarrow> int \<Rightarrow> nat \<Rightarrow> bytes \<Rightarrow> bytes" where
  "kmemset dst c n m =
     (if dst mod 4 = 0 \<and> n mod 4 = 0
      then let c = uint_of_int c AND 0xFF in
           stosl dst (push_bit 24 c OR push_bit 16 c OR push_bit 8 c OR c) (n div 4) m
      else stosb dst (ucast (uint_of_int c)) n m)"

fun memcmp :: "bytes \<Rightarrow> nat \<Rightarrow> nat \<Rightarrow> nat \<Rightarrow> int" where
  "memcmp m s1 s2 0 = 0"
| "memcmp m s1 s2 (Suc n) =
     (if m s1 \<noteq> m s2 then uint (m s1) - uint (m s2) else memcmp m (s1 + 1) (s2 + 1) n)"

fun copy_up :: "nat \<Rightarrow> nat \<Rightarrow> nat \<Rightarrow> bytes \<Rightarrow> bytes" where
  "copy_up d s 0 m = m"
| "copy_up d s (Suc n) m = copy_up (d + 1) (s + 1) n (m(d := m s))"

fun copy_down :: "nat \<Rightarrow> nat \<Rightarrow> nat \<Rightarrow> bytes \<Rightarrow> bytes" where
  "copy_down d s 0 m = m"
| "copy_down d s (Suc n) m = copy_down (d - 1) (s - 1) n (m(d - 1 := m (s - 1)))"

definition memmove :: "nat \<Rightarrow> nat \<Rightarrow> nat \<Rightarrow> bytes \<Rightarrow> bytes" where
  "memmove dst src n m =
     (if src < dst \<and> src + n > dst then copy_down (dst + n) (src + n) n m
      else copy_up dst src n m)"

fun strncmp :: "bytes \<Rightarrow> nat \<Rightarrow> nat \<Rightarrow> nat \<Rightarrow> int" where
  "strncmp m p q 0 = 0"
| "strncmp m p q (Suc n) =
     (if m p \<noteq> 0 \<and> m p = m q then strncmp m (p + 1) (q + 1) n else uint (m p) - uint (m q))"

text \<open>\<open>strncpy\<close>: the copying loop, then the loop that fills up with zeros.\<close>

fun strncpy :: "nat \<Rightarrow> nat \<Rightarrow> nat \<Rightarrow> bytes \<Rightarrow> bytes" where
  "strncpy s t 0 m = m"
| "strncpy s t (Suc n) m =
     (let m' = m(s := m t) in if m t \<noteq> 0 then strncpy (s + 1) (t + 1) n m' else stosb (s + 1) 0 n m')"

fun safestrcpy_loop :: "nat \<Rightarrow> nat \<Rightarrow> nat \<Rightarrow> bytes \<Rightarrow> nat \<times> bytes" where
  "safestrcpy_loop s t 0 m = (s, m)"
| "safestrcpy_loop s t (Suc n) m =
     (let m' = m(s := m t) in if m t \<noteq> 0 then safestrcpy_loop (s + 1) (t + 1) n m' else (s + 1, m'))"

definition safestrcpy :: "nat \<Rightarrow> nat \<Rightarrow> int \<Rightarrow> bytes \<Rightarrow> bytes" where
  "safestrcpy s t n m =
     (if n \<le> 0 then m
      else case safestrcpy_loop s t (nat (n - 1)) m of (s, m) \<Rightarrow> m(s := 0))"

partial_function (option) strlen_loop :: "bytes \<Rightarrow> nat \<Rightarrow> nat \<Rightarrow> nat option" where
  "strlen_loop m s n = (if m (s + n) \<noteq> 0 then strlen_loop m s (n + 1) else Some n)"

definition strlen :: "bytes \<Rightarrow> nat \<Rightarrow> nat option" where
  "strlen m s = strlen_loop m s 0"

section \<open>ulib.c\<close>

partial_function (option) strcpy :: "nat \<Rightarrow> nat \<Rightarrow> bytes \<Rightarrow> bytes option" where
  "strcpy s t m =
     (let m' = m(s := m t) in if m t \<noteq> 0 then strcpy (s + 1) (t + 1) m' else Some m')"

partial_function (option) strcmp :: "bytes \<Rightarrow> nat \<Rightarrow> nat \<Rightarrow> int option" where
  "strcmp m p q =
     (if m p \<noteq> 0 \<and> m p = m q then strcmp m (p + 1) (q + 1)
      else Some (uint (m p) - uint (m q)))"

partial_function (option) strchr :: "bytes \<Rightarrow> nat \<Rightarrow> u8 \<Rightarrow> nat option option" where
  "strchr m s c =
     (if m s \<noteq> 0 then if m s = c then Some (Some s) else strchr m (s + 1) c else Some None)"

definition umemset :: "nat \<Rightarrow> int \<Rightarrow> nat \<Rightarrow> bytes \<Rightarrow> bytes" where
  "umemset dst c n m = stosb dst (ucast (uint_of_int c)) n m"

definition umemmove :: "nat \<Rightarrow> nat \<Rightarrow> int \<Rightarrow> bytes \<Rightarrow> bytes" where
  "umemmove dst src n m = copy_up dst src (nat n) m"

text \<open>The sum is an \<open>int\<close>: a larger one is undefined, and has no value here.\<close>

partial_function (option) atoi_loop :: "bytes \<Rightarrow> nat \<Rightarrow> int \<Rightarrow> int option" where
  "atoi_loop m s n =
     (if 48 \<le> m s \<and> m s \<le> 57
      then if n * 10 + uint (m s) > 2147483647 then None else atoi_loop m (s + 1) (n * 10 + uint (m s) - 48)
      else Some n)"

definition atoi :: "bytes \<Rightarrow> nat \<Rightarrow> int option" where
  "atoi m s = atoi_loop m s 0"

text \<open>
  \<open>gets\<close> reads one byte at a time with the system call \<open>read\<close>, an argument here: it gives
  the byte it stored, or none when it returned less than 1.
\<close>

fun gets_loop :: "('w \<Rightarrow> u8 option \<times> 'w) \<Rightarrow> nat \<Rightarrow> nat \<Rightarrow> nat \<Rightarrow> bytes \<Rightarrow> 'w \<Rightarrow> nat \<times> bytes \<times> 'w" where
  "gets_loop rd buf i 0 m w = (i, m, w)"
| "gets_loop rd buf i (Suc room) m w =
     (case rd w of
        (None, w) \<Rightarrow> (i, m, w)
      | (Some c, w) \<Rightarrow>
          let m = m(buf + i := c) in
          if c = 10 \<or> c = 13 then (i + 1, m, w) else gets_loop rd buf (i + 1) room m w)"

definition gets :: "('w \<Rightarrow> u8 option \<times> 'w) \<Rightarrow> nat \<Rightarrow> int \<Rightarrow> bytes \<Rightarrow> 'w \<Rightarrow> bytes \<times> 'w" where
  "gets rd buf mx m w =
     (case gets_loop rd buf 0 (nat (mx - 1)) m w of (i, m, w) \<Rightarrow> (m(buf + i := 0), w))"

section \<open>Filling and copying\<close>

lemma stosb_eq: "stosb d c n m = (\<lambda>a. if d \<le> a \<and> a < d + n then c else m a)"
  by (induction n arbitrary: d m) (auto simp: fun_eq_iff)

lemma fill_word:
  fixes w :: u32
  defines "c \<equiv> w AND 0xFF"
  defines "v \<equiv> push_bit 24 c OR push_bit 16 c OR push_bit 8 c OR c"
  shows "ucast v = (ucast w :: u8)" "ucast (drop_bit 8 v) = (ucast w :: u8)"
    "ucast (drop_bit 16 v) = (ucast w :: u8)" "ucast (drop_bit 24 v) = (ucast w :: u8)"
proof -
  have c: "bit c k \<longleftrightarrow> k < 8 \<and> bit w k" for k
  proof -
    have "c = take_bit 8 w" by (simp add: c_def take_bit_eq_mask mask_eq_exp_minus_1)
    then show ?thesis by (auto simp: bit_take_bit_iff)
  qed
  show "ucast v = (ucast w :: u8)" "ucast (drop_bit 8 v) = (ucast w :: u8)"
    "ucast (drop_bit 16 v) = (ucast w :: u8)" "ucast (drop_bit 24 v) = (ucast w :: u8)"
    by (rule bit_word_eqI; auto simp: v_def bit_simps c)+
qed

lemma stosl_eq:
  assumes "ucast v = c" "ucast (drop_bit 8 v) = c" "ucast (drop_bit 16 v) = c" "ucast (drop_bit 24 v) = c"
  shows "stosl d v n m = (\<lambda>a. if d \<le> a \<and> a < d + 4 * n then c else m a)"
proof (induction n arbitrary: d m)
  case (Suc n)
  show ?case unfolding stosl.simps Suc.IH put32_def assms by (auto simp: fun_eq_iff)
qed (auto simp: fun_eq_iff)

lemma copy_up_eq:
  assumes "d \<le> s \<or> s + n \<le> d"
  shows "copy_up d s n m = (\<lambda>a. if d \<le> a \<and> a < d + n then m (s + (a - d)) else m a)"
  using assms
proof (induction n arbitrary: d s m)
  case (Suc n)
  then have "copy_up (d + 1) (s + 1) n (m(d := m s)) =
      (\<lambda>a. if d + 1 \<le> a \<and> a < d + 1 + n then (m(d := m s)) (s + 1 + (a - (d + 1))) else (m(d := m s)) a)"
    by (intro Suc.IH) auto
  with Suc.prems show ?case by (auto simp: fun_eq_iff Suc_diff_Suc)
qed (auto simp: fun_eq_iff)

lemma copy_down_eq:
  assumes "s \<le> d"
  shows "copy_down (d + n) (s + n) n m = (\<lambda>a. if d \<le> a \<and> a < d + n then m (s + (a - d)) else m a)"
proof (induction n arbitrary: m)
  case (Suc n)
  show ?case using assms by (auto simp: fun_eq_iff Suc.IH [simplified])
qed (auto simp: fun_eq_iff)

lemma memset_byte:
  "kmemset dst c n m a = (if dst \<le> a \<and> a < dst + n then ucast (uint_of_int c) else m a)"
proof (cases "dst mod 4 = 0 \<and> n mod 4 = 0")
  case True
  then have "4 * (n div 4) = n" by presburger
  with True show ?thesis using stosl_eq [OF fill_word, of dst "uint_of_int c" "n div 4" m]
    by (simp add: kmemset_def Let_def)
next
  case False
  then show ?thesis unfolding kmemset_def by (simp only: if_False stosb_eq)
qed

text \<open>
  \<open>memset\<close> of the kernel sets exactly the \<open>n\<close> bytes from \<open>dst\<close> on to the low byte
  of \<open>c\<close>, whether it stores four bytes at a time or one.
\<close>

theorem memset_fills:
  "kmemset dst c n m a = (if dst \<le> a \<and> a < dst + n then ucast (uint_of_int c) else m a)"
  by (rule memset_byte)

text \<open>
  \<open>memmove\<close> copies \<open>n\<close> bytes from \<open>src\<close> to \<open>dst\<close> as they were before the call and
  changes no other byte, however the two regions overlap.
\<close>

theorem memmove_copies:
  "memmove dst src n m a = (if dst \<le> a \<and> a < dst + n then m (src + (a - dst)) else m a)"
proof (cases "src < dst \<and> src + n > dst")
  case True
  then show ?thesis using copy_down_eq [of src dst n m] by (simp add: memmove_def)
next
  case False
  then have "dst \<le> src \<or> src + n \<le> dst" by auto
  from copy_up_eq [OF this] False show ?thesis by (auto simp: memmove_def)
qed

section \<open>Strings\<close>

lemma bytes_at_simps [simp]:
  "bytes_at m p 0 = []"
  "bytes_at m p (Suc n) = m p # bytes_at m (Suc p) n"
  by (simp_all add: bytes_at_def map_upt_Suc del: upt_Suc)

lemma length_bytes_at [simp]: "length (bytes_at m p n) = n"
  by (simp add: bytes_at_def)

lemma bytes_at_cong: "(\<And>a. p \<le> a \<Longrightarrow> a < p + n \<Longrightarrow> m a = m' a) \<Longrightarrow> bytes_at m p n = bytes_at m' p n"
  by (simp add: bytes_at_def)

lemma cstr_simps [simp]:
  "cstr m p [] \<longleftrightarrow> m p = 0"
  "cstr m p (x # xs) \<longleftrightarrow> m p = x \<and> x \<noteq> 0 \<and> cstr m (Suc p) xs"
  by (auto simp: cstr_def)

lemma cstr_cong:
  assumes "\<And>a. p \<le> a \<Longrightarrow> a \<le> p + length xs \<Longrightarrow> m a = m' a"
  shows "cstr m p xs = cstr m' p xs"
  using assms bytes_at_cong [of p "length xs" m m'] by (simp add: cstr_def)

lemma strlen_loop_cstr: "cstr m (s + n) xs \<Longrightarrow> strlen_loop m s n = Some (n + length xs)"
proof (induction xs arbitrary: n)
  case Nil
  then show ?case by (simp add: strlen_loop.simps)
next
  case (Cons x xs)
  then show ?case using Cons.IH [of "Suc n"] by (simp add: strlen_loop.simps [of m s n])
qed

lemma strlen_cstr: "cstr m s xs \<Longrightarrow> strlen m s = Some (length xs)"
  using strlen_loop_cstr [of m s 0 xs] by (simp add: strlen_def)

lemma strncmp_cstr:
  assumes "cstr m p xs" "cstr m q ys"
  shows "strncmp m p q n = 0 \<longleftrightarrow> take n xs = take n ys"
  using assms
proof (induction n arbitrary: p q xs ys)
  case (Suc n)
  show ?case
    using Suc.prems Suc.IH [of "Suc p" "tl xs" "Suc q" "tl ys"] by (cases xs; cases ys) (auto simp: uint_0_iff word_uint_eq_iff [symmetric])
qed simp

lemma strncpy_frame: "a < s \<or> s + n \<le> a \<Longrightarrow> strncpy s t n m a = m a"
  by (induction n arbitrary: s t m) (auto simp: Let_def stosb_eq)

lemma stosb_below: "a < s \<Longrightarrow> stosb s c n m a = m a"
  by (simp add: stosb_eq)

lemma bytes_at_stosb: "bytes_at (stosb s c n m) s n = replicate n c"
  by (rule nth_equalityI) (simp_all add: bytes_at_def stosb_eq)

lemma strncpy_bytes:
  assumes "cstr m t xs" "s + n \<le> t \<or> t + length xs < s"
  shows "bytes_at (strncpy s t n m) s n = take n (xs @ replicate n 0)"
  using assms
proof (induction n arbitrary: s t m xs)
  case (Suc n)
  show ?case
  proof (cases xs)
    case Nil
    with Suc.prems show ?thesis by (simp add: stosb_below bytes_at_stosb)
  next
    case (Cons x ys)
    with Suc.prems have "cstr (m(s := x)) (Suc t) ys"
      by (subst cstr_cong [of _ _ _ m]) auto
    moreover have "Suc s + n \<le> Suc t \<or> Suc t + length ys < Suc s" using Suc.prems(2) Cons by auto
    ultimately have "bytes_at (strncpy (Suc s) (Suc t) n (m(s := x))) (Suc s) n = take n (ys @ replicate n 0)"
      by (rule Suc.IH)
    with Suc.prems(1) Cons show ?thesis by (auto simp: strncpy_frame simp flip: replicate_Suc)
  qed
qed simp

lemma safestrcpy_loop_eq:
  assumes "cstr m t xs" "s + n < t \<or> t + length xs < s" "safestrcpy_loop s t n m = (s', m')"
  shows "cstr (m'(s' := 0)) s (take n xs) \<and> (\<forall>a. a < s \<or> s + n < a \<longrightarrow> (m'(s' := 0)) a = m a)"
  using assms
proof (induction n arbitrary: s t m xs)
  case (Suc n)
  show ?case
  proof (cases xs)
    case Nil
    with Suc.prems show ?thesis by auto
  next
    case (Cons x ys)
    with Suc.prems have "cstr (m(s := x)) (Suc t) ys"
      by (subst cstr_cong [of _ _ _ m]) auto
    moreover have "Suc s + n < Suc t \<or> Suc t + length ys < Suc s" using Suc.prems(2) Cons by auto
    moreover have "safestrcpy_loop (Suc s) (Suc t) n (m(s := x)) = (s', m')"
      using Suc.prems(1,3) Cons by (simp add: Let_def)
    ultimately have ih: "cstr (m'(s' := 0)) (Suc s) (take n ys)"
      "\<And>a. a < Suc s \<or> Suc s + n < a \<Longrightarrow> (m'(s' := 0)) a = (m(s := x)) a" using Suc.IH by blast+
    from ih(2) [of s] have "(m'(s' := 0)) s = x" by simp
    moreover have "(m'(s' := 0)) a = m a" if "a < s \<or> s + Suc n < a" for a using ih(2) [of a] that by auto
    ultimately show ?thesis using ih(1) Suc.prems(1) unfolding Cons by (simp del: fun_upd_apply)
  qed
qed auto

text \<open>
  (C40) \<open>safestrcpy\<close> copies a string into a buffer of \<open>n\<close> bytes: the buffer then holds the
  string cut to \<open>n - 1\<close> characters, always terminated, and no byte outside the buffer
  changes.
\<close>

theorem safestrcpy_terminated:
  assumes "cstr m t xs" "0 < n" "s + nat n \<le> t \<or> t + length xs < s"
  shows "cstr (safestrcpy s t n m) s (take (nat (n - 1)) xs) \<and>
     (\<forall>a. a < s \<or> s + nat n \<le> a \<longrightarrow> safestrcpy s t n m a = m a)"
proof -
  obtain s' m' where l: "safestrcpy_loop s t (nat (n - 1)) m = (s', m')" by fastforce
  then have "safestrcpy s t n m = m'(s' := 0)" using assms(2) by (simp add: safestrcpy_def)
  moreover have "s + nat (n - 1) < t \<or> t + length xs < s" using assms(2,3) by auto
  ultimately show ?thesis using safestrcpy_loop_eq [OF assms(1) _ l] assms(2) by auto
qed

theorem safestrcpy_terminated_witness:
  "cstr (safestrcpy 0 100 3 ((\<lambda>_. 0)(100 := 105, 101 := 110, 102 := 105, 103 := 116))) 0 [105, 110]"
  using safestrcpy_terminated [of "(\<lambda>_. 0)(100 := 105, 101 := 110, 102 := 105, 103 := 116)" 100
      "[105, 110, 105, 116]" 3 0]
  by simp

section \<open>Words in memory\<close>

lemma bit_get32: "bit (get32 m d) n \<longleftrightarrow>
   (n < 8 \<and> bit (m d) n) \<or> (8 \<le> n \<and> n < 16 \<and> bit (m (d + 1)) (n - 8)) \<or> 
   (16 \<le> n \<and> n < 24 \<and> bit (m (d + 2)) (n - 16)) \<or> (24 \<le> n \<and> n < 32 \<and> bit (m (d + 3)) (n - 24))"
  unfolding get32_def by (auto simp add: bit_simps dest: bit_imp_le_length)

lemma get32_put32 [simp]: "get32 (put32 d w m) d = w"
proof (rule bit_word_eqI)
  fix n
  assume "n < LENGTH(32)"
  then have "n < 8 \<or> (8 \<le> n \<and> n < 16) \<or> (16 \<le> n \<and> n < 24) \<or> (24 \<le> n \<and> n < 32)" by auto
  moreover have put: "bit (put32 d w m d) k \<longleftrightarrow> k < 8 \<and> bit w k" "bit (put32 d w m (d + 1)) k \<longleftrightarrow> k < 8 \<and> bit w (8 + k)"
    "bit (put32 d w m (d + 2)) k \<longleftrightarrow> k < 8 \<and> bit w (16 + k)" "bit (put32 d w m (d + 3)) k \<longleftrightarrow> k < 8 \<and> bit w (24 + k)" for k
    by (simp_all add: put32_def bit_simps)
  ultimately show "bit (get32 (put32 d w m) d) n = bit w n"
    unfolding bit_get32 put by (elim disjE) auto
qed

lemma get32_put32_other:
  "e + 4 \<le> d \<or> d + 4 \<le> e \<Longrightarrow> get32 (put32 d w m) e = get32 m e"
  by (auto simp: get32_def put32_def)

text \<open>Two-byte values, as in \<open>struct dinode\<close> and \<open>struct dirent\<close>.\<close>

definition put16 :: "nat \<Rightarrow> u16 \<Rightarrow> bytes \<Rightarrow> bytes" where
  "put16 d w m = m(d := ucast w, d + 1 := ucast (drop_bit 8 w))"

definition get16 :: "bytes \<Rightarrow> nat \<Rightarrow> u16" where
  "get16 m d = ucast (m d) OR push_bit 8 (ucast (m (d + 1)))"

lemma get16_put16 [simp]: "get16 (put16 d w m) d = w"
proof (rule bit_word_eqI)
  fix n
  assume "n < LENGTH(16)"
  then have "n < 8 \<or> 8 \<le> n \<and> n < 16" by auto
  then show "bit (get16 (put16 d w m) d) n = bit w n"
    by (auto simp: get16_def put16_def bit_or_iff bit_push_bit_iff bit_ucast_iff bit_drop_bit_eq)
qed

lemma get16_put_other:
  "e + 2 \<le> d \<or> d + 2 \<le> e \<Longrightarrow> get16 (put16 d w m) e = get16 m e"
  "e + 2 \<le> d \<or> d + 4 \<le> e \<Longrightarrow> get16 (put32 d v m) e = get16 m e"
  "e + 4 \<le> d \<or> d + 2 \<le> e \<Longrightarrow> get32 (put16 d w m) e = get32 m e"
  by (auto simp: get16_def put16_def get32_def put32_def)

lemma bytes_at_put_bytes: "bytes_at (put_bytes p xs m) p (length xs) = xs"
  by (rule nth_equalityI) (simp_all add: bytes_at_def put_bytes_def)

lemma put_bytes_nth: "i < length xs \<Longrightarrow> put_bytes p xs m (p + i) = xs ! i"
  by (simp add: put_bytes_def)

lemma put_bytes_outside: "a < p \<or> p + length xs \<le> a \<Longrightarrow> put_bytes p xs m a = m a"
  by (auto simp: put_bytes_def)

lemma mem_of_nth: "mem_of xs a = (if a < length xs then xs ! a else 0)"
  by (simp add: mem_of_def put_bytes_def)

lemma cstr_mem_of: "0 \<notin> set xs \<Longrightarrow> cstr (mem_of xs) 0 xs"
  by (auto simp: cstr_def bytes_at_def mem_of_nth intro: nth_equalityI)

end
