(* ===== verification/Kalloc.thy ===== *)
theory Kalloc
  imports Proc_Table Cstring
begin

text \<open>
  The physical page allocator of \<open>kalloc.c\<close>. Kernel memory is a function from the address
  of a page to its 4096 bytes; the free list is kept where the code keeps it, in the first
  word of each free page. The invariant \<open>free_list\<close> reads it back as a list of pages.
  \<open>kmem.lock\<close> is held over the few lines that touch the list, so each call is one step.
\<close>

section \<open>Memory and the allocator\<close>

definition PGSIZE :: u32 where "PGSIZE = 4096"
definition PHYSTOP :: u32 where "PHYSTOP = 0xE000000"

definition PGROUNDUP :: "u32 \<Rightarrow> u32" where
  "PGROUNDUP sz = (sz + PGSIZE - 1) AND NOT (PGSIZE - 1)"

definition PGROUNDDOWN :: "u32 \<Rightarrow> u32" where
  "PGROUNDDOWN a = a AND NOT (PGSIZE - 1)"

text \<open>
  \<open>kernel_end\<close> and \<open>kernel_data\<close> are the linker's symbols \<open>end\<close> and \<open>data\<close>, which the
  program only reads.
\<close>

record kmem_st = ptable_st +
  pmem :: "u32 \<Rightarrow> bytes"
  freelist :: u32
  use_lock :: int
  kernel_end :: u32
  kernel_data :: u32

definition set_page :: "u32 \<Rightarrow> bytes \<Rightarrow> 'a kmem_st_scheme \<Rightarrow> 'a kmem_st_scheme" where
  "set_page v pg s = s\<lparr>pmem := (pmem s)(v := pg)\<rparr>"

definition kfree :: "u32 \<Rightarrow> 'a kmem_st_scheme \<Rightarrow> 'a kmem_st_scheme res" where
  "kfree v s =
     (if v mod PGSIZE \<noteq> 0 \<or> v < kernel_end s \<or> V2P v \<ge> PHYSTOP then Inl (Panic ''kfree'')
      else let s = set_page v (kmemset 0 1 4096 (pmem s v)) s;
               s = set_page v (put32 0 (freelist s) (pmem s v)) s
           in Inr (s\<lparr>freelist := v\<rparr>))"

text \<open>A null pointer, 0, is returned when there is no page.\<close>

definition kalloc :: "'a kmem_st_scheme \<Rightarrow> u32 \<times> 'a kmem_st_scheme" where
  "kalloc s = (let r = freelist s in
     (r, if r \<noteq> 0 then s\<lparr>freelist := get32 (pmem s r) 0\<rparr> else s))"

lemma unat_plus_page: "unat p + 4096 \<le> unat (v :: u32) \<Longrightarrow> unat (p + PGSIZE) = unat p + 4096"
  using unsigned_less [of v, where 'a = nat] by (simp add: PGSIZE_def unat_word_ariths)

text \<open>The sum in the loop condition is one of pointers into the memory below \<open>PHYSTOP\<close>, which does not wrap.\<close>

function freerange_loop :: "u32 \<Rightarrow> u32 \<Rightarrow> 'a kmem_st_scheme \<Rightarrow> 'a kmem_st_scheme res" where
  "freerange_loop p vend s =
     (if unat p + 4096 \<le> unat vend
      then bnd (kfree p s) (\<lambda>s. freerange_loop (p + PGSIZE) vend s)
      else Inr s)"
  by pat_completeness auto

termination
proof (relation "measure (\<lambda>(p, vend, s). unat vend - unat p)", goal_cases)
  case (2 p vend s x)
  then show ?case using unat_plus_page [of p vend] by simp
qed simp

declare freerange_loop.simps [simp del]

definition freerange :: "u32 \<Rightarrow> u32 \<Rightarrow> 'a kmem_st_scheme \<Rightarrow> 'a kmem_st_scheme res" where
  "freerange vstart vend s = freerange_loop (PGROUNDUP vstart) vend s"

definition kinit1 :: "u32 \<Rightarrow> u32 \<Rightarrow> 'a kmem_st_scheme \<Rightarrow> 'a kmem_st_scheme res" where
  "kinit1 vstart vend s = freerange vstart vend (s\<lparr>use_lock := 0\<rparr>)"

definition kinit2 :: "u32 \<Rightarrow> u32 \<Rightarrow> 'a kmem_st_scheme \<Rightarrow> 'a kmem_st_scheme res" where
  "kinit2 vstart vend s = bnd (freerange vstart vend s) (\<lambda>s. Inr (s\<lparr>use_lock := 1\<rparr>))"

section \<open>The free list as a list of pages\<close>

text \<open>The pages chained from address \<open>a\<close>.\<close>

fun chain :: "(u32 \<Rightarrow> bytes) \<Rightarrow> u32 \<Rightarrow> u32 list \<Rightarrow> bool" where
  "chain m a [] \<longleftrightarrow> a = 0"
| "chain m a (x # xs) \<longleftrightarrow> a = x \<and> x \<noteq> 0 \<and> chain m (get32 (m x) 0) xs"

definition page_ok :: "'a kmem_st_scheme \<Rightarrow> u32 \<Rightarrow> bool" where
  "page_ok s v \<longleftrightarrow> v mod PGSIZE = 0 \<and> v \<ge> kernel_end s \<and> V2P v < PHYSTOP \<and> v \<noteq> 0"

definition free_list :: "'a kmem_st_scheme \<Rightarrow> u32 list \<Rightarrow> bool" where
  "free_list s xs \<longleftrightarrow> chain (pmem s) (freelist s) xs \<and> distinct xs \<and> (\<forall>v \<in> set xs. page_ok s v)"

lemma chain_frame: "(\<And>x. x \<in> set xs \<Longrightarrow> m x = m' x) \<Longrightarrow> chain m a xs = chain m' a xs"
  by (induction xs arbitrary: a) auto

lemma chain_upd: "v \<notin> set xs \<Longrightarrow> chain (m(v := pg)) a xs = chain m a xs"
  by (rule chain_frame) auto

lemma set_page_sel [simp]:
  "pmem (set_page v pg s) = (pmem s)(v := pg)"
  "freelist (set_page v pg s) = freelist s"
  "kernel_end (set_page v pg s) = kernel_end s"
  "procs (set_page v pg s) = procs s"
  by (simp_all add: set_page_def)

lemma kfree_free_list:
  assumes "free_list s xs" "page_ok s v" "v \<notin> set xs"
  shows "\<exists>s'. kfree v s = Inr s' \<and> free_list s' (v # xs) \<and> kernel_end s' = kernel_end s \<and>
    (\<forall>p. p \<noteq> v \<longrightarrow> pmem s' p = pmem s p)"
  using assms
  by (auto simp: kfree_def free_list_def page_ok_def Let_def chain_upd not_less not_le)

lemma kalloc_free_list:
  assumes "free_list s (x # xs)"
  shows "kalloc s = (x, s\<lparr>freelist := get32 (pmem s x) 0\<rparr>)" "free_list (s\<lparr>freelist := get32 (pmem s x) 0\<rparr>) xs"
  using assms by (auto simp: free_list_def kalloc_def Let_def page_ok_def)

lemma kalloc_empty: "free_list s [] \<Longrightarrow> kalloc s = (0, s)"
  by (simp add: free_list_def kalloc_def Let_def)

section \<open>Properties\<close>

definition pages_from :: "u32 \<Rightarrow> nat \<Rightarrow> u32 list" where
  "pages_from p n = map (\<lambda>i. p + of_nat i * PGSIZE) [0..<n]"

lemma pages_from_simps [simp]:
  "pages_from p 0 = []" "pages_from p (Suc n) = p # pages_from (p + PGSIZE) n"
  by (simp_all add: pages_from_def map_upt_Suc distrib_right add.assoc del: upt_Suc)

lemma unat_mod_page: "v mod PGSIZE = 0 \<longleftrightarrow> unat v mod 4096 = 0"
  by (simp add: PGSIZE_def unat_eq_0 [symmetric] unat_mod_distrib del: unat_eq_0)

text \<open>The loop frees the pages one after the other; the last one freed is first in the list.\<close>

lemma freerange_loop_free_list:
  assumes "free_list s xs" "p mod PGSIZE = 0" "kernel_end s \<le> p" "KERNBASE \<le> kernel_end s" "kernel_end s \<noteq> 0"
    and "unat vend \<le> unat (P2V PHYSTOP)" "unat p \<le> unat vend"
    and "\<forall>x \<in> set xs. x < p \<or> vend \<le> x"
  shows "\<exists>s'. freerange_loop p vend s = Inr s' \<and> kernel_end s' = kernel_end s \<and>
     free_list s' (rev (pages_from p ((unat vend - unat p) div 4096)) @ xs)"
  using assms
proof (induction "(unat vend - unat p) div 4096" arbitrary: p s xs)
  case 0
  then have "\<not> unat p + 4096 \<le> unat vend" by (simp add: div_eq_0_iff)
  with 0 show ?case by (subst freerange_loop.simps) (simp add: 0(1) [symmetric])
next
  case (Suc n)
  then have le: "unat p + 4096 \<le> unat vend" by (metis Suc_le_eq add.commute div_less le_diff_conv2 nat.simps(3) not_le)
  have "page_ok s p"
    using Suc.prems le by (auto simp: page_ok_def word_less_nat_alt word_le_nat_alt V2P_def unat_sub
        P2V_def PHYSTOP_def KERNBASE_def unat_eq_0)
  moreover have "p \<notin> set xs" using Suc.prems(8) le by (auto simp: word_less_nat_alt word_le_nat_alt)
  ultimately obtain s1 where s1: "kfree p s = Inr s1" "free_list s1 (p # xs)" "kernel_end s1 = kernel_end s"
    using kfree_free_list [OF Suc.prems(1)] by blast
  have up: "unat (p + PGSIZE) = unat p + 4096" using unat_plus_page [OF le] .
  have e: "unat vend - unat p = (unat vend - unat (p + PGSIZE)) + 4096" using le up by simp
  have n: "n = (unat vend - unat (p + PGSIZE)) div 4096" using Suc.hyps(2) unfolding e by simp
  have "\<exists>s'. freerange_loop (p + PGSIZE) vend s1 = Inr s' \<and> kernel_end s' = kernel_end s1 \<and>
     free_list s' (rev (pages_from (p + PGSIZE) ((unat vend - unat (p + PGSIZE)) div 4096)) @ p # xs)"
  proof (rule Suc.hyps(1) [OF n s1(2)])
    show "(p + PGSIZE) mod PGSIZE = 0" using Suc.prems(2) up by (simp add: unat_mod_page)
    show "\<forall>x \<in> set (p # xs). x < p + PGSIZE \<or> vend \<le> x"
      using Suc.prems(8) up by (auto simp: word_less_nat_alt word_le_nat_alt)
  qed (use Suc.prems s1(3) up le in \<open>auto simp: word_le_nat_alt\<close>)
  moreover have "freerange_loop p vend s = freerange_loop (p + PGSIZE) vend s1"
    using le s1(1) by (subst freerange_loop.simps) simp
  ultimately show ?case using s1(3) Suc.hyps(2) n by (metis append.assoc append_Cons append_Nil pages_from_simps(2) rev.simps(2))
qed

lemma PGROUNDUP_mod: "PGROUNDUP sz mod PGSIZE = 0"
proof -
  have "take_bit 12 (x AND NOT (mask 12)) = (0 :: u32)" for x
    by (rule bit_word_eqI) (auto simp: bit_simps)
  then show ?thesis by (simp add: PGROUNDUP_def PGSIZE_def take_bit_eq_mod mask_eq_exp_minus_1)
qed

text \<open>
  (C33) \<open>freerange\<close> puts every whole page between its two arguments on the free list, and
  nothing else, keeping what was there: starting from a well-formed list that has no page
  of the range, the list afterwards is well-formed and consists of the pages of the range,
  the highest first, followed by the old list.
\<close>

theorem freerange_frees_all:
  assumes "free_list s xs" "KERNBASE \<le> kernel_end s" "kernel_end s \<le> PGROUNDUP vstart"
    and "PGROUNDUP vstart \<le> vend" "vend \<le> P2V PHYSTOP"
    and "\<forall>x \<in> set xs. x < PGROUNDUP vstart \<or> vend \<le> x"
  shows "\<exists>s'. freerange vstart vend s = Inr s' \<and>
     free_list s' (rev (pages_from (PGROUNDUP vstart) (unat (vend - PGROUNDUP vstart) div 4096)) @ xs)"
proof -
  have "kernel_end s \<noteq> 0" using assms(2) by (auto simp: KERNBASE_def)
  with freerange_loop_free_list [of s xs "PGROUNDUP vstart" vend] assms PGROUNDUP_mod show ?thesis
    by (auto simp: freerange_def word_le_nat_alt unat_sub)
qed

definition small_kmem :: kmem_st where
  "small_kmem = ptable_st.extend (zero_ptable [])
     \<lparr>pmem = (\<lambda>_ _. 0), freelist = 0, use_lock = 0, kernel_end = 0x80100000, kernel_data = 0x80100000\<rparr>"

lemma small_kmem_free: "free_list small_kmem []"
  by (simp add: free_list_def small_kmem_def ptable_st.defs)

lemma small_kmem_end: "kernel_end small_kmem = 0x80100000"
  by (simp add: small_kmem_def ptable_st.defs)

theorem freerange_frees_all_witness:
  "\<exists>s'. freerange 0x80100001 0x80103000 small_kmem = Inr s' \<and> free_list s' [0x80102000, 0x80101000]"
proof -
  have up: "PGROUNDUP 0x80100001 = 0x80101000" by (simp add: PGROUNDUP_def PGSIZE_def)
  have n: "unat ((0x80103000 :: u32) - 0x80101000) div 4096 = 2" by simp
  have "\<exists>s'. freerange 0x80100001 0x80103000 small_kmem = Inr s' \<and>
     free_list s' (rev (pages_from (PGROUNDUP 0x80100001) (unat (0x80103000 - PGROUNDUP 0x80100001) div 4096)) @ [])"
    by (rule freerange_frees_all)
      (simp_all add: small_kmem_free small_kmem_end up KERNBASE_def P2V_def PHYSTOP_def)
  then show ?thesis unfolding up n by (simp add: numeral_2_eq_2 PGSIZE_def)
qed

text \<open>
  Freeing a page that is not free and allocating again gives that page back, leaves
  the free list as it was before both calls, and the page handed out is not on it; only
  the contents of that page have changed.
\<close>

theorem kfree_kalloc_roundtrip:
  assumes "free_list s xs" "page_ok s v" "v \<notin> set xs"
  shows "\<exists>s1 s2. kfree v s = Inr s1 \<and> kalloc s1 = (v, s2) \<and> free_list s2 xs \<and>
     (\<forall>p. p \<noteq> v \<longrightarrow> pmem s2 p = pmem s p)"
proof -
  from kfree_free_list [OF assms] obtain s1 where
    s1: "kfree v s = Inr s1" "free_list s1 (v # xs)" "\<forall>p. p \<noteq> v \<longrightarrow> pmem s1 p = pmem s p" by blast
  with kalloc_free_list [OF s1(2)] show ?thesis by auto
qed

theorem kfree_kalloc_roundtrip_witness:
  "\<exists>s1 s2. kfree 0x80101000 small_kmem = Inr s1 \<and> kalloc s1 = (0x80101000, s2) \<and> free_list s2 []"
  using kfree_kalloc_roundtrip [OF small_kmem_free, of "0x80101000"]
  by (auto simp: page_ok_def small_kmem_end PGSIZE_def V2P_def KERNBASE_def PHYSTOP_def)

end
