(* ===== verification/Vm.thy ===== *)
theory Vm
  imports Kalloc
begin

text \<open>
  Page tables and user memory, \<open>vm.c\<close>: page directories and page tables are pages of the
  kernel's memory, read and written through their 32-bit entries. \<open>loaduvm\<close>, which reads
  an inode, is in theory \<open>Exec\<close>; \<open>switchuvm\<close> and \<open>switchkvm\<close> are in \<open>Proc_Table\<close>;
  \<open>seginit\<close> is in \<open>Kvm\<close>. A pointer to a page-table entry is
  the page and the index of the entry. The loops that step an address by a page would not
  end if the address wrapped around; that is a fault here, and its callers exclude it.
\<close>

section \<open>Constants and entries\<close>

definition PTE_P :: u32 where "PTE_P = 1"
definition PTE_W :: u32 where "PTE_W = 2"
definition PTE_U :: u32 where "PTE_U = 4"
definition DEVSPACE :: u32 where "DEVSPACE = 0xFE000000"
definition EXTMEM :: u32 where "EXTMEM = 0x100000"
definition KERNLINK :: u32 where "KERNLINK = KERNBASE + EXTMEM"

definition PDX :: "u32 \<Rightarrow> nat" where "PDX va = unat (drop_bit 22 va AND 0x3FF)"
definition PTX :: "u32 \<Rightarrow> nat" where "PTX va = unat (drop_bit 12 va AND 0x3FF)"

definition PGADDR :: "u32 \<Rightarrow> u32 \<Rightarrow> u32 \<Rightarrow> u32" where
  "PGADDR d t off = push_bit 22 d OR push_bit 12 t OR off"

definition PTE_ADDR :: "u32 \<Rightarrow> u32" where "PTE_ADDR pte = pte AND NOT 0xFFF"
definition PTE_FLAGS :: "u32 \<Rightarrow> u32" where "PTE_FLAGS pte = pte AND 0xFFF"

type_synonym entry_ptr = "u32 \<times> nat"

definition entry :: "entry_ptr \<Rightarrow> 'a kmem_st_scheme \<Rightarrow> u32" where
  "entry e s = get32 (pmem s (fst e)) (4 * snd e)"

definition set_entry :: "entry_ptr \<Rightarrow> u32 \<Rightarrow> 'a kmem_st_scheme \<Rightarrow> 'a kmem_st_scheme" where
  "set_entry e w s = set_page (fst e) (put32 (4 * snd e) w (pmem s (fst e))) s"

definition zero_page :: "u32 \<Rightarrow> 'a kmem_st_scheme \<Rightarrow> 'a kmem_st_scheme" where
  "zero_page v s = set_page v (kmemset 0 0 4096 (pmem s v)) s"

definition next_page :: "u32 \<Rightarrow> u32 res" where
  "next_page a = (if a < a + PGSIZE then Inr (a + PGSIZE) else Inl (Wild ''address wraps around''))"

lemma above_less: "a < a' \<Longrightarrow> 2 ^ 32 - unat a' < 2 ^ 32 - unat a" for a a' :: u32
  using unsigned_less [of a', where 'a = nat] by (simp add: word_less_nat_alt)

lemma next_page_less: "next_page a = Inr a' \<Longrightarrow> 2 ^ 32 - unat a' < 2 ^ 32 - unat a"
  using above_less [of a a'] by (simp add: next_page_def split: if_splits)

section \<open>Walking and mapping\<close>

definition walkpgdir :: "u32 \<Rightarrow> u32 \<Rightarrow> bool \<Rightarrow> 'a kmem_st_scheme \<Rightarrow> entry_ptr option \<times> 'a kmem_st_scheme" where
  "walkpgdir pgdir va alloc s =
     (let pde = (pgdir, PDX va) in
      if entry pde s AND PTE_P \<noteq> 0 then (Some (P2V (PTE_ADDR (entry pde s)), PTX va), s)
      else if \<not> alloc then (None, s)
      else case kalloc s of (pgtab, s) \<Rightarrow>
        if pgtab = 0 then (None, s)
        else let s = zero_page pgtab s;
                 s = set_entry pde (V2P pgtab OR PTE_P OR PTE_W OR PTE_U) s
             in (Some (pgtab, PTX va), s))"

text \<open>
  The loop of \<open>mappages\<close> goes from \<open>a\<close> to \<open>last\<close>, both rounded down to a page, in steps of
  a page: the count is the number of steps still to take.
\<close>

fun mappages_loop :: "nat \<Rightarrow> u32 \<Rightarrow> u32 \<Rightarrow> u32 \<Rightarrow> u32 \<Rightarrow> 'a kmem_st_scheme \<Rightarrow> (int \<times> 'a kmem_st_scheme) res" where
  "mappages_loop n pgdir a pa perm s =
     (case walkpgdir pgdir a True s of
        (None, s) \<Rightarrow> Inr (-1, s)
      | (Some pte, s) \<Rightarrow>
          if entry pte s AND PTE_P \<noteq> 0 then Inl (Panic ''remap'')
          else let s = set_entry pte (pa OR perm OR PTE_P) s in
            case n of 0 \<Rightarrow> Inr (0, s)
            | Suc n \<Rightarrow> mappages_loop n pgdir (a + PGSIZE) (pa + PGSIZE) perm s)"

declare mappages_loop.simps [simp del]

definition mappages :: "u32 \<Rightarrow> u32 \<Rightarrow> u32 \<Rightarrow> u32 \<Rightarrow> u32 \<Rightarrow> 'a kmem_st_scheme \<Rightarrow> (int \<times> 'a kmem_st_scheme) res" where
  "mappages pgdir va sz pa perm s =
     (let a = PGROUNDDOWN va; lst = PGROUNDDOWN (va + sz - 1) in
      mappages_loop (unat ((lst - a) div PGSIZE)) pgdir a pa perm s)"

section \<open>Shrinking and freeing\<close>

function dealloc_loop :: "u32 \<Rightarrow> u32 \<Rightarrow> u32 \<Rightarrow> 'a kmem_st_scheme \<Rightarrow> 'a kmem_st_scheme res" where
  "dealloc_loop pgdir a oldsz s =
     (if \<not> a < oldsz then Inr s
      else case fst (walkpgdir pgdir a False s) of
        None \<Rightarrow>
          (let a' = PGADDR (drop_bit 22 a + 1) 0 0 in
           if a < a' then dealloc_loop pgdir a' oldsz s else Inl (Wild ''address wraps around''))
      | Some pte \<Rightarrow>
          bnd (if entry pte s AND PTE_P \<noteq> 0
               then let pa = PTE_ADDR (entry pte s) in
                    if pa = 0 then Inl (Panic ''kfree'')
                    else bnd (kfree (P2V pa) s) (\<lambda>s. Inr (set_entry pte 0 s))
               else Inr s) (\<lambda>s.
          bnd (next_page a) (\<lambda>a. dealloc_loop pgdir a oldsz s)))"
  by pat_completeness auto
termination
  by (relation "measure (\<lambda>(pgdir, a, oldsz, s). 2 ^ 32 - unat a)") (auto dest: next_page_less intro: above_less simp del: power_numeral)

declare dealloc_loop.simps [simp del]

definition deallocuvm :: "u32 \<Rightarrow> u32 \<Rightarrow> u32 \<Rightarrow> 'a kmem_st_scheme \<Rightarrow> (u32 \<times> 'a kmem_st_scheme) res" where
  "deallocuvm pgdir oldsz newsz s =
     (if newsz \<ge> oldsz then Inr (oldsz, s)
      else bnd (dealloc_loop pgdir (PGROUNDUP newsz) oldsz s) (\<lambda>s. Inr (newsz, s)))"

fun free_tables :: "nat \<Rightarrow> nat \<Rightarrow> u32 \<Rightarrow> 'a kmem_st_scheme \<Rightarrow> 'a kmem_st_scheme res" where
  "free_tables i 0 pgdir s = Inr s"
| "free_tables i (Suc n) pgdir s =
     bnd (if entry (pgdir, i) s AND PTE_P \<noteq> 0 then kfree (P2V (PTE_ADDR (entry (pgdir, i) s))) s else Inr s)
       (\<lambda>s. free_tables (i + 1) n pgdir s)"

definition freevm :: "u32 \<Rightarrow> 'a kmem_st_scheme \<Rightarrow> 'a kmem_st_scheme res" where
  "freevm pgdir s =
     (if pgdir = 0 then Inl (Panic ''freevm: no pgdir'')
      else bnd (deallocuvm pgdir KERNBASE 0 s) (\<lambda>(_, s).
           bnd (free_tables 0 1024 pgdir s) (\<lambda>s. kfree pgdir s)))"

section \<open>The kernel part\<close>

definition kmap :: "'a kmem_st_scheme \<Rightarrow> (u32 \<times> u32 \<times> u32 \<times> u32) list" where
  "kmap s = [(KERNBASE, 0, EXTMEM, PTE_W),
             (KERNLINK, V2P KERNLINK, V2P (kernel_data s), 0),
             (kernel_data s, V2P (kernel_data s), PHYSTOP, PTE_W),
             (DEVSPACE, DEVSPACE, 0, PTE_W)]"

fun setup_loop :: "(u32 \<times> u32 \<times> u32 \<times> u32) list \<Rightarrow> u32 \<Rightarrow> 'a kmem_st_scheme \<Rightarrow> (u32 \<times> 'a kmem_st_scheme) res" where
  "setup_loop [] pgdir s = Inr (pgdir, s)"
| "setup_loop ((virt, phys_start, phys_end, perm) # ks) pgdir s =
     bnd (mappages pgdir virt (phys_end - phys_start) phys_start perm s) (\<lambda>(r, s).
       if r < 0 then bnd (freevm pgdir s) (\<lambda>s. Inr (0, s)) else setup_loop ks pgdir s)"

definition setupkvm :: "'a kmem_st_scheme \<Rightarrow> (u32 \<times> 'a kmem_st_scheme) res" where
  "setupkvm s =
     (case kalloc s of (pgdir, s) \<Rightarrow>
        if pgdir = 0 then Inr (0, s)
        else let s = zero_page pgdir s in
          if P2V PHYSTOP > DEVSPACE then Inl (Panic ''PHYSTOP too high'')
          else setup_loop (kmap s) pgdir s)"

definition kvmalloc :: "'a kmem_st_scheme \<Rightarrow> 'a kmem_st_scheme res" where
  "kvmalloc s = bnd (setupkvm s) (\<lambda>(d, s). Inr (switchkvm (s\<lparr>kpgdir := d\<rparr>)))"

section \<open>User memory\<close>

definition inituvm :: "u32 \<Rightarrow> u8 list \<Rightarrow> 'a kmem_st_scheme \<Rightarrow> 'a kmem_st_scheme res" where
  "inituvm pgdir init s =
     (if length init \<ge> 4096 then Inl (Panic ''inituvm: more than a page'')
      else case kalloc s of (m, s) \<Rightarrow>
        if m = 0 then Inl (Wild ''null pointer'')
        else bnd (mappages pgdir 0 PGSIZE (V2P m) (PTE_W OR PTE_U) (zero_page m s)) (\<lambda>(_, s).
             Inr (set_page m (put_bytes 0 init (pmem s m)) s)))"

function alloc_loop :: "u32 \<Rightarrow> u32 \<Rightarrow> u32 \<Rightarrow> u32 \<Rightarrow> 'a kmem_st_scheme \<Rightarrow> (u32 \<times> 'a kmem_st_scheme) res" where
  "alloc_loop pgdir a oldsz newsz s =
     (if \<not> a < newsz then Inr (newsz, s)
      else case kalloc s of (m, s) \<Rightarrow>
        if m = 0 then bnd (deallocuvm pgdir newsz oldsz s) (\<lambda>(_, s). Inr (0, s))
        else bnd (mappages pgdir a PGSIZE (V2P m) (PTE_W OR PTE_U) (zero_page m s)) (\<lambda>(r, s).
          if r < 0
          then bnd (deallocuvm pgdir newsz oldsz s) (\<lambda>(_, s). bnd (kfree m s) (\<lambda>s. Inr (0, s)))
          else bnd (next_page a) (\<lambda>a. alloc_loop pgdir a oldsz newsz s)))"
  by pat_completeness auto
termination
  by (relation "measure (\<lambda>(pgdir, a, oldsz, newsz, s). 2 ^ 32 - unat a)") (auto dest: next_page_less intro: above_less simp del: power_numeral)

declare alloc_loop.simps [simp del]

text \<open>The new size, or 0 on error.\<close>

definition allocuvm :: "u32 \<Rightarrow> u32 \<Rightarrow> u32 \<Rightarrow> 'a kmem_st_scheme \<Rightarrow> (u32 \<times> 'a kmem_st_scheme) res" where
  "allocuvm pgdir oldsz newsz s =
     (if newsz \<ge> KERNBASE then Inr (0, s)
      else if newsz < oldsz then Inr (oldsz, s)
      else alloc_loop pgdir (PGROUNDUP oldsz) oldsz newsz s)"

definition clearpteu :: "u32 \<Rightarrow> u32 \<Rightarrow> 'a kmem_st_scheme \<Rightarrow> 'a kmem_st_scheme res" where
  "clearpteu pgdir uva s =
     (case fst (walkpgdir pgdir uva False s) of
        None \<Rightarrow> Inl (Panic ''clearpteu'')
      | Some pte \<Rightarrow> Inr (set_entry pte (entry pte s AND NOT PTE_U) s))"

function copy_loop :: "u32 \<Rightarrow> u32 \<Rightarrow> u32 \<Rightarrow> u32 \<Rightarrow> 'a kmem_st_scheme \<Rightarrow> (u32 \<times> 'a kmem_st_scheme) res" where
  "copy_loop pgdir d i sz s =
     (if \<not> i < sz then Inr (d, s)
      else case fst (walkpgdir pgdir i False s) of
        None \<Rightarrow> Inl (Panic ''copyuvm: pte should exist'')
      | Some pte \<Rightarrow>
          if entry pte s AND PTE_P = 0 then Inl (Panic ''copyuvm: page not present'')
          else let pa = PTE_ADDR (entry pte s); flags = PTE_FLAGS (entry pte s) in
            case kalloc s of (m, s) \<Rightarrow>
              if m = 0 then bnd (freevm d s) (\<lambda>s. Inr (0, s))
              else let s = set_page m (pmem s (P2V pa)) s in
                bnd (mappages d i PGSIZE (V2P m) flags s) (\<lambda>(r, s).
                  if r < 0 then bnd (kfree m s) (\<lambda>s. bnd (freevm d s) (\<lambda>s. Inr (0, s)))
                  else bnd (next_page i) (\<lambda>i. copy_loop pgdir d i sz s)))"
  by pat_completeness auto
termination
  by (relation "measure (\<lambda>(pgdir, d, i, sz, s). 2 ^ 32 - unat i)") (auto dest: next_page_less intro: above_less simp del: power_numeral)

declare copy_loop.simps [simp del]

definition copyuvm :: "u32 \<Rightarrow> u32 \<Rightarrow> 'a kmem_st_scheme \<Rightarrow> (u32 \<times> 'a kmem_st_scheme) res" where
  "copyuvm pgdir sz s =
     bnd (setupkvm s) (\<lambda>(d, s). if d = 0 then Inr (0, s) else copy_loop pgdir d 0 sz s)"

definition uva2ka :: "u32 \<Rightarrow> u32 \<Rightarrow> 'a kmem_st_scheme \<Rightarrow> u32 res" where
  "uva2ka pgdir uva s =
     bnd (deref (fst (walkpgdir pgdir uva False s))) (\<lambda>pte.
       if entry pte s AND PTE_P = 0 then Inr 0
       else if entry pte s AND PTE_U = 0 then Inr 0
       else Inr (P2V (PTE_ADDR (entry pte s))))"

lemma PGROUNDDOWN_eq: "PGROUNDDOWN a = a - a mod PGSIZE"
proof -
  have "a = (a AND NOT (mask 12)) + take_bit 12 a" for a :: u32
  proof -
    have "(a AND NOT (mask 12)) + (a AND mask 12) = (a AND NOT (mask 12)) OR (a AND mask 12)"
      by (rule disjunctive_add) (simp add: bit_simps)
    also have "\<dots> = a" by (rule bit_word_eqI) (auto simp: bit_simps)
    finally show ?thesis by (simp add: take_bit_eq_mask)
  qed
  from this [of a] show ?thesis
    by (simp add: PGROUNDDOWN_def PGSIZE_def take_bit_eq_mod mask_eq_exp_minus_1 algebra_simps)
qed

lemma page_offset: "unat (va - PGROUNDDOWN va) < 4096"
  by (simp add: PGROUNDDOWN_eq PGSIZE_def unat_mod_distrib)

text \<open>\<open>copyout\<close>: the bytes to copy are given as a list.\<close>

function copyout :: "u32 \<Rightarrow> u32 \<Rightarrow> u8 list \<Rightarrow> 'a kmem_st_scheme \<Rightarrow> (int \<times> 'a kmem_st_scheme) res" where
  "copyout pgdir va buf s =
     (if buf = [] then Inr (0, s)
      else let va0 = PGROUNDDOWN va; off = unat (va - va0); n = min (4096 - off) (length buf) in
        bnd (uva2ka pgdir va0 s) (\<lambda>pa0.
          if pa0 = 0 then Inr (-1, s)
          else let s = set_page pa0 (put_bytes off (take n buf) (pmem s pa0)) s in
            copyout pgdir (va0 + PGSIZE) (drop n buf) s))"
  by pat_completeness auto
termination
  by (relation "measure (\<lambda>(pgdir, va, buf, s). length buf)") (auto simp: page_offset)

declare copyout.simps [simp del]

section \<open>Reading a page table back\<close>

text \<open>The number of the page an address lies in; directory and table index are its digits.\<close>

definition pn :: "u32 \<Rightarrow> nat" where "pn va = unat va div 4096"

lemma unat_and_10: "unat (w AND 0x3FF) = unat w mod 1024" for w :: u32
proof -
  have "w AND 0x3FF = take_bit 10 w" by (simp add: take_bit_eq_mask mask_eq_exp_minus_1)
  then show ?thesis by (simp add: take_bit_eq_mod unat_mod_distrib)
qed

lemma PTX_pn: "PTX va = pn va mod 1024"
  by (simp add: PTX_def unat_and_10 drop_bit_eq_div pn_def unat_div_distrib)

lemma PDX_pn: "PDX va = pn va div 1024"
proof -
  have "unat va div 4194304 < 1024" using unsigned_less [of va, where 'a = nat] by simp
  then show ?thesis
    by (simp add: PDX_def unat_and_10 drop_bit_eq_div pn_def unat_div_distrib div_mult2_eq [symmetric])
qed

lemma PTX_less [simp]: "PTX va < 1024"
  by (simp add: PTX_pn)

lemma PDX_less [simp]: "PDX va < 1024"
  using unsigned_less [of va, where 'a = nat] by (simp add: PDX_pn pn_def div_mult2_eq [symmetric])

lemma same_page: "PDX a = PDX b \<and> PTX a = PTX b \<longleftrightarrow> pn a = pn b"
  by (metis PDX_pn PTX_pn div_mult_mod_eq)

text \<open>The entry a page table has for an address, 0 if it has no table for it.\<close>

definition table_at :: "'a kmem_st_scheme \<Rightarrow> u32 \<Rightarrow> nat \<Rightarrow> u32 option" where
  "table_at s pgdir i = (let pde = entry (pgdir, i) s in
     if pde AND PTE_P \<noteq> 0 then Some (P2V (PTE_ADDR pde)) else None)"

definition lookup :: "'a kmem_st_scheme \<Rightarrow> u32 \<Rightarrow> u32 \<Rightarrow> u32" where
  "lookup s pgdir va = (case table_at s pgdir (PDX va) of None \<Rightarrow> 0 | Some t \<Rightarrow> entry (t, PTX va) s)"

text \<open>The directory and its tables are pages of their own, none of them free.\<close>

definition wf_pgdir :: "'a kmem_st_scheme \<Rightarrow> u32 \<Rightarrow> u32 list \<Rightarrow> bool" where
  "wf_pgdir s pgdir free \<longleftrightarrow> pgdir \<notin> set free \<and>
     (\<forall>i<1024. \<forall>t. table_at s pgdir i = Some t \<longrightarrow> t \<noteq> pgdir \<and> t \<notin> set free) \<and>
     (\<forall>i<1024. \<forall>j<1024. \<forall>t. table_at s pgdir i = Some t \<longrightarrow> table_at s pgdir j = Some t \<longrightarrow> i = j)"

lemma walkpgdir_present:
  "table_at s pgdir (PDX va) = Some t \<Longrightarrow> walkpgdir pgdir va alloc s = (Some (t, PTX va), s)"
  by (auto simp: table_at_def walkpgdir_def Let_def split: if_splits)

lemma walkpgdir_absent:
  "table_at s pgdir (PDX va) = None \<Longrightarrow> walkpgdir pgdir va False s = (None, s)"
  by (auto simp: table_at_def walkpgdir_def Let_def split: if_splits)

lemma walkpgdir_lookup:
  "case fst (walkpgdir pgdir va False s) of None \<Rightarrow> lookup s pgdir va = 0
   | Some e \<Rightarrow> entry e s = lookup s pgdir va"
  by (cases "table_at s pgdir (PDX va)") (simp_all add: walkpgdir_present walkpgdir_absent lookup_def)

lemma entry_set_entry:
  "entry e (set_entry e' w s) = (if e = e' then w else entry e s)"
proof (cases "fst e = fst e'")
  case True
  have "4 * snd e + 4 \<le> 4 * snd e' \<or> 4 * snd e' + 4 \<le> 4 * snd e" if "snd e \<noteq> snd e'"
    using that by arith
  with True show ?thesis
    by (cases "snd e = snd e'") (auto simp: entry_def set_entry_def prod_eq_iff get32_put32_other)
next
  case False
  then show ?thesis by (auto simp: entry_def set_entry_def)
qed

lemma entry_set_page: "fst e \<noteq> v \<Longrightarrow> entry e (set_page v pg s) = entry e s"
  by (simp add: entry_def)

lemma entry_zero_page: "entry (v, i) (zero_page v s) = 0" if "i < 1024"
  using that by (simp add: entry_def zero_page_def get32_def memset_byte uint_of_int_def)

lemma page_mask:
  assumes "v mod PGSIZE = (0 :: u32)"
  shows "v AND 0xFFF = 0"
proof -
  have "v AND 0xFFF = take_bit 12 v" by (simp add: take_bit_eq_mask mask_eq_exp_minus_1)
  with assms show ?thesis by (simp add: take_bit_eq_mod PGSIZE_def)
qed

lemma V2P_mod:
  assumes "v mod PGSIZE = 0"
  shows "V2P v mod PGSIZE = 0"
proof -
  have "- KERNBASE = KERNBASE" by (simp add: KERNBASE_def)
  then have "V2P v = v + KERNBASE" unfolding V2P_def by (simp only: diff_conv_add_uminus)
  moreover have "(unat v + 2147483648) mod 4096 = 0" using assms by (simp add: unat_mod_page mod_add_eq [symmetric])
  ultimately show ?thesis by (simp add: unat_mod_page unat_word_ariths KERNBASE_def mod_mod_cancel)
qed

text \<open>An entry made of an aligned address and flags gives both back.\<close>

lemma entry_parts:
  assumes "pa mod PGSIZE = (0 :: u32)" "fl AND NOT 0xFFF = 0"
  shows "PTE_ADDR (pa OR fl) = pa" "PTE_FLAGS (pa OR fl) = fl"
proof -
  have a: "pa AND 0xFFF = 0" using page_mask [OF assms(1)] .
  have m: "x = (x AND NOT 0xFFF) OR (x AND 0xFFF)" for x :: u32
    by (rule bit_word_eqI) (auto simp: bit_simps)
  have 1: "pa AND NOT 0xFFF = pa" using m [of pa] a by simp
  have 2: "fl AND 0xFFF = fl" using m [of fl] assms(2) by simp
  show "PTE_ADDR (pa OR fl) = pa" "PTE_FLAGS (pa OR fl) = fl"
    unfolding PTE_ADDR_def PTE_FLAGS_def bit.conj_disj_distrib2 1 2 using a assms(2) by simp_all
qed

lemma new_pde:
  assumes "v mod PGSIZE = 0"
  shows "(V2P v OR PTE_P OR PTE_W OR PTE_U) AND PTE_P \<noteq> 0"
    "P2V (PTE_ADDR (V2P v OR PTE_P OR PTE_W OR PTE_U)) = v"
proof -
  have "(x OR PTE_P OR PTE_W OR PTE_U) AND PTE_P = PTE_P" for x
    by (rule bit_word_eqI) (auto simp: PTE_P_def bit_simps)
  then show "(V2P v OR PTE_P OR PTE_W OR PTE_U) AND PTE_P \<noteq> 0" by (simp add: PTE_P_def)
  show "P2V (PTE_ADDR (V2P v OR PTE_P OR PTE_W OR PTE_U)) = v"
    using entry_parts(1) [OF V2P_mod [OF assms], of "PTE_P OR PTE_W OR PTE_U"]
    by (simp add: PTE_P_def PTE_W_def PTE_U_def)
qed

lemma set_entry_sel [simp]:
  "freelist (set_entry e w s) = freelist s" "kernel_end (set_entry e w s) = kernel_end s"
  "pmem (set_entry e w s) = (pmem s)(fst e := put32 (4 * snd e) w (pmem s (fst e)))"
  by (simp_all add: set_entry_def)

lemma zero_page_sel [simp]:
  "freelist (zero_page v s) = freelist s" "kernel_end (zero_page v s) = kernel_end s"
  "pmem (zero_page v s) = (pmem s)(v := kmemset 0 0 4096 (pmem s v))"
  by (simp_all add: zero_page_def)

lemma free_list_frame:
  assumes "free_list s xs" "freelist s' = freelist s" "kernel_end s' = kernel_end s"
    and "\<And>p. p \<in> set xs \<Longrightarrow> pmem s' p = pmem s p"
  shows "free_list s' xs"
  using assms chain_frame [of xs "pmem s'" "pmem s"] by (auto simp: free_list_def page_ok_def)

lemma walkpgdir_alloc:
  assumes fl: "free_list s (t # ys)" and wf: "wf_pgdir s pgdir (t # ys)"
    and abs: "table_at s pgdir (PDX va) = None"
  shows "\<exists>s'. walkpgdir pgdir va True s = (Some (t, PTX va), s') \<and> free_list s' ys \<and> wf_pgdir s' pgdir ys \<and>
     lookup s' pgdir = lookup s pgdir \<and> table_at s' pgdir (PDX va) = Some t \<and> kernel_end s' = kernel_end s"
proof -
  define s1 where "s1 = s\<lparr>freelist := get32 (pmem s t) 0\<rparr>"
  define pde where "pde = V2P t OR PTE_P OR PTE_W OR PTE_U"
  define s' where "s' = set_entry (pgdir, PDX va) pde (zero_page t s1)"
  have al: "kalloc s = (t, s1)" and fl1: "free_list s1 ys" using kalloc_free_list [OF fl] by (simp_all add: s1_def)
  have t: "t \<noteq> 0" "t mod PGSIZE = 0" "t \<notin> set ys" "t \<noteq> pgdir" "pgdir \<notin> set ys"
    using fl wf by (auto simp: free_list_def page_ok_def wf_pgdir_def)
  have walk: "walkpgdir pgdir va True s = (Some (t, PTX va), s')"
    using abs al t(1) by (simp add: walkpgdir_def table_at_def Let_def s'_def pde_def split: if_splits)
  have e1: "entry e s1 = entry e s" for e by (simp add: entry_def s1_def)
  have e2: "entry e (zero_page t s1) = entry e s" if "fst e \<noteq> t" for e
    using that by (simp add: entry_set_page zero_page_def e1)
  have tab: "table_at s' pgdir i = (if i = PDX va then Some t else table_at s pgdir i)" for i
    using t(4) new_pde [OF t(2)] by (simp add: table_at_def s'_def entry_set_entry e2 pde_def)
  have look: "lookup s' pgdir va' = lookup s pgdir va'" for va'
  proof (cases "PDX va' = PDX va")
    case True
    then show ?thesis using abs t(4)
      by (simp add: lookup_def tab) (simp add: s'_def entry_set_entry entry_zero_page)
  next
    case False
    have "t' \<noteq> pgdir \<and> t' \<noteq> t" if "table_at s pgdir (PDX va') = Some t'" for t'
      using wf that PDX_less unfolding wf_pgdir_def by (metis list.set_intros(1))
    with False show ?thesis
      by (auto simp: lookup_def tab split: option.splits) (simp add: s'_def entry_set_entry e2)
  qed
  have "free_list s' ys"
  proof (rule free_list_frame [OF fl1])
    fix p assume "p \<in> set ys"
    then have "p \<noteq> t" "p \<noteq> pgdir" using t by auto
    then show "pmem s' p = pmem s1 p" by (simp add: s'_def)
  qed (simp_all add: s'_def)
  moreover have "wf_pgdir s' pgdir ys"
    using wf t unfolding wf_pgdir_def tab by (auto split: if_splits)
  moreover have "kernel_end s' = kernel_end s" by (simp add: s'_def s1_def)
  ultimately show ?thesis using walk look tab by auto
qed

section \<open>What mappages does\<close>

lemma table_at_set_entry: "p \<noteq> pgdir \<Longrightarrow> table_at (set_entry (p, k) w s) pgdir i = table_at s pgdir i"
  by (simp add: table_at_def entry_set_entry)

text \<open>Storing an entry into a table changes the translation of that one page.\<close>

lemma set_pte:
  assumes wf: "wf_pgdir s pgdir xs" and t: "table_at s pgdir (PDX a) = Some t" and fl: "free_list s xs"
  shows "lookup (set_entry (t, PTX a) w s) pgdir = (\<lambda>va. if pn va = pn a then w else lookup s pgdir va)"
    "wf_pgdir (set_entry (t, PTX a) w s) pgdir xs" "free_list (set_entry (t, PTX a) w s) xs"
proof -
  have tn: "t \<noteq> pgdir" "t \<notin> set xs" using wf t PDX_less unfolding wf_pgdir_def by blast+
  have inj: "PDX va = PDX a" if "table_at s pgdir (PDX va) = Some t" for va
    using wf t that PDX_less unfolding wf_pgdir_def by blast
  have "lookup (set_entry (t, PTX a) w s) pgdir va = (if pn va = pn a then w else lookup s pgdir va)" for va
    using t inj [of va] same_page [of va a]
    by (auto simp: lookup_def table_at_set_entry [OF tn(1)] entry_set_entry split: option.splits)
  then show "lookup (set_entry (t, PTX a) w s) pgdir = (\<lambda>va. if pn va = pn a then w else lookup s pgdir va)"
    by blast
  show "wf_pgdir (set_entry (t, PTX a) w s) pgdir xs"
    using wf unfolding wf_pgdir_def table_at_set_entry [OF tn(1)] .
  show "free_list (set_entry (t, PTX a) w s) xs"
    by (rule free_list_frame [OF fl]) (use tn in auto)
qed

lemma map_one:
  assumes fl: "free_list s xs" and wf: "wf_pgdir s pgdir xs" and ne: "xs = [] \<Longrightarrow> table_at s pgdir (PDX a) \<noteq> None"
  shows "\<exists>t s1 ys. walkpgdir pgdir a True s = (Some (t, PTX a), s1) \<and> entry (t, PTX a) s1 = lookup s pgdir a \<and>
     lookup (set_entry (t, PTX a) w s1) pgdir = (\<lambda>va. if pn va = pn a then w else lookup s pgdir va) \<and>
     wf_pgdir (set_entry (t, PTX a) w s1) pgdir ys \<and> free_list (set_entry (t, PTX a) w s1) ys \<and>
     length xs \<le> length ys + of_bool (table_at s pgdir (PDX a) = None) \<and>
     table_at (set_entry (t, PTX a) w s1) pgdir (PDX a) \<noteq> None"
proof (cases "table_at s pgdir (PDX a)")
  case (Some t)
  have "t \<noteq> pgdir" using wf Some PDX_less unfolding wf_pgdir_def by blast
  with set_pte [OF wf Some fl] Some show ?thesis
    by (intro exI [of _ t] exI [of _ s] exI [of _ xs]) (simp add: walkpgdir_present lookup_def table_at_set_entry)
next
  case None
  with ne obtain t ys where xs: "xs = t # ys" by (cases xs) auto
  from walkpgdir_alloc [OF fl [unfolded xs] wf [unfolded xs] None] obtain s1 where
    s1: "walkpgdir pgdir a True s = (Some (t, PTX a), s1)" "free_list s1 ys" "wf_pgdir s1 pgdir ys"
    "lookup s1 pgdir = lookup s pgdir" "table_at s1 pgdir (PDX a) = Some t" by blast
  have "entry (t, PTX a) s1 = lookup s1 pgdir a" using s1(5) by (simp add: lookup_def)
  moreover have "t \<noteq> pgdir" using s1(3,5) PDX_less unfolding wf_pgdir_def by blast
  ultimately show ?thesis using s1 set_pte [OF s1(3,5,2), unfolded s1(4)] None
    by (intro exI [of _ t] exI [of _ s1] exI [of _ ys]) (simp add: xs table_at_set_entry)
qed

lemma pn_next: "pn a + 1 < 2 ^ 20 \<Longrightarrow> pn (a + PGSIZE) = pn a + 1"
proof -
  assume "pn a + 1 < 2 ^ 20"
  then have "unat a + 4096 < 2 ^ 32" by (simp add: pn_def)
  then have "unat (a + PGSIZE) = unat a + 4096" by (simp add: PGSIZE_def unat_word_ariths)
  then show ?thesis by (simp add: pn_def)
qed

text \<open>The number of page tables that mapping \<open>n\<close> more pages after that of \<open>a\<close> may have to allocate.\<close>

definition tables_needed :: "'a kmem_st_scheme \<Rightarrow> u32 \<Rightarrow> u32 \<Rightarrow> nat \<Rightarrow> nat" where
  "tables_needed s pgdir a n = of_bool (table_at s pgdir (PDX a) = None) + ((pn a + n) div 1024 - pn a div 1024)"

lemma tables_needed_next:
  assumes "table_at s pgdir (PDX a) \<noteq> None" "pn (a + PGSIZE) = pn a + 1"
  shows "tables_needed s pgdir (a + PGSIZE) n \<le> (pn a + Suc n) div 1024 - pn a div 1024"
proof (cases "(pn a + 1) div 1024 = pn a div 1024")
  case True
  then show ?thesis using assms by (auto simp: tables_needed_def PDX_pn)
next
  case False
  then have "(pn a + 1) div 1024 = pn a div 1024 + 1" by (simp add: div_Suc split: if_splits)
  moreover from this have "pn a div 1024 + 1 \<le> (pn a + Suc n) div 1024" by (metis add_Suc_right div_le_mono le_add1 plus_1_eq_Suc add.commute add.assoc)
  ultimately show ?thesis using assms(2) by (auto simp: tables_needed_def intro: diff_le_mono2)
qed

lemma mappages_loop_maps:
  assumes "free_list s xs" "wf_pgdir s pgdir xs" "tables_needed s pgdir a n \<le> length xs" "pn a + n < 2 ^ 20"
    and "\<forall>va. pn a \<le> pn va \<and> pn va \<le> pn a + n \<longrightarrow> lookup s pgdir va AND PTE_P = 0"
  shows "\<exists>s' ys. mappages_loop n pgdir a pa perm s = Inr (0, s') \<and> free_list s' ys \<and> wf_pgdir s' pgdir ys \<and>
     length xs \<le> length ys + tables_needed s pgdir a n \<and>
     lookup s' pgdir = (\<lambda>va. if pn a \<le> pn va \<and> pn va \<le> pn a + n
        then (pa + of_nat (pn va - pn a) * PGSIZE) OR perm OR PTE_P else lookup s pgdir va)"
  using assms
proof (induction n arbitrary: a pa s xs)
  case 0
  have "xs = [] \<Longrightarrow> table_at s pgdir (PDX a) \<noteq> None" using 0(3) by (auto simp: tables_needed_def)
  from map_one [OF 0(1,2) this, where w = "pa OR perm OR PTE_P"] obtain t s1 ys where
    *: "walkpgdir pgdir a True s = (Some (t, PTX a), s1)" "entry (t, PTX a) s1 = lookup s pgdir a"
    "lookup (set_entry (t, PTX a) (pa OR perm OR PTE_P) s1) pgdir =
       (\<lambda>va. if pn va = pn a then pa OR perm OR PTE_P else lookup s pgdir va)"
    "wf_pgdir (set_entry (t, PTX a) (pa OR perm OR PTE_P) s1) pgdir ys"
    "free_list (set_entry (t, PTX a) (pa OR perm OR PTE_P) s1) ys"
    "length xs \<le> length ys + of_bool (table_at s pgdir (PDX a) = None)" by blast
  from 0(5) have "lookup s pgdir a AND PTE_P = 0" by simp
  then have "mappages_loop 0 pgdir a pa perm s = Inr (0, set_entry (t, PTX a) (pa OR perm OR PTE_P) s1)"
    using *(1,2) by (subst mappages_loop.simps) simp
  with * show ?case by (intro exI [of _ "set_entry (t, PTX a) (pa OR perm OR PTE_P) s1"] exI [of _ ys])
      (auto simp: fun_eq_iff tables_needed_def)
next
  case (Suc n)
  let ?w = "pa OR perm OR PTE_P"
  have "xs = [] \<Longrightarrow> table_at s pgdir (PDX a) \<noteq> None" 
    using Suc.prems(3) div_le_mono [of "pn a" "pn a + Suc n" 1024] by (cases "table_at s pgdir (PDX a)") (auto simp: tables_needed_def)
  from map_one [OF Suc.prems(1,2) this, where w = ?w] obtain t s1 ys where
    *: "walkpgdir pgdir a True s = (Some (t, PTX a), s1)" "entry (t, PTX a) s1 = lookup s pgdir a"
    "lookup (set_entry (t, PTX a) ?w s1) pgdir = (\<lambda>va. if pn va = pn a then ?w else lookup s pgdir va)"
    "wf_pgdir (set_entry (t, PTX a) ?w s1) pgdir ys"
    "free_list (set_entry (t, PTX a) ?w s1) ys" "length xs \<le> length ys + of_bool (table_at s pgdir (PDX a) = None)"
    "table_at (set_entry (t, PTX a) ?w s1) pgdir (PDX a) \<noteq> None" by blast
  let ?s = "set_entry (t, PTX a) ?w s1"
  have p1: "pn (a + PGSIZE) = pn a + 1" using pn_next Suc.prems(4) by simp
  from Suc.prems(5) have "lookup s pgdir a AND PTE_P = 0" by simp
  then have loop: "mappages_loop (Suc n) pgdir a pa perm s = mappages_loop n pgdir (a + PGSIZE) (pa + PGSIZE) perm ?s"
    using *(1,2) by (subst mappages_loop.simps) simp
  have fewer: "of_bool (table_at s pgdir (PDX a) = None) + tables_needed ?s pgdir (a + PGSIZE) n \<le> tables_needed s pgdir a (Suc n)"
    using tables_needed_next [OF *(7) p1, of n] by (simp add: tables_needed_def [of s])
  have "tables_needed ?s pgdir (a + PGSIZE) n \<le> length ys" "pn (a + PGSIZE) + n < 2 ^ 20"
    "\<forall>va. pn (a + PGSIZE) \<le> pn va \<and> pn va \<le> pn (a + PGSIZE) + n \<longrightarrow> lookup ?s pgdir va AND PTE_P = 0"
    using Suc.prems(3,4,5) *(3,6) p1 fewer by auto
  from Suc.IH [OF *(5,4) this, of "pa + PGSIZE"] obtain s' zs where
    s': "mappages_loop n pgdir (a + PGSIZE) (pa + PGSIZE) perm ?s = Inr (0, s')" "free_list s' zs"
    "wf_pgdir s' pgdir zs" "length ys \<le> length zs + tables_needed ?s pgdir (a + PGSIZE) n"
    "lookup s' pgdir = (\<lambda>va. if pn (a + PGSIZE) \<le> pn va \<and> pn va \<le> pn (a + PGSIZE) + n
        then (pa + PGSIZE + of_nat (pn va - pn (a + PGSIZE)) * PGSIZE) OR perm OR PTE_P else lookup ?s pgdir va)"
    by blast
  have pa: "pa + PGSIZE + of_nat (pn va - (pn a + 1)) * PGSIZE = pa + of_nat (pn va - pn a) * PGSIZE"
    if "pn a < pn va" for va
    using that by (subst Suc_diff_Suc [symmetric]) (simp_all add: algebra_simps)
  have "lookup s' pgdir = (\<lambda>va. if pn a \<le> pn va \<and> pn va \<le> pn a + Suc n
        then (pa + of_nat (pn va - pn a) * PGSIZE) OR perm OR PTE_P else lookup s pgdir va)"
  proof (rule ext)
    fix va
    consider "pn va < pn a \<or> pn a + Suc n < pn va" | "pn va = pn a" | "pn a < pn va" "pn va \<le> pn a + Suc n"
      by linarith
    then show "lookup s' pgdir va = (if pn a \<le> pn va \<and> pn va \<le> pn a + Suc n
        then (pa + of_nat (pn va - pn a) * PGSIZE) OR perm OR PTE_P else lookup s pgdir va)"
    proof cases
      case 3
      then show ?thesis unfolding s'(5) *(3) p1 pa [OF 3(1)] by simp
    qed (auto simp: s'(5) *(3) p1)
  qed
  with s' loop *(6) fewer show ?case by (intro exI [of _ s'] exI [of _ zs]) simp
qed

lemma unat_PGROUNDDOWN: "unat (PGROUNDDOWN va) = 4096 * pn va"
proof -
  have "va mod PGSIZE \<le> va" by (simp add: word_le_nat_alt PGSIZE_def unat_mod_distrib)
  then have "unat (PGROUNDDOWN va) = unat va - unat va mod 4096"
    by (simp add: PGROUNDDOWN_eq unat_sub PGSIZE_def unat_mod_distrib)
  then show ?thesis by (simp add: pn_def minus_mod_eq_mult_div)
qed

lemma pn_PGROUNDDOWN [simp]: "pn (PGROUNDDOWN va) = pn va"
  by (simp add: pn_def [of "PGROUNDDOWN va"] unat_PGROUNDDOWN)

lemma pn_less: "pn va < 2 ^ 20"
  using unsigned_less [of va, where 'a = nat] by (simp add: pn_def)

lemma pages_between:
  assumes "a \<le> b"
  shows "unat ((PGROUNDDOWN b - PGROUNDDOWN a) div PGSIZE) = pn b - pn a"
proof -
  have "pn a \<le> pn b" using assms by (simp add: pn_def word_le_nat_alt div_le_mono)
  then have "PGROUNDDOWN a \<le> PGROUNDDOWN b" by (simp add: word_le_nat_alt unat_PGROUNDDOWN)
  then have "unat (PGROUNDDOWN b - PGROUNDDOWN a) = 4096 * (pn b - pn a)"
    by (simp add: unat_sub unat_PGROUNDDOWN diff_mult_distrib2)
  then show ?thesis by (simp add: unat_div_distrib PGSIZE_def)
qed

lemma mappages_maps:
  assumes "free_list s xs" "wf_pgdir s pgdir xs" "va \<le> va + sz - 1"
    and "PDX (va + sz - 1) - PDX va < length xs"
    and "\<forall>v. pn va \<le> pn v \<and> pn v \<le> pn (va + sz - 1) \<longrightarrow> lookup s pgdir v AND PTE_P = 0"
  shows "\<exists>s' ys. mappages pgdir va sz pa perm s = Inr (0, s') \<and> free_list s' ys \<and> wf_pgdir s' pgdir ys \<and>
     length xs \<le> length ys + Suc (PDX (va + sz - 1) - PDX va) \<and>
     lookup s' pgdir = (\<lambda>v. if pn va \<le> pn v \<and> pn v \<le> pn (va + sz - 1)
        then (pa + of_nat (pn v - pn va) * PGSIZE) OR perm OR PTE_P else lookup s pgdir v)"
proof -
  let ?n = "pn (va + sz - 1) - pn va" and ?a = "PGROUNDDOWN va"
  have le: "pn va \<le> pn (va + sz - 1)" using assms(3) by (simp add: pn_def word_le_nat_alt div_le_mono)
  then have need: "tables_needed s pgdir ?a ?n \<le> Suc (PDX (va + sz - 1) - PDX va)" by (simp add: tables_needed_def PDX_pn Suc_diff_le div_le_mono)
  then obtain s' ys where "mappages_loop ?n pgdir ?a pa perm s = Inr (0, s')" "free_list s' ys"
     "wf_pgdir s' pgdir ys" "length xs \<le> length ys + tables_needed s pgdir ?a ?n"
     "lookup s' pgdir = (\<lambda>v. if pn ?a \<le> pn v \<and> pn v \<le> pn ?a + ?n
        then (pa + of_nat (pn v - pn ?a) * PGSIZE) OR perm OR PTE_P else lookup s pgdir v)"
    using mappages_loop_maps [OF assms(1,2), of ?a ?n pa perm] assms(4,5) pn_less [of "va + sz - 1"] le by auto
  then show ?thesis using le need unfolding pn_PGROUNDDOWN
    by (auto simp: mappages_def pages_between [OF assms(3)] intro: order_trans)
qed

text \<open>
  (C30) \<open>mappages\<close> maps exactly the pages of the given range: if none of them is mapped yet
  and there are as many free pages as page tables may be missing (one for each 4 megabytes the range touches), it
  returns 0, the entry of each page of the range is its physical page with the given
  permissions and the present bit, every other entry is unchanged, and the directory, its
  tables and the free list are well-formed again.
\<close>

theorem mappages_maps_range:
  assumes "free_list s xs" "wf_pgdir s pgdir xs" "va \<le> va + sz - 1"
    and "PDX (va + sz - 1) - PDX va < length xs"
    and "\<forall>v. pn va \<le> pn v \<and> pn v \<le> pn (va + sz - 1) \<longrightarrow> lookup s pgdir v AND PTE_P = 0"
  shows "\<exists>s' ys. mappages pgdir va sz pa perm s = Inr (0, s') \<and> free_list s' ys \<and> wf_pgdir s' pgdir ys \<and>
     length xs \<le> length ys + Suc (PDX (va + sz - 1) - PDX va) \<and>
     lookup s' pgdir = (\<lambda>v. if pn va \<le> pn v \<and> pn v \<le> pn (va + sz - 1)
        then (pa + of_nat (pn v - pn va) * PGSIZE) OR perm OR PTE_P else lookup s pgdir v)"
  by (rule mappages_maps [OF assms])

definition one_free :: kmem_st where
  "one_free = small_kmem\<lparr>freelist := 0x80101000\<rparr>"

lemma one_free_zero: "pmem one_free = (\<lambda>_ _. 0)" "freelist one_free = 0x80101000" "kernel_end one_free = 0x80100000"
  by (simp_all add: one_free_def small_kmem_end) (simp add: small_kmem_def ptable_st.defs)

lemma one_free_ok: "free_list one_free [0x80101000]" "wf_pgdir one_free 0x80200000 [0x80101000]"
  "lookup one_free 0x80200000 v = 0"
  by (simp_all add: free_list_def page_ok_def one_free_zero get32_def PGSIZE_def V2P_def KERNBASE_def PHYSTOP_def
      wf_pgdir_def table_at_def entry_def lookup_def)

theorem mappages_maps_range_witness:
  "\<exists>s'. mappages 0x80200000 0 4096 0x5000 6 one_free = Inr (0, s') \<and> lookup s' 0x80200000 16 = 0x5007"
proof -
  have p: "pn 0 = 0" "pn (0 + 4096 - 1) = 0" "pn 16 = 0" by (simp_all add: pn_def)
  have "\<exists>s' ys. mappages 0x80200000 0 4096 0x5000 6 one_free = Inr (0, s') \<and> free_list s' ys \<and>
     wf_pgdir s' 0x80200000 ys \<and> length [0x80101000 :: u32] \<le> length ys + Suc (PDX (0 + 4096 - 1) - PDX 0) \<and>
     lookup s' 0x80200000 = (\<lambda>v. if pn 0 \<le> pn v \<and> pn v \<le> pn (0 + 4096 - 1)
        then (0x5000 + of_nat (pn v - pn 0) * PGSIZE) OR 6 OR PTE_P else lookup one_free 0x80200000 v)"
    by (rule mappages_maps_range [OF one_free_ok(1,2)]) (simp_all add: one_free_ok(3) pn_def PDX_def)
  then show ?thesis unfolding p by (auto simp: p PTE_P_def)
qed

end
