(* ===== verification/Syscall_Args.thy ===== *)
theory Syscall_Args
  imports Vm
begin

text \<open>
  How a system call gets at its arguments, \<open>syscall.c\<close>: \<open>fetchint\<close>, \<open>fetchstr\<close>, \<open>argint\<close>,
  \<open>argptr\<close> and \<open>argstr\<close>. The kernel reads and writes user memory through the page table of the
  current process; \<open>uload\<close> and \<open>ustore\<close> are these accesses, with a page fault in the kernel as a
  fault. The theorems show that what \<open>argptr\<close> lets through lies inside the process and that
  \<open>argstr\<close> returns the string up to its terminator.
\<close>

section \<open>User memory\<close>

text \<open>
  The translation of a user address: the page that is mapped there, by its kernel address, and
  the offset. A store needs a writable page (\<open>CR0_WP\<close> is set in \<open>entry.S\<close>).
\<close>

definition upage :: "bool \<Rightarrow> u32 \<Rightarrow> 'a kmem_st_scheme \<Rightarrow> (u32 \<times> nat) res" where
  "upage wr va s =
     bnd (getp (cpu_proc s) s) (\<lambda>p.
     case walkpgdir (p_pgdir p) va False s of
       (None, _) \<Rightarrow> Inl (Wild ''page fault'')
     | (Some e, _) \<Rightarrow>
         if entry e s AND PTE_P = 0 \<or> wr \<and> entry e s AND PTE_W = 0 then Inl (Wild ''page fault'')
         else Inr (P2V (PTE_ADDR (entry e s)), unat va mod 4096))"

definition uload :: "u32 \<Rightarrow> 'a kmem_st_scheme \<Rightarrow> u8 res" where
  "uload va s = bnd (upage False va s) (\<lambda>(pg, off). Inr (pmem s pg off))"

definition ustore :: "u32 \<Rightarrow> u8 \<Rightarrow> 'a kmem_st_scheme \<Rightarrow> 'a kmem_st_scheme res" where
  "ustore va b s = bnd (upage True va s) (\<lambda>(pg, off). Inr (set_page pg ((pmem s pg)(off := b)) s))"

fun uload_bytes :: "u32 \<Rightarrow> nat \<Rightarrow> 'a kmem_st_scheme \<Rightarrow> u8 list res" where
  "uload_bytes va 0 s = Inr []"
| "uload_bytes va (Suc n) s = bnd (uload va s) (\<lambda>b. bnd (uload_bytes (va + 1) n s) (\<lambda>bs. Inr (b # bs)))"

fun ustore_bytes :: "u32 \<Rightarrow> u8 list \<Rightarrow> 'a kmem_st_scheme \<Rightarrow> 'a kmem_st_scheme res" where
  "ustore_bytes va [] s = Inr s"
| "ustore_bytes va (b # bs) s = bnd (ustore va b s) (ustore_bytes (va + 1) bs)"

definition uload32 :: "u32 \<Rightarrow> 'a kmem_st_scheme \<Rightarrow> u32 res" where
  "uload32 va s = bnd (uload_bytes va 4 s) (\<lambda>bs. Inr (get32 (mem_of bs) 0))"

definition ustore32 :: "u32 \<Rightarrow> u32 \<Rightarrow> 'a kmem_st_scheme \<Rightarrow> 'a kmem_st_scheme res" where
  "ustore32 va w s = ustore_bytes va (bytes_at (put32 0 w (\<lambda>_. 0)) 0 4) s"

text \<open>The bytes of an array of words.\<close>

definition words_bytes :: "u32 list \<Rightarrow> u8 list" where
  "words_bytes ws = concat (map (\<lambda>w. bytes_at (put32 0 w (\<lambda>_. 0)) 0 4) ws)"

section \<open>Arguments\<close>

text \<open>An argument that is refused is \<^term>\<open>None\<close>: the C function returns -1.\<close>

definition fetchint :: "u32 \<Rightarrow> 'a kmem_st_scheme \<Rightarrow> int option res" where
  "fetchint addr s =
     bnd (getp (cpu_proc s) s) (\<lambda>curproc.
     if addr \<ge> p_sz curproc \<or> addr + 4 > p_sz curproc then Inr None
     else bnd (uload32 addr s) (\<lambda>w. Inr (Some (int_of_uint w))))"

lemma unat_succ: "a < ep \<Longrightarrow> unat (a + 1) = Suc (unat a)" for a ep :: u32
  using unsigned_less [of ep, where 'a = nat] by (simp add: word_less_nat_alt unat_word_ariths)

text \<open>The scan of \<open>fetchstr\<close> from \<open>a\<close> up to \<open>ep\<close>: the bytes before the terminator.\<close>

function fetchstr_loop :: "u32 \<Rightarrow> u32 \<Rightarrow> 'a kmem_st_scheme \<Rightarrow> u8 list option res" where
  "fetchstr_loop a ep s =
     (if a < ep
      then bnd (uload a s) (\<lambda>b.
             if b = 0 then Inr (Some [])
             else bnd (fetchstr_loop (a + 1) ep s) (\<lambda>r. Inr (map_option ((#) b) r)))
      else Inr None)"
  by pat_completeness auto

termination
proof (relation "measure (\<lambda>(a, ep, s). unat ep - unat a)")
  fix a ep :: u32 and s :: "'a kmem_st_scheme" and x
  assume "a < ep"
  with unat_succ [OF this] show "((a + 1, ep, s), a, ep, s) \<in> measure (\<lambda>(a, ep, s). unat ep - unat a)"
    by (simp add: word_less_nat_alt)
qed simp

declare fetchstr_loop.simps [simp del]

text \<open>The value is the string that \<open>*pp\<close> points to; the C function returns its length.\<close>

definition fetchstr :: "u32 \<Rightarrow> 'a kmem_st_scheme \<Rightarrow> u8 list option res" where
  "fetchstr addr s =
     bnd (getp (cpu_proc s) s) (\<lambda>curproc.
     if addr \<ge> p_sz curproc then Inr None else fetchstr_loop addr (p_sz curproc) s)"

definition argint :: "int \<Rightarrow> 'a kmem_st_scheme \<Rightarrow> int option res" where
  "argint n s = bnd (getp (cpu_proc s) s) (\<lambda>p. fetchint (tf_esp (p_tf p) + 4 + 4 * uint_of_int n) s)"

definition argptr :: "int \<Rightarrow> int \<Rightarrow> 'a kmem_st_scheme \<Rightarrow> u32 option res" where
  "argptr n sz s =
     bnd (getp (cpu_proc s) s) (\<lambda>curproc.
     bnd (argint n s) (\<lambda>r. case r of
        None \<Rightarrow> Inr None
      | Some i \<Rightarrow>
          if sz < 0 \<or> uint_of_int i \<ge> p_sz curproc \<or> uint_of_int i + uint_of_int sz > p_sz curproc
          then Inr None else Inr (Some (uint_of_int i))))"

definition argstr :: "int \<Rightarrow> 'a kmem_st_scheme \<Rightarrow> u8 list option res" where
  "argstr n s =
     bnd (argint n s) (\<lambda>r. case r of None \<Rightarrow> Inr None | Some addr \<Rightarrow> fetchstr (uint_of_int addr) s)"

text \<open>A call that returns -1 when an argument is refused.\<close>

definition with_arg :: "'x option res \<Rightarrow> 's \<Rightarrow> ('x \<Rightarrow> (int \<times> 's) res) \<Rightarrow> (int \<times> 's) res" where
  "with_arg m s f = bnd m (\<lambda>r. case r of None \<Rightarrow> Inr (-1, s) | Some x \<Rightarrow> f x)"

section \<open>What gets through\<close>

lemma fetchstr_loop_Some:
  "fetchstr_loop a ep s = Inr (Some str) \<Longrightarrow>
     0 \<notin> set str \<and> uload_bytes a (Suc (length str)) s = Inr (str @ [0]) \<and> unat a + length str < unat ep"
proof (induction a ep s arbitrary: str rule: fetchstr_loop.induct)
  case (1 a ep s)
  from 1(2) have a: "a < ep" by (subst (asm) fetchstr_loop.simps) (auto split: if_splits)
  with 1(2) obtain b where b: "uload a s = Inr b" by (subst (asm) fetchstr_loop.simps) (auto simp: res_iff)
  show ?case
  proof (cases "b = 0")
    case True
    with 1(2) a b have "str = []" by (subst (asm) fetchstr_loop.simps) auto
    with True a b show ?thesis by (simp add: word_less_nat_alt)
  next
    case False
    with 1(2) a b obtain str' where s': "fetchstr_loop (a + 1) ep s = Inr (Some str')" "str = b # str'"
      by (subst (asm) fetchstr_loop.simps) (auto simp: res_iff)
    from 1(1) [OF a b False s'(1)] s'(2) False b show ?thesis by (simp add: unat_succ [OF a])
  qed
qed

lemma fetchstr_loop_None:
  "fetchstr_loop a ep s = Inr None \<Longrightarrow> unat a + k < unat ep \<Longrightarrow> \<exists>b. uload (a + of_nat k) s = Inr b \<and> b \<noteq> 0"
proof (induction a ep s arbitrary: k rule: fetchstr_loop.induct)
  case (1 a ep s)
  from 1(3) have a: "a < ep" by (simp add: word_less_nat_alt)
  with 1(2) obtain b where b: "uload a s = Inr b" "b \<noteq> 0" "fetchstr_loop (a + 1) ep s = Inr None"
    by (subst (asm) fetchstr_loop.simps) (auto simp: res_iff split: if_splits)
  show ?case
  proof (cases k)
    case 0
    with b show ?thesis by simp
  next
    case (Suc j)
    with 1(1) [OF a b(1,2,3), of j] 1(3) show ?thesis by (simp add: unat_succ [OF a] add.assoc)
  qed
qed

lemma fetchstr_loop_total:
  "(\<And>k. unat a + k < unat ep \<Longrightarrow> \<exists>b. uload (a + of_nat k) s = Inr b) \<Longrightarrow> \<exists>r. fetchstr_loop a ep s = Inr r"
proof (induction a ep s rule: fetchstr_loop.induct)
  case (1 a ep s)
  show ?case
  proof (cases "a < ep")
    case True
    then obtain b where b: "uload a s = Inr b" using 1(2) [of 0] by (auto simp: word_less_nat_alt)
    show ?thesis
    proof (cases "b = 0")
      case False
      have "\<exists>r. fetchstr_loop (a + 1) ep s = Inr r"
        using 1(2) [of "Suc k" for k] by (intro 1(1) [OF True b False]) (simp add: unat_succ [OF True] add.assoc)
      with True b False show ?thesis by (subst fetchstr_loop.simps) auto
    qed (use True b in \<open>subst fetchstr_loop.simps, simp\<close>)
  qed (subst fetchstr_loop.simps, simp)
qed

section \<open>Properties\<close>

text \<open>A process with one page of memory: at address 4 the value 100, at 100 the string \<open>hi\<close>.\<close>

definition one_page :: kmem_st where
  "one_page = small_kmem\<lparr>
     procs := [zero_proc\<lparr>p_state := RUNNING, p_pid := 1, p_sz := 4096, p_pgdir := 0x80001000\<rparr>], cpu_proc := Some 0,
     pmem := (\<lambda>_ _. 0)(0x80001000 := put32 0 0x2007 (\<lambda>_. 0), 0x80002000 := put32 0 0x3007 (\<lambda>_. 0),
                       0x80003000 := put_bytes 100 [104, 105] (put32 4 100 (\<lambda>_. 0)))\<rparr>"

lemma uload_bytes_numeral [simp]:
  "uload_bytes va (numeral k) s =
     bnd (uload va s) (\<lambda>b. bnd (uload_bytes (va + 1) (pred_numeral k) s) (\<lambda>bs. Inr (b # bs)))"
  by (simp add: numeral_eq_Suc)

lemma one_page_sel [simp]:
  "procs one_page = [zero_proc\<lparr>p_state := RUNNING, p_pid := 1, p_sz := 4096, p_pgdir := 0x80001000\<rparr>]"
  "cpu_proc one_page = Some 0"
  "pmem one_page 0x80001000 = put32 0 0x2007 (\<lambda>_. 0)" "pmem one_page 0x80002000 = put32 0 0x3007 (\<lambda>_. 0)"
  "pmem one_page 0x80003000 = put_bytes 100 [104, 105] (put32 4 100 (\<lambda>_. 0))"
  by (simp_all add: one_page_def)

lemma one_page_upage:
  assumes "va < 4096"
  shows "upage w va one_page = Inr (0x80003000, unat va)"
proof -
  have v: "unat va < 4096" using assms by (simp add: word_less_nat_alt)
  then have p: "PDX va = 0" "PTX va = 0" "unat va mod 4096 = unat va" by (simp_all add: PDX_pn PTX_pn pn_def)
  have e: "entry (0x80001000, 0) one_page = 0x2007" "entry (0x80002000, 0) one_page = 0x3007"
    by (simp_all add: entry_def)
  have a: "P2V (PTE_ADDR 0x2007) = 0x80002000" "P2V (PTE_ADDR 0x3007) = 0x80003000"
    by (simp_all add: P2V_def PTE_ADDR_def KERNBASE_def)
  show ?thesis by (simp add: upage_def walkpgdir_def p e a PTE_P_def PTE_W_def zero_proc_def)
qed

lemma one_page_uload: "va < 4096 \<Longrightarrow> uload va one_page = Inr (put_bytes 100 [104, 105] (put32 4 100 (\<lambda>_. 0)) (unat va))"
  by (simp add: uload_def one_page_upage)

text \<open>
  (C29) A pointer argument that \<open>argptr\<close> accepts, with the size the caller asks for, lies inside the
  memory of the process: the sum of the two does not wrap around. The kernel keeps user memory
  below \<open>KERNBASE\<close>, and the size is a C \<open>int\<close>.
\<close>

theorem argptr_inside:
  assumes "argptr n sz s = Inr (Some a)" "getp (cpu_proc s) s = Inr p"
    and "p_sz p \<le> KERNBASE" "sz < 2 ^ 31"
  shows "0 \<le> sz \<and> unat a + nat sz \<le> unat (p_sz p)"
proof -
  from assms(1,2) have a: "0 \<le> sz" "a < p_sz p" "a + uint_of_int sz \<le> p_sz p"
    by (auto simp: argptr_def res_iff not_le not_less split: option.splits if_splits)
  have n: "unat (uint_of_int sz) = nat sz"
    using a(1) assms(4) by (simp add: uint_of_int_def unsigned_of_int nat_take_bit_eq take_bit_nat_eq_self)
  have "unat a < 2 ^ 31" using a(2) assms(3) by (simp add: KERNBASE_def word_less_nat_alt word_le_nat_alt)
  with n a(1) assms(4) have "unat (a + uint_of_int sz) = unat a + nat sz"
    by (simp add: unat_word_ariths nat_less_iff)
  with a show ?thesis by (simp add: word_le_nat_alt)
qed

theorem argptr_inside_witness:
  "argptr 0 3996 one_page = Inr (Some 100) \<and> unat (100 :: u32) + nat 3996 \<le> unat (4096 :: u32)"
proof -
  have r: "argptr 0 3996 one_page = Inr (Some 100)"
  proof -
    have "uload_bytes 4 4 one_page = Inr [100, 0, 0, 0]"
      by (simp add: one_page_uload put_bytes_def put32_def)
    then have "uload32 4 one_page = Inr 100" by (simp add: uload32_def get32_def mem_of_def put_bytes_def)
    then show ?thesis by (simp add: argptr_def argint_def fetchint_def zero_proc_def zero_tf_def uint_of_int_def int_of_uint_def)
  qed
  have g: "getp (cpu_proc one_page) one_page = Inr (proc_at one_page 0)" "p_sz (proc_at one_page 0) = 4096"
    by (simp_all add: one_page_def)
  from argptr_inside [OF r g(1)] r g(2) show ?thesis by (simp add: KERNBASE_def)
qed

text \<open>
  Where the memory of the process is mapped, \<open>fetchstr\<close> always returns: with the bytes up to the
  first zero, all inside the process, or, exactly when there is no zero up to its end, with -1.
\<close>

theorem fetchstr_string:
  assumes "getp (cpu_proc s) s = Inr p" "addr < p_sz p"
    and "\<And>k. unat addr + k < unat (p_sz p) \<Longrightarrow> \<exists>b. uload (addr + of_nat k) s = Inr b"
  shows "(\<exists>str. fetchstr addr s = Inr (Some str) \<and> 0 \<notin> set str \<and>
            uload_bytes addr (Suc (length str)) s = Inr (str @ [0]) \<and> unat addr + length str < unat (p_sz p)) \<or>
         (fetchstr addr s = Inr None \<and>
            (\<forall>k. unat addr + k < unat (p_sz p) \<longrightarrow> (\<exists>b. uload (addr + of_nat k) s = Inr b \<and> b \<noteq> 0)))"
proof -
  have f: "fetchstr addr s = fetchstr_loop addr (p_sz p) s" using assms(1,2) by (simp add: fetchstr_def flip: not_less)
  obtain r where r: "fetchstr_loop addr (p_sz p) s = Inr r"
    using fetchstr_loop_total [of addr "p_sz p" s] assms(3) by blast
  show ?thesis
  proof (cases r)
    case None
    with r show ?thesis unfolding f using fetchstr_loop_None by blast
  next
    case (Some str)
    with r show ?thesis unfolding f using fetchstr_loop_Some by blast
  qed
qed

theorem fetchstr_string_witness: "\<exists>str. fetchstr 100 one_page = Inr (Some str) \<and> uload_bytes 100 (Suc (length str)) one_page = Inr (str @ [0])"
proof -
  have u: "\<exists>b. uload (100 + of_nat k) one_page = Inr b" if "unat (100 :: u32) + k < unat (4096 :: u32)" for k
  proof -
    have "(100 :: u32) + of_nat k < 4096" using that
      by (simp add: word_less_nat_alt unat_word_ariths unsigned_of_nat take_bit_eq_mod)
    then show ?thesis by (simp add: one_page_uload)
  qed
  have z: "uload (100 + of_nat 2) one_page = Inr 0" by (simp add: one_page_uload put_bytes_def put32_def)
  have g: "getp (cpu_proc one_page) one_page = Inr (proc_at one_page 0)" "p_sz (proc_at one_page 0) = 4096" by simp_all
  have l: "(100 :: u32) < 4096" by simp
  from z have "\<not> (\<forall>k. unat (100 :: u32) + k < unat (4096 :: u32) \<longrightarrow> (\<exists>b. uload (100 + of_nat k) one_page = Inr b \<and> b \<noteq> 0))"
    by (intro notI) (drule spec [of _ 2], simp)
  with fetchstr_string [OF g(1), of 100, unfolded g(2), OF l u] show ?thesis by blast
qed

end
