(* ===== verification/Sleeplock.thy ===== *)
theory Sleeplock
  imports Proc_Table
begin

text \<open>
  The sleep-locks of \<open>sleeplock.c\<close>. The spin lock inside one is held over the whole of each
  function, so a call is one step; a caller that finds the lock taken goes to sleep, which
  is the fault \<^term>\<open>Asleep ch\<close> with the lock's channel. \<open>wakeup\<close> is that of \<open>proc.c\<close>.
\<close>

record sleeplock =
  sl_locked :: u32
  sl_pid :: int

definition initsleeplock :: sleeplock where
  "initsleeplock = \<lparr>sl_locked = 0, sl_pid = 0\<rparr>"

text \<open>\<open>myproc()->pid\<close>\<close>

definition mypid :: "'a ptable_st_scheme \<Rightarrow> int res" where
  "mypid s = bnd (getp (cpu_proc s) s) (\<lambda>pr. Inr (p_pid pr))"

definition acquiresleep :: "chan \<Rightarrow> sleeplock \<Rightarrow> 'a ptable_st_scheme \<Rightarrow> sleeplock res" where
  "acquiresleep ch lk s =
     (if sl_locked lk \<noteq> 0 then Inl (Asleep ch)
      else bnd (mypid s) (\<lambda>pid. Inr \<lparr>sl_locked = 1, sl_pid = pid\<rparr>))"

definition releasesleep :: "chan \<Rightarrow> sleeplock \<Rightarrow> 'a ptable_st_scheme \<Rightarrow> sleeplock \<times> 'a ptable_st_scheme" where
  "releasesleep ch lk s = (\<lparr>sl_locked = 0, sl_pid = 0\<rparr>, wakeup ch s)"

definition holdingsleep :: "sleeplock \<Rightarrow> 'a ptable_st_scheme \<Rightarrow> bool res" where
  "holdingsleep lk s =
     (if sl_locked lk \<noteq> 0 then bnd (mypid s) (\<lambda>pid. Inr (sl_pid lk = pid)) else Inr False)"

lemma wakeup_sel [simp]:
  "length (procs (wakeup ch s)) = length (procs s)"
  "cpu_proc (wakeup ch s) = cpu_proc s"
  "i < length (procs s) \<Longrightarrow> p_pid (proc_at (wakeup ch s) i) = p_pid (proc_at s i)"
  by (simp_all add: wakeup_def wakeup1_def wake_proc_def)

lemma mypid_wakeup [simp]: "mypid (wakeup ch s) = mypid s"
  by (cases "cpu_proc s") (auto simp: mypid_def getp_def aget_def)

text \<open>
  A lock that was free is held by the process that acquires it, and by no other process,
  until it releases it.
\<close>

lemma acquiresleep_holding:
  assumes "acquiresleep ch lk s = Inr lk'"
  shows "sl_locked lk = 0" "holdingsleep lk' s = Inr True" "mypid s = Inr (sl_pid lk')"
  using assms by (auto simp: acquiresleep_def holdingsleep_def bnd_Inr_iff split: if_splits)

lemma releasesleep_free: "holdingsleep (fst (releasesleep ch lk s)) s' = Inr False"
  by (simp add: releasesleep_def holdingsleep_def)

end
