(* ===== verification/Block_Layer.thy ===== *)
theory Block_Layer
  imports Cstring
begin

text \<open>
  What the log and the file system rely on when they use the buffer cache. The interface is
  stated over the view \<open>content\<close> of the disk's blocks: a block is opened (\<open>rd\<close>), its data
  are read (\<open>dat\<close>) or changed (\<open>put\<close>), it may be written to the disk (\<open>wr\<close>) or marked to
  stay in the cache (\<open>pin\<close>), and it is closed (\<open>rel\<close>) either unchanged from the disk or
  pinned. Theory \<open>Bio\<close> interprets it with \<open>bread\<close>, \<open>bwrite\<close>, the setting of \<open>B_DIRTY\<close>
  and \<open>brelse\<close>.
\<close>

locale block_layer =
  fixes inv :: "'s \<Rightarrow> bool"
    and content :: "'s \<Rightarrow> u32 \<Rightarrow> bytes"
    and dsk :: "'s \<Rightarrow> u32 \<Rightarrow> bytes"
    and writes :: "'s \<Rightarrow> (u32 \<times> bytes) list"
    and pinned :: "'s \<Rightarrow> u32 \<Rightarrow> bool"
    and opened :: "'s \<Rightarrow> (nat \<times> u32) set"
    and room :: "'s \<Rightarrow> nat"
    and nblocks :: "'s \<Rightarrow> u32"
    and rest :: "'s \<Rightarrow> 'r"
    and rd :: "u32 \<Rightarrow> 's \<Rightarrow> (nat \<times> 's) res"
    and dat :: "nat \<Rightarrow> 's \<Rightarrow> bytes"
    and put :: "nat \<Rightarrow> bytes \<Rightarrow> 's \<Rightarrow> 's"
    and pin :: "nat \<Rightarrow> 's \<Rightarrow> 's"
    and wr :: "nat \<Rightarrow> 's \<Rightarrow> 's res"
    and rel :: "nat \<Rightarrow> 's \<Rightarrow> 's res"
  assumes rd_law: "inv s \<Longrightarrow> b < nblocks s \<Longrightarrow> b \<notin> snd ` opened s \<Longrightarrow> pinned s b \<or> 0 < room s \<Longrightarrow>
      \<exists>i s'. rd b s = Inr (i, s') \<and> inv s' \<and> i \<notin> fst ` opened s \<and> opened s' = insert (i, b) (opened s) \<and>
        content s' = content s \<and> dsk s' = dsk s \<and> writes s' = writes s \<and> pinned s' = pinned s \<and>
        nblocks s' = nblocks s \<and> rest s' = rest s \<and> room s = room s' + (if pinned s b then 0 else 1)"
    and dat_law: "inv s \<Longrightarrow> (i, b) \<in> opened s \<Longrightarrow> dat i s = content s b"
    and put_law: "inv s \<Longrightarrow> (i, b) \<in> opened s \<Longrightarrow>
        inv (put i d s) \<and> content (put i d s) = (content s)(b := d) \<and> opened (put i d s) = opened s \<and>
        dsk (put i d s) = dsk s \<and> writes (put i d s) = writes s \<and> pinned (put i d s) = pinned s \<and>
        nblocks (put i d s) = nblocks s \<and> rest (put i d s) = rest s \<and> room (put i d s) = room s"
    and pin_law: "inv s \<Longrightarrow> (i, b) \<in> opened s \<Longrightarrow>
        inv (pin i s) \<and> content (pin i s) = content s \<and> opened (pin i s) = opened s \<and>
        dsk (pin i s) = dsk s \<and> writes (pin i s) = writes s \<and> pinned (pin i s) = (pinned s)(b := True) \<and>
        nblocks (pin i s) = nblocks s \<and> rest (pin i s) = rest s \<and> room (pin i s) = room s"
    and wr_law: "inv s \<Longrightarrow> (i, b) \<in> opened s \<Longrightarrow>
      \<exists>s'. wr i s = Inr s' \<and> inv s' \<and> opened s' = opened s \<and> content s' = content s \<and>
        dsk s' = (dsk s)(b := content s b) \<and> writes s' = (b, content s b) # writes s \<and>
        pinned s' = (pinned s)(b := False) \<and> nblocks s' = nblocks s \<and> rest s' = rest s \<and> room s' = room s"
    and rel_law: "inv s \<Longrightarrow> (i, b) \<in> opened s \<Longrightarrow> pinned s b \<or> dsk s b = content s b \<Longrightarrow>
      \<exists>s'. rel i s = Inr s' \<and> inv s' \<and> opened s' = opened s - {(i, b)} \<and> content s' = content s \<and>
        dsk s' = dsk s \<and> writes s' = writes s \<and> pinned s' = pinned s \<and>
        nblocks s' = nblocks s \<and> rest s' = rest s \<and> room s' = room s + (if pinned s b then 0 else 1)"
    and clean_law: "inv s \<Longrightarrow> b \<notin> snd ` opened s \<Longrightarrow> \<not> pinned s b \<Longrightarrow> content s b = dsk s b"
begin

text \<open>Copying an open block to another open one and writing that to the disk, then closing both.\<close>

lemma copy_open:
  assumes "inv s" "(i, a) \<in> opened s" "(j, b) \<in> opened s" "a \<noteq> b" "i \<noteq> j"
    and "pinned s a \<or> dsk s a = content s a"
  shows "\<exists>s'. bnd (wr j (put j (dat i s) s)) (\<lambda>s. bnd (rel i s) (rel j)) = Inr s' \<and> inv s' \<and>
     opened s' = opened s - {(i, a), (j, b)} \<and> content s' = (content s)(b := content s a) \<and>
     dsk s' = (dsk s)(b := content s a) \<and> writes s' = (b, content s a) # writes s \<and>
     pinned s' = (pinned s)(b := False) \<and> nblocks s' = nblocks s \<and> rest s' = rest s \<and>
     room s' = room s + (if pinned s a then 0 else 1) + 1"
proof -
  let ?s1 = "put j (dat i s) s"
  have d: "dat i s = content s a" using dat_law assms(1,2) by blast
  note p = put_law [OF assms(1,3), of "dat i s"]
  from wr_law [of ?s1 j b] p assms(3) d obtain s2 where
    s2: "wr j ?s1 = Inr s2" "inv s2" "opened s2 = opened s" "content s2 = (content s)(b := content s a)"
    "dsk s2 = (dsk s)(b := content s a)" "writes s2 = (b, content s a) # writes s"
    "pinned s2 = (pinned s)(b := False)" "nblocks s2 = nblocks s" "rest s2 = rest s" "room s2 = room s" by auto
  have "pinned s2 a \<or> dsk s2 a = content s2 a" using s2 assms(4,6) by auto
  from rel_law [OF s2(2) _ this, of i] s2(3) assms(2) obtain s3 where
    s3: "rel i s2 = Inr s3" "inv s3" "opened s3 = opened s - {(i, a)}" "content s3 = content s2"
    "dsk s3 = dsk s2" "writes s3 = writes s2" "pinned s3 = pinned s2" "nblocks s3 = nblocks s2"
    "rest s3 = rest s2" "room s3 = room s + (if pinned s a then 0 else 1)"
    using s2(7,10) assms(4) by auto
  have "(j, b) \<in> opened s3" using s3(3) assms(3,5) by auto
  moreover have "pinned s3 b \<or> dsk s3 b = content s3 b" using s3 s2 by simp
  ultimately obtain s4 where
    s4: "rel j s3 = Inr s4" "inv s4" "opened s4 = opened s3 - {(j, b)}" "content s4 = content s3"
    "dsk s4 = dsk s3" "writes s4 = writes s3" "pinned s4 = pinned s3" "nblocks s4 = nblocks s3"
    "rest s4 = rest s3" "room s4 = room s3 + (if pinned s3 b then 0 else 1)"
    using rel_law [OF s3(2)] by blast
  show ?thesis using s2 s3 s4 by (intro exI [of _ s4]) auto
qed

text \<open>Opening and closing without a change: what \<open>readsb\<close> or \<open>read_head\<close> do.\<close>

lemma open_two:
  assumes "inv s" "opened s = {}" "a < nblocks s" "b < nblocks s" "a \<noteq> b"
    and "pinned s a \<or> 0 < room s" and "pinned s b \<or> (if pinned s a then 0 else 1) < room s"
  shows "\<exists>i j s1 s2. rd a s = Inr (i, s1) \<and> rd b s1 = Inr (j, s2) \<and> i \<noteq> j \<and> inv s2 \<and>
     opened s2 = {(i, a), (j, b)} \<and> content s2 = content s \<and> dsk s2 = dsk s \<and> writes s2 = writes s \<and>
     pinned s2 = pinned s \<and> nblocks s2 = nblocks s \<and> rest s1 = rest s \<and> rest s2 = rest s \<and>
     room s = room s2 + (if pinned s a then 0 else 1) + (if pinned s b then 0 else 1)"
proof -
  from rd_law [OF assms(1,3) _ assms(6)] assms(2) obtain i s1 where
    s1: "rd a s = Inr (i, s1)" "inv s1" "opened s1 = {(i, a)}" "content s1 = content s" "dsk s1 = dsk s"
    "writes s1 = writes s" "pinned s1 = pinned s" "nblocks s1 = nblocks s" "rest s1 = rest s"
    "room s = room s1 + (if pinned s a then 0 else 1)" by auto
  have "pinned s1 b \<or> 0 < room s1" using s1(7,10) assms(7) by (auto split: if_splits)
  from rd_law [OF s1(2) _ _ this] s1 assms(4,5) obtain j s2 where
    s2: "rd b s1 = Inr (j, s2)" "inv s2" "j \<notin> fst ` opened s1" "opened s2 = insert (j, b) (opened s1)"
    "content s2 = content s1" "dsk s2 = dsk s1" "writes s2 = writes s1" "pinned s2 = pinned s1"
    "nblocks s2 = nblocks s1" "rest s2 = rest s1" "room s1 = room s2 + (if pinned s1 b then 0 else 1)" by auto
  show ?thesis using s1 s2
    by (intro exI [of _ i] exI [of _ j] exI [of _ s1] exI [of _ s2]) auto
qed

text \<open>Copying a closed block to another one, on the disk too, whichever is opened first.\<close>

lemma copy_opened:
  assumes "inv s" "opened s = {}" "a \<noteq> b" "i \<noteq> j"
    and s2: "inv s2" "opened s2 = {(i, a), (j, b)}" "content s2 = content s" "dsk s2 = dsk s" "writes s2 = writes s"
      "pinned s2 = pinned s" "nblocks s2 = nblocks s" "rest s2 = rest s"
      "room s = room s2 + (if pinned s a then 0 else 1) + (if pinned s b then 0 else 1)"
  shows "\<exists>s3. bnd (wr j (put j (dat i s2) s2)) (\<lambda>s. bnd (rel i s) (rel j)) = Inr s3 \<and> inv s3 \<and> opened s3 = {} \<and>
     content s3 = (content s)(b := content s a) \<and> dsk s3 = (dsk s)(b := content s a) \<and>
     writes s3 = (b, content s a) # writes s \<and> pinned s3 = (pinned s)(b := False) \<and>
     nblocks s3 = nblocks s \<and> rest s3 = rest s \<and> room s3 = room s + (if pinned s b then 1 else 0)"
proof -
  have "pinned s2 a \<or> dsk s2 a = content s2 a" using clean_law [OF assms(1), of a] assms(2) s2 by auto
  from copy_open [OF s2(1) _ _ assms(3,4) this] s2(2) obtain s3 where
    "bnd (wr j (put j (dat i s2) s2)) (\<lambda>s. bnd (rel i s) (rel j)) = Inr s3" "inv s3" "opened s3 = {}"
    "content s3 = (content s2)(b := content s2 a)" "dsk s3 = (dsk s2)(b := content s2 a)"
    "writes s3 = (b, content s2 a) # writes s2" "pinned s3 = (pinned s2)(b := False)"
    "nblocks s3 = nblocks s2" "rest s3 = rest s2" "room s3 = room s2 + (if pinned s2 a then 0 else 1) + 1"
    by auto
  then show ?thesis using s2 by (intro exI [of _ s3]) simp
qed

lemma copy_src_first:
  assumes "inv s" "opened s = {}" "a < nblocks s" "b < nblocks s" "a \<noteq> b"
    and "pinned s a \<or> 0 < room s" and "pinned s b \<or> (if pinned s a then 0 else 1) < room s"
  shows "\<exists>i j s1 s2 s3. rd a s = Inr (i, s1) \<and> rest s1 = rest s \<and> rd b s1 = Inr (j, s2) \<and>
     bnd (wr j (put j (dat i s2) s2)) (\<lambda>s. bnd (rel i s) (rel j)) = Inr s3 \<and> inv s3 \<and> opened s3 = {} \<and>
     content s3 = (content s)(b := content s a) \<and> dsk s3 = (dsk s)(b := content s a) \<and>
     writes s3 = (b, content s a) # writes s \<and> pinned s3 = (pinned s)(b := False) \<and>
     nblocks s3 = nblocks s \<and> rest s3 = rest s \<and> room s3 = room s + (if pinned s b then 1 else 0)"
proof -
  from open_two [OF assms] obtain i j s1 s2 where
    o: "rd a s = Inr (i, s1)" "rest s1 = rest s" "rd b s1 = Inr (j, s2)" "i \<noteq> j" and
    s2: "inv s2" "opened s2 = {(i, a), (j, b)}" "content s2 = content s" "dsk s2 = dsk s" "writes s2 = writes s"
      "pinned s2 = pinned s" "nblocks s2 = nblocks s" "rest s2 = rest s"
      "room s = room s2 + (if pinned s a then 0 else 1) + (if pinned s b then 0 else 1)" by blast
  from copy_opened [OF assms(1,2,5) o(4) s2] o show ?thesis by blast
qed

lemma copy_dst_first:
  assumes "inv s" "opened s = {}" "a < nblocks s" "b < nblocks s" "a \<noteq> b"
    and "pinned s b \<or> 0 < room s" and "pinned s a \<or> (if pinned s b then 0 else 1) < room s"
  shows "\<exists>i j s1 s2 s3. rd b s = Inr (j, s1) \<and> rest s1 = rest s \<and> rd a s1 = Inr (i, s2) \<and>
     bnd (wr j (put j (dat i s2) s2)) (\<lambda>s. bnd (rel i s) (rel j)) = Inr s3 \<and> inv s3 \<and> opened s3 = {} \<and>
     content s3 = (content s)(b := content s a) \<and> dsk s3 = (dsk s)(b := content s a) \<and>
     writes s3 = (b, content s a) # writes s \<and> pinned s3 = (pinned s)(b := False) \<and>
     nblocks s3 = nblocks s \<and> rest s3 = rest s \<and> room s3 = room s + (if pinned s b then 1 else 0)"
proof -
  from open_two [OF assms(1,2,4,3) assms(5) [symmetric] assms(6,7)] obtain i j s1 s2 where
    o: "rd b s = Inr (j, s1)" "rest s1 = rest s" "rd a s1 = Inr (i, s2)" "i \<noteq> j" and
    s2: "inv s2" "opened s2 = {(i, a), (j, b)}" "content s2 = content s" "dsk s2 = dsk s" "writes s2 = writes s"
      "pinned s2 = pinned s" "nblocks s2 = nblocks s" "rest s2 = rest s"
      "room s = room s2 + (if pinned s a then 0 else 1) + (if pinned s b then 0 else 1)"
    by (auto simp: insert_commute)
  from copy_opened [OF assms(1,2,5) o(4) s2] o show ?thesis by blast
qed

text \<open>Opening a closed block, giving it new data, pinning it and closing it: an update under the log.\<close>

lemma pin_update:
  assumes "inv s" "opened s = {}" "b < nblocks s" "pinned s b \<or> 0 < room s"
  shows "\<exists>i s1. rd b s = Inr (i, s1) \<and> inv s1 \<and> opened s1 = {(i, b)} \<and> rest s1 = rest s \<and> dat i s1 = content s b \<and>
     (\<exists>s2. rel i (pin i (put i d s1)) = Inr s2 \<and> inv s2 \<and> opened s2 = {} \<and> content s2 = (content s)(b := d) \<and>
       dsk s2 = dsk s \<and> writes s2 = writes s \<and> pinned s2 = (pinned s)(b := True) \<and> nblocks s2 = nblocks s \<and>
       rest s2 = rest s \<and> room s = room s2 + (if pinned s b then 0 else 1))"
proof -
  from rd_law [OF assms(1,3) _ assms(4)] assms(2) obtain i s1 where
    s1: "rd b s = Inr (i, s1)" "inv s1" "opened s1 = {(i, b)}" "content s1 = content s" "dsk s1 = dsk s"
    "writes s1 = writes s" "pinned s1 = pinned s" "nblocks s1 = nblocks s" "rest s1 = rest s"
    "room s = room s1 + (if pinned s b then 0 else 1)" by auto
  then have o1: "(i, b) \<in> opened s1" by simp
  note p = put_law [OF s1(2) o1, of d]
  have o2: "(i, b) \<in> opened (put i d s1)" using p o1 by simp
  note q = pin_law [OF _ o2]
  from rel_law [of "pin i (put i d s1)" i b] p q o1 obtain s2 where
    "rel i (pin i (put i d s1)) = Inr s2" "inv s2" "opened s2 = opened s1 - {(i, b)}" "content s2 = (content s1)(b := d)"
    "dsk s2 = dsk s1" "writes s2 = writes s1" "pinned s2 = (pinned s1)(b := True)" "nblocks s2 = nblocks s1"
    "rest s2 = rest s1" "room s2 = room s1" by auto
  then show ?thesis using s1 dat_law [OF s1(2) o1] by (intro exI [of _ i] exI [of _ s1]) simp
qed

lemma read_closed:
  assumes "inv s" "opened s = {}" "b < nblocks s" "pinned s b \<or> 0 < room s"
  shows "\<exists>i s1 s2. rd b s = Inr (i, s1) \<and> dat i s1 = content s b \<and> rel i s1 = Inr s2 \<and> inv s2 \<and> opened s2 = {} \<and>
     content s2 = content s \<and> dsk s2 = dsk s \<and> writes s2 = writes s \<and> pinned s2 = pinned s \<and>
     nblocks s2 = nblocks s \<and> rest s1 = rest s \<and> rest s2 = rest s \<and> room s2 = room s"
proof -
  from rd_law [OF assms(1,3) _ assms(4)] assms(2) obtain i s1 where
    s1: "rd b s = Inr (i, s1)" "inv s1" "opened s1 = {(i, b)}" "content s1 = content s" "dsk s1 = dsk s"
    "writes s1 = writes s" "pinned s1 = pinned s" "nblocks s1 = nblocks s" "rest s1 = rest s"
    "room s = room s1 + (if pinned s b then 0 else 1)" by auto
  have "pinned s1 b \<or> dsk s1 b = content s1 b" using clean_law [OF assms(1), of b] assms(2) s1 by auto
  from rel_law [OF s1(2) _ this, of i] s1(3) obtain s2 where
    "rel i s1 = Inr s2" "inv s2" "opened s2 = {}" "content s2 = content s1" "dsk s2 = dsk s1"
    "writes s2 = writes s1" "pinned s2 = pinned s1" "nblocks s2 = nblocks s1" "rest s2 = rest s1"
    "room s2 = room s1 + (if pinned s1 b then 0 else 1)" by auto
  with s1 dat_law [OF s1(2), of i b] show ?thesis
    by (intro exI [of _ i] exI [of _ s1] exI [of _ s2]) auto
qed

text \<open>The same with other blocks open.\<close>

lemma read_block:
  assumes "inv s" "b < nblocks s" "b \<notin> snd ` opened s" "pinned s b \<or> 0 < room s"
  shows "\<exists>i s1 s2. rd b s = Inr (i, s1) \<and> dat i s1 = content s b \<and> rest s1 = rest s \<and> rel i s1 = Inr s2 \<and>
     inv s2 \<and> opened s2 = opened s \<and> content s2 = content s \<and> dsk s2 = dsk s \<and> writes s2 = writes s \<and>
     pinned s2 = pinned s \<and> nblocks s2 = nblocks s \<and> rest s2 = rest s \<and> room s2 = room s"
proof -
  from rd_law [OF assms] obtain i s1 where
    s1: "rd b s = Inr (i, s1)" "inv s1" "i \<notin> fst ` opened s" "opened s1 = insert (i, b) (opened s)" "content s1 = content s"
    "dsk s1 = dsk s" "writes s1 = writes s" "pinned s1 = pinned s" "nblocks s1 = nblocks s" "rest s1 = rest s"
    "room s = room s1 + (if pinned s b then 0 else 1)" by blast
  have op: "insert (i, b) (opened s) - {(i, b)} = opened s" using s1(3) by force
  have "pinned s1 b \<or> dsk s1 b = content s1 b" using clean_law [OF assms(1,3)] s1 by auto
  from rel_law [OF s1(2) _ this, of i] s1(4) obtain s2 where
    "rel i s1 = Inr s2" "inv s2" "opened s2 = insert (i, b) (opened s) - {(i, b)}" "content s2 = content s1" "dsk s2 = dsk s1"
    "writes s2 = writes s1" "pinned s2 = pinned s1" "nblocks s2 = nblocks s1" "rest s2 = rest s1"
    "room s2 = room s1 + (if pinned s1 b then 0 else 1)" by auto
  with s1 op dat_law [OF s1(2), of i b] show ?thesis
    by (intro exI [of _ i] exI [of _ s1] exI [of _ s2]) auto
qed

text \<open>Opening a block, changing it, writing it to the disk and closing it: \<open>write_head\<close>.\<close>

lemma write_through:
  assumes "inv s" "opened s = {}" "b < nblocks s" "0 < room s" "\<not> pinned s b"
  shows "\<exists>i s1 s2 s3. rd b s = Inr (i, s1) \<and> dat i s1 = content s b \<and> rest s1 = rest s \<and>
     wr i (put i d s1) = Inr s2 \<and> rel i s2 = Inr s3 \<and> inv s3 \<and> opened s3 = {} \<and>
     content s3 = (content s)(b := d) \<and> dsk s3 = (dsk s)(b := d) \<and> writes s3 = (b, d) # writes s \<and>
     pinned s3 = pinned s \<and> nblocks s3 = nblocks s \<and> rest s3 = rest s \<and> room s3 = room s"
proof -
  from rd_law [OF assms(1,3)] assms(2,4) obtain i s1 where
    s1: "rd b s = Inr (i, s1)" "inv s1" "opened s1 = {(i, b)}" "content s1 = content s" "dsk s1 = dsk s"
    "writes s1 = writes s" "pinned s1 = pinned s" "nblocks s1 = nblocks s" "rest s1 = rest s"
    "room s = room s1 + (if pinned s b then 0 else 1)" by auto
  then have o1: "(i, b) \<in> opened s1" by simp
  note p = put_law [OF s1(2) o1, of d]
  from wr_law [of "put i d s1" i b] p o1 obtain s2 where
    s2: "wr i (put i d s1) = Inr s2" "inv s2" "opened s2 = opened s1" "content s2 = (content s1)(b := d)"
    "dsk s2 = (dsk s1)(b := d)" "writes s2 = (b, d) # writes s1" "pinned s2 = (pinned s1)(b := False)"
    "nblocks s2 = nblocks s1" "rest s2 = rest s1" "room s2 = room s1" by auto
  have "pinned s2 b \<or> dsk s2 b = content s2 b" using s2 by simp
  from rel_law [OF s2(2) _ this, of i] s2(3) o1 obtain s3 where
    s3: "rel i s2 = Inr s3" "inv s3" "opened s3 = opened s2 - {(i, b)}" "content s3 = content s2" "dsk s3 = dsk s2"
    "writes s3 = writes s2" "pinned s3 = pinned s2" "nblocks s3 = nblocks s2" "rest s3 = rest s2"
    "room s3 = room s2 + (if pinned s2 b then 0 else 1)" by auto
  have "(pinned s)(b := False) = pinned s" using assms(5) by (simp add: fun_eq_iff)
  then show ?thesis using s1 s2 s3 assms(5) dat_law [OF s1(2) o1]
    by (intro exI [of _ i] exI [of _ s1] exI [of _ s2] exI [of _ s3]) simp
qed

end

end
