(* ===== verification/Bio.thy ===== *)
theory Bio
  imports Kalloc Sleeplock Block_Layer
begin

text \<open>
  The buffer cache of \<open>bio.c\<close> over the disk of \<open>memide.c\<close>. The circular list of buffers
  through \<open>prev\<close> and \<open>next\<close> is the list \<open>lru\<close> of the buffers' numbers from \<open>head.next\<close>, the
  most recently used, to \<open>head.prev\<close>. Every write to the disk is also recorded in
  \<open>dwrites\<close>, the latest first: the states a crash can leave the disk in are the ones its
  suffixes give. The other driver, \<open>ide.c\<close>, has the same interface.
\<close>

section \<open>State\<close>

definition BSIZE :: nat where "BSIZE = 512"
definition NBUF :: nat where "NBUF = 30"
definition B_VALID :: u32 where "B_VALID = 2"
definition B_DIRTY :: u32 where "B_DIRTY = 4"

record buf =
  b_flags :: u32
  b_dev :: u32
  b_blockno :: u32
  b_lock :: sleeplock
  b_refcnt :: u32
  b_data :: bytes

record bcache_st = kmem_st +
  bufs :: "buf list"
  lru :: "nat list"
  disk :: "u32 \<Rightarrow> bytes"
  disksize :: u32
  dwrites :: "(u32 \<times> bytes) list"

definition modb :: "nat \<Rightarrow> (buf \<Rightarrow> buf) \<Rightarrow> 'a bcache_st_scheme \<Rightarrow> 'a bcache_st_scheme" where
  "modb i f s = s\<lparr>bufs := (bufs s)[i := f (bufs s ! i)]\<rparr>"

abbreviation buf_at :: "'a bcache_st_scheme \<Rightarrow> nat \<Rightarrow> buf" where
  "buf_at s i \<equiv> bufs s ! i"

definition zero_buf :: buf where
  "zero_buf = \<lparr>b_flags = 0, b_dev = 0, b_blockno = 0, b_lock = initsleeplock, b_refcnt = 0, b_data = (\<lambda>_. 0)\<rparr>"

text \<open>\<open>binit\<close> puts each buffer in front of the ones before it.\<close>

definition binit :: "'a bcache_st_scheme \<Rightarrow> 'a bcache_st_scheme" where
  "binit s = s\<lparr>bufs := map (\<lambda>b. b\<lparr>b_lock := initsleeplock\<rparr>) (bufs s),
               lru := fold (\<lambda>b l. b # l) [0..<length (bufs s)] []\<rparr>"

section \<open>The disk of memide.c\<close>

definition iderw :: "nat \<Rightarrow> 'a bcache_st_scheme \<Rightarrow> 'a bcache_st_scheme res" where
  "iderw i s =
     (let b = buf_at s i in
      bnd (holdingsleep (b_lock b) s) (\<lambda>h.
      if \<not> h then Inl (Panic ''iderw: buf not locked'')
      else if b_flags b AND (B_VALID OR B_DIRTY) = B_VALID then Inl (Panic ''iderw: nothing to do'')
      else if b_dev b \<noteq> 1 then Inl (Panic ''iderw: request not for disk 1'')
      else if b_blockno b \<ge> disksize s then Inl (Panic ''iderw: block out of range'')
      else if b_flags b AND B_DIRTY \<noteq> 0
      then Inr (modb i (\<lambda>b. b\<lparr>b_flags := (b_flags b AND NOT B_DIRTY) OR B_VALID\<rparr>)
                 (s\<lparr>disk := (disk s)(b_blockno b := b_data b),
                    dwrites := (b_blockno b, b_data b) # dwrites s\<rparr>))
      else Inr (modb i (\<lambda>b'. b'\<lparr>b_data := disk s (b_blockno b), b_flags := b_flags b' OR B_VALID\<rparr>) s)))"

section \<open>The cache\<close>

definition lock_buf :: "nat \<Rightarrow> 'a bcache_st_scheme \<Rightarrow> (nat \<times> 'a bcache_st_scheme) res" where
  "lock_buf i s = bnd (acquiresleep (ChBufLock i) (b_lock (buf_at s i)) s) (\<lambda>lk.
     Inr (i, modb i (\<lambda>b. b\<lparr>b_lock := lk\<rparr>) s))"

definition bget :: "u32 \<Rightarrow> u32 \<Rightarrow> 'a bcache_st_scheme \<Rightarrow> (nat \<times> 'a bcache_st_scheme) res" where
  "bget dev blockno s =
     (case find (\<lambda>i. b_dev (buf_at s i) = dev \<and> b_blockno (buf_at s i) = blockno) (lru s) of
        Some i \<Rightarrow> lock_buf i (modb i (\<lambda>b. b\<lparr>b_refcnt := b_refcnt b + 1\<rparr>) s)
      | None \<Rightarrow>
          (case find (\<lambda>i. b_refcnt (buf_at s i) = 0 \<and> b_flags (buf_at s i) AND B_DIRTY = 0) (rev (lru s)) of
             Some i \<Rightarrow> lock_buf i (modb i (\<lambda>b. b\<lparr>b_dev := dev, b_blockno := blockno, b_flags := 0, b_refcnt := 1\<rparr>) s)
           | None \<Rightarrow> Inl (Panic ''bget: no buffers'')))"

definition bread :: "u32 \<Rightarrow> u32 \<Rightarrow> 'a bcache_st_scheme \<Rightarrow> (nat \<times> 'a bcache_st_scheme) res" where
  "bread dev blockno s =
     bnd (bget dev blockno s) (\<lambda>(i, s).
       if b_flags (buf_at s i) AND B_VALID = 0 then bnd (iderw i s) (\<lambda>s. Inr (i, s)) else Inr (i, s))"

definition bwrite :: "nat \<Rightarrow> 'a bcache_st_scheme \<Rightarrow> 'a bcache_st_scheme res" where
  "bwrite i s =
     bnd (holdingsleep (b_lock (buf_at s i)) s) (\<lambda>h.
       if \<not> h then Inl (Panic ''bwrite'')
       else iderw i (modb i (\<lambda>b. b\<lparr>b_flags := b_flags b OR B_DIRTY\<rparr>) s))"

definition brelse :: "nat \<Rightarrow> 'a bcache_st_scheme \<Rightarrow> 'a bcache_st_scheme res" where
  "brelse i s =
     bnd (holdingsleep (b_lock (buf_at s i)) s) (\<lambda>h.
       if \<not> h then Inl (Panic ''brelse'')
       else case releasesleep (ChBufLock i) (b_lock (buf_at s i)) s of (lk, s) \<Rightarrow>
         let s = modb i (\<lambda>b. b\<lparr>b_lock := lk, b_refcnt := b_refcnt b - 1\<rparr>) s in
         Inr (if b_refcnt (buf_at s i) = 0 then s\<lparr>lru := i # remove1 i (lru s)\<rparr> else s))"

definition set_data :: "nat \<Rightarrow> bytes \<Rightarrow> 'a bcache_st_scheme \<Rightarrow> 'a bcache_st_scheme" where
  "set_data i d s = modb i (\<lambda>b. b\<lparr>b_data := d\<rparr>) s"

text \<open>\<open>b->flags |= B_DIRTY\<close>, which \<open>log_write\<close> uses to keep a block in the cache.\<close>

definition pin :: "nat \<Rightarrow> 'a bcache_st_scheme \<Rightarrow> 'a bcache_st_scheme" where
  "pin i s = modb i (\<lambda>b. b\<lparr>b_flags := b_flags b OR B_DIRTY\<rparr>) s"

section \<open>Flags\<close>

definition valid :: "buf \<Rightarrow> bool" where "valid b \<longleftrightarrow> b_flags b AND B_VALID \<noteq> 0"
definition dirty :: "buf \<Rightarrow> bool" where "dirty b \<longleftrightarrow> b_flags b AND B_DIRTY \<noteq> 0"

lemma flag_bits:
  "f AND B_VALID = 0 \<longleftrightarrow> \<not> bit f 1" "f AND B_DIRTY = 0 \<longleftrightarrow> \<not> bit f 2" for f :: u32
  using and_exp_eq_0_iff_not_bit [of f 1] and_exp_eq_0_iff_not_bit [of f 2]
  by (simp_all add: B_VALID_def B_DIRTY_def)

lemma bit_flags:
  "bit B_VALID n \<longleftrightarrow> n = 1" "bit B_DIRTY n \<longleftrightarrow> n = 2"
proof -
  have e: "bit (2 ^ m :: u32) n \<longleftrightarrow> n = m" if "m < 32" for m
    using that unfolding bit_exp_iff by auto
  from e [of 1] e [of 2] show "bit B_VALID n \<longleftrightarrow> n = 1" "bit B_DIRTY n \<longleftrightarrow> n = 2"
    by (simp_all add: B_VALID_def B_DIRTY_def)
qed

lemma flags_clean: "f AND (B_VALID OR B_DIRTY) = B_VALID \<longleftrightarrow> bit f 1 \<and> \<not> bit f 2" for f :: u32
proof
  assume eq: "f AND (B_VALID OR B_DIRTY) = B_VALID"
  from arg_cong [OF eq, of "\<lambda>x. bit x 1"] arg_cong [OF eq, of "\<lambda>x. bit x 2"]
  show "bit f 1 \<and> \<not> bit f 2" by (simp add: bit_and_iff bit_or_iff bit_flags)
next
  assume "bit f 1 \<and> \<not> bit f 2"
  then show "f AND (B_VALID OR B_DIRTY) = B_VALID"
    by (intro bit_word_eqI) (auto simp: bit_and_iff bit_or_iff bit_flags)
qed

lemma flag_nonzero [simp]: "B_VALID \<noteq> 0" "B_DIRTY \<noteq> 0"
  by (simp_all add: B_VALID_def B_DIRTY_def)

lemmas flag_simps = valid_def dirty_def flag_bits flags_clean bit_flags bit_or_iff bit_and_iff bit_not_iff

section \<open>The invariant\<close>

text \<open>
  \<open>content s b\<close> is block \<open>b\<close> of the file system's disk as a reader sees it: the cached
  data, or the disk.
\<close>

definition cached :: "'a bcache_st_scheme \<Rightarrow> u32 \<Rightarrow> nat \<Rightarrow> bool" where
  "cached s b i \<longleftrightarrow> i < length (bufs s) \<and> b_dev (buf_at s i) = 1 \<and> b_blockno (buf_at s i) = b"

definition content :: "'a bcache_st_scheme \<Rightarrow> u32 \<Rightarrow> bytes" where
  "content s b = (case find (\<lambda>i. cached s b i \<and> valid (buf_at s i)) [0..<length (bufs s)] of
     Some i \<Rightarrow> b_data (buf_at s i) | None \<Rightarrow> disk s b)"

definition held :: "'a bcache_st_scheme \<Rightarrow> nat set" where
  "held s = {i. i < length (bufs s) \<and> sl_locked (b_lock (buf_at s i)) \<noteq> 0}"

definition in_use :: "buf \<Rightarrow> bool" where
  "in_use b \<longleftrightarrow> b_refcnt b \<noteq> 0 \<or> dirty b"

definition buf_ok :: "int \<Rightarrow> 'a bcache_st_scheme \<Rightarrow> buf \<Rightarrow> bool" where
  "buf_ok pid s b \<longleftrightarrow>
     (if sl_locked (b_lock b) = 0
      then b_refcnt b = 0 \<and> (valid b \<and> \<not> dirty b \<and> b_dev b = 1 \<longrightarrow> b_data b = disk s (b_blockno b))
      else b_refcnt b = 1 \<and> sl_pid (b_lock b) = pid \<and> valid b \<and> b_dev b = 1 \<and> b_blockno b < disksize s) \<and>
     (dirty b \<longrightarrow> valid b \<and> b_dev b = 1)"

definition bc_inv :: "'a bcache_st_scheme \<Rightarrow> bool" where
  "bc_inv s \<longleftrightarrow> distinct (lru s) \<and> set (lru s) = {..<length (bufs s)} \<and>
     (\<forall>b i j. cached s b i \<longrightarrow> cached s b j \<longrightarrow> i = j) \<and>
     (\<exists>pid. mypid s = Inr pid \<and> (\<forall>i < length (bufs s). buf_ok pid s (buf_at s i)))"

lemma find_unique:
  assumes "P i" "i \<in> set xs" "\<And>j. j \<in> set xs \<Longrightarrow> P j \<Longrightarrow> j = i"
  shows "find P xs = Some i"
proof (cases "find P xs")
  case None
  with assms(1,2) show ?thesis by (auto simp: find_None_iff)
next
  case (Some j)
  then have "j \<in> set xs \<and> P j" by (auto simp: find_Some_iff)
  with assms(3) Some show ?thesis by blast
qed

lemma find_SomeD: "find P xs = Some x \<Longrightarrow> x \<in> set xs \<and> P x"
  by (induction xs) (auto split: if_splits)

lemma content_cached:
  assumes "bc_inv s" "cached s b i"
  shows "content s b = (if valid (buf_at s i) then b_data (buf_at s i) else disk s b)"
proof -
  have u: "j = i" if "cached s b j" for j using assms that unfolding bc_inv_def by blast
  have "find (\<lambda>i. cached s b i \<and> valid (buf_at s i)) [0..<length (bufs s)] = Some i" if "valid (buf_at s i)"
    by (rule find_unique, use assms(2) that in simp, use assms(2) in \<open>simp add: cached_def\<close>, use u in blast)
  moreover have "find (\<lambda>i. cached s b i \<and> valid (buf_at s i)) [0..<length (bufs s)] = None" if "\<not> valid (buf_at s i)"
    unfolding find_None_iff using that u by blast
  ultimately show ?thesis by (simp add: content_def)
qed

lemma content_uncached: "(\<And>i. \<not> cached s b i) \<Longrightarrow> content s b = disk s b"
  by (auto simp: content_def dest: find_SomeD split: option.splits)

lemma modb_sel [simp]:
  "bufs (modb i f s) = (bufs s)[i := f (bufs s ! i)]" "lru (modb i f s) = lru s" "disk (modb i f s) = disk s"
  "disksize (modb i f s) = disksize s" "dwrites (modb i f s) = dwrites s"
  "procs (modb i f s) = procs s" "cpu_proc (modb i f s) = cpu_proc s"
  by (simp_all add: modb_def)

lemma mypid_modb [simp]: "mypid (modb i f s) = mypid s"
  by (simp add: mypid_def getp_def)

section \<open>Reading a block\<close>

lemma modb_modb: "i < length (bufs s) \<Longrightarrow> modb i f (modb i g s) = modb i (\<lambda>b. f (g b)) s"
  by (simp add: modb_def)

lemma bc_inv_lru: "bc_inv s \<Longrightarrow> distinct (lru s) \<and> set (lru s) = {..<length (bufs s)}"
  unfolding bc_inv_def by blast

lemma bc_inv_buf: "bc_inv s \<Longrightarrow> mypid s = Inr pid \<Longrightarrow> i < length (bufs s) \<Longrightarrow> buf_ok pid s (buf_at s i)"
  unfolding bc_inv_def by auto

lemma cached_unique: "bc_inv s \<Longrightarrow> cached s b i \<Longrightarrow> cached s b j \<Longrightarrow> i = j"
  unfolding bc_inv_def by blast

lemma lock_buf_eq:
  assumes "i < length (bufs s)" "sl_locked (b_lock (buf_at s i)) = 0" "mypid s = Inr pid"
  shows "lock_buf i s = Inr (i, modb i (\<lambda>b. b\<lparr>b_lock := \<lparr>sl_locked = 1, sl_pid = pid\<rparr>\<rparr>) s)"
  using assms by (simp add: lock_buf_def acquiresleep_def)

lemma iderw_read:
  assumes "i < length (bufs s)" "mypid s = Inr pid" "b_lock (buf_at s i) = \<lparr>sl_locked = 1, sl_pid = pid\<rparr>"
    and "\<not> valid (buf_at s i)" "\<not> dirty (buf_at s i)" "b_dev (buf_at s i) = 1" "b_blockno (buf_at s i) < disksize s"
  shows "iderw i s = Inr (modb i (\<lambda>b. b\<lparr>b_data := disk s (b_blockno b), b_flags := b_flags b OR B_VALID\<rparr>) s)"
  using assms by (auto simp: iderw_def holdingsleep_def Let_def flag_simps modb_def)

text \<open>
  \<open>bread\<close> returns a buffer that nobody held, now locked, with the current content of the
  block; if the block was not cached, a buffer that is not in use is taken for it.
\<close>

lemma bread_buf:
  assumes inv: "bc_inv s" and pid: "mypid s = Inr pid" and b: "b < disksize s"
    and free: "(\<exists>i. cached s b i) \<or> (\<exists>i < length (bufs s). \<not> in_use (buf_at s i))"
    and nh: "\<And>i. cached s b i \<Longrightarrow> i \<notin> held s"
  shows "\<exists>i nb. bread 1 b s = Inr (i, modb i (\<lambda>_. nb) s) \<and> i < length (bufs s) \<and> i \<notin> held s \<and>
     b_dev nb = 1 \<and> b_blockno nb = b \<and> valid nb \<and> b_lock nb = \<lparr>sl_locked = 1, sl_pid = pid\<rparr> \<and>
     b_refcnt nb = 1 \<and> b_data nb = content s b \<and>
     (if cached s b i then dirty nb = dirty (buf_at s i)
      else \<not> dirty nb \<and> \<not> in_use (buf_at s i) \<and> (\<forall>j. \<not> cached s b j))"
proof -
  have lru: "distinct (lru s)" "set (lru s) = {..<length (bufs s)}" using bc_inv_lru [OF inv] by auto
  have ok: "buf_ok pid s (buf_at s i)" if "i < length (bufs s)" for i using bc_inv_buf [OF inv pid that] .
  let ?P = "\<lambda>i. b_dev (buf_at s i) = 1 \<and> b_blockno (buf_at s i) = b"
  let ?lk = "\<lparr>sl_locked = 1, sl_pid = pid\<rparr> :: sleeplock"
  show ?thesis
  proof (cases "\<exists>i. cached s b i")
    case True
    then obtain i where i: "cached s b i" by blast
    then have len: "i < length (bufs s)" by (simp add: cached_def)
    have P: "?P j \<longleftrightarrow> cached s b j" if "j \<in> set (lru s)" for j using that lru(2) by (simp add: cached_def)
    have "find ?P (lru s) = Some i"
    proof (rule find_unique)
      show "?P i" using i by (simp add: cached_def)
      show "i \<in> set (lru s)" using len lru(2) by simp
      show "j = i" if "j \<in> set (lru s)" "?P j" for j using that P cached_unique [OF inv _ i] by blast
    qed
    have ul: "sl_locked (b_lock (buf_at s i)) = 0" using nh [OF i] len by (simp add: held_def)
    with ok [OF len] have rc: "b_refcnt (buf_at s i) = 0" by (simp add: buf_ok_def)
    let ?b1 = "(buf_at s i)\<lparr>b_refcnt := 1, b_lock := ?lk\<rparr>"
    have get: "bget 1 b s = Inr (i, modb i (\<lambda>_. ?b1) s)"
      using \<open>find ?P (lru s) = Some i\<close> len ul rc pid
      by (simp add: bget_def lock_buf_eq [of i _ pid] modb_modb) (simp add: modb_def)
    show ?thesis
    proof (cases "valid (buf_at s i)")
      case True
      then have "bread 1 b s = Inr (i, modb i (\<lambda>_. ?b1) s)"
        using get len by (simp add: bread_def valid_def)
      moreover have "content s b = b_data (buf_at s i)" using content_cached [OF inv i] True by simp
      ultimately show ?thesis using i len ul True
        by (intro exI [of _ i] exI [of _ ?b1]) (auto simp: cached_def held_def valid_def dirty_def)
    next
      case False
      then have nd: "\<not> dirty (buf_at s i)" using ok [OF len] by (auto simp: buf_ok_def)
      let ?b2 = "?b1\<lparr>b_data := disk s b, b_flags := b_flags ?b1 OR B_VALID\<rparr>"
      let ?s1 = "modb i (\<lambda>_. ?b1) s"
      have at: "buf_at ?s1 i = ?b1" using len by simp
      have "iderw i ?s1 = Inr (modb i (\<lambda>b. b\<lparr>b_data := disk ?s1 (b_blockno b), b_flags := b_flags b OR B_VALID\<rparr>) ?s1)"
        by (rule iderw_read [of _ _ pid]) (use len pid i b False nd at in \<open>simp_all add: cached_def valid_def dirty_def\<close>)
      then have "bread 1 b s = Inr (i, modb i (\<lambda>_. ?b2) s)"
        using get len False i by (simp add: bread_def valid_def modb_modb cached_def)
      moreover have "content s b = disk s b" using content_cached [OF inv i] False by simp
      ultimately show ?thesis using i len ul nd
        by (intro exI [of _ i] exI [of _ ?b2]) (auto simp: cached_def held_def flag_simps)
    qed
  next
    case False
    then have nc: "\<not> cached s b j" for j by blast
    then have f1: "find ?P (lru s) = None" using lru(2) by (auto simp: find_None_iff cached_def)
    let ?Q = "\<lambda>i. b_refcnt (buf_at s i) = 0 \<and> b_flags (buf_at s i) AND B_DIRTY = 0"
    obtain i where f2: "find ?Q (rev (lru s)) = Some i"
      using free nc lru(2) by (cases "find ?Q (rev (lru s))") (auto simp: find_None_iff in_use_def dirty_def)
    have iq: "i \<in> set (rev (lru s)) \<and> ?Q i" by (rule find_SomeD [OF f2])
    then have len: "i < length (bufs s)" and q: "?Q i" using lru(2) by simp_all
    have ul: "sl_locked (b_lock (buf_at s i)) = 0"
      using ok [OF len] q by (cases "sl_locked (b_lock (buf_at s i)) = 0") (simp_all add: buf_ok_def)
    let ?b1 = "(buf_at s i)\<lparr>b_dev := 1, b_blockno := b, b_flags := 0, b_refcnt := 1, b_lock := ?lk\<rparr>"
    let ?b2 = "?b1\<lparr>b_data := disk s b, b_flags := 0 OR B_VALID\<rparr>"
    let ?s1 = "modb i (\<lambda>_. ?b1) s"
    have get: "bget 1 b s = Inr (i, ?s1)"
      using f1 f2 len ul pid by (simp add: bget_def lock_buf_eq [of i _ pid] modb_modb) (simp add: modb_def)
    have at: "buf_at ?s1 i = ?b1" using len by simp
    have "iderw i ?s1 = Inr (modb i (\<lambda>b. b\<lparr>b_data := disk ?s1 (b_blockno b), b_flags := b_flags b OR B_VALID\<rparr>) ?s1)"
      by (rule iderw_read [of _ _ pid]) (use len pid b at in \<open>simp_all add: valid_def dirty_def\<close>)
    then have "bread 1 b s = Inr (i, modb i (\<lambda>_. ?b2) s)"
      using get len by (simp add: bread_def modb_modb)
    then show ?thesis using len ul q nc content_uncached [of s b]
      by (intro exI [of _ i] exI [of _ ?b2]) (auto simp: held_def in_use_def flag_simps)
  qed
qed

section \<open>The laws of the cache\<close>

text \<open>
  Replacing one buffer keeps the invariant and the contents of all blocks but at most the
  one it caches, if the new one is well-formed and no block gets a second buffer.
\<close>

lemma cached_modb:
  "i < length (bufs s) \<Longrightarrow> cached (modb i (\<lambda>_. nb) s) b j \<longleftrightarrow>
     (if j = i then b_dev nb = 1 \<and> b_blockno nb = b else cached s b j)"
  by (auto simp: cached_def nth_list_update)

lemma buf_ok_cong: "disk s' = disk s \<Longrightarrow> disksize s' = disksize s \<Longrightarrow> buf_ok pid s' = buf_ok pid s"
  by (simp add: buf_ok_def fun_eq_iff)

lemma bc_inv_modb:
  assumes inv: "bc_inv s" and i: "i < length (bufs s)" and pid: "mypid s = Inr pid"
    and ok: "buf_ok pid s nb" and u: "\<And>j. b_dev nb = 1 \<Longrightarrow> cached s (b_blockno nb) j \<Longrightarrow> j = i"
  shows "bc_inv (modb i (\<lambda>_. nb) s)"
proof -
  let ?s = "modb i (\<lambda>_. nb) s"
  have "j = k" if "cached ?s b j" "cached ?s b k" for b j k
    using that by (auto simp: cached_modb [OF i] split: if_splits dest: u cached_unique [OF inv])
  moreover have "buf_ok pid ?s (buf_at ?s j)" if "j < length (bufs s)" for j
  proof -
    have "buf_ok pid ?s = buf_ok pid s" by (rule buf_ok_cong) simp_all
    with ok bc_inv_buf [OF inv pid that] that show ?thesis by (cases "j = i") simp_all
  qed
  ultimately show ?thesis using bc_inv_lru [OF inv] pid unfolding bc_inv_def by auto
qed

lemma content_modb_other:
  assumes inv: "bc_inv s" and inv': "bc_inv (modb i (\<lambda>_. nb) s)" and i: "i < length (bufs s)"
    and o: "b_dev (buf_at s i) = 1 \<Longrightarrow> b_blockno (buf_at s i) \<noteq> b" and n: "b_dev nb = 1 \<Longrightarrow> b_blockno nb \<noteq> b"
  shows "content (modb i (\<lambda>_. nb) s) b = content s b"
proof (cases "\<exists>j. cached s b j")
  case True
  then obtain j where j: "cached s b j" by blast
  then have "j \<noteq> i" using o by (auto simp: cached_def)
  then have "cached (modb i (\<lambda>_. nb) s) b j" using j i by (simp add: cached_modb)
  then show ?thesis using content_cached [OF inv j] content_cached [OF inv'] \<open>j \<noteq> i\<close> by simp
next
  case False
  moreover have "\<not> cached (modb i (\<lambda>_. nb) s) b j" for j using False n i by (auto simp: cached_modb)
  ultimately show ?thesis by (simp add: content_uncached)
qed

text \<open>Taking a buffer for another block loses nothing: it was clean, or it was not cached.\<close>

lemma content_evicted:
  assumes inv: "bc_inv s" and i: "i < length (bufs s)" and "\<not> in_use (buf_at s i)" and "cached s b i"
  shows "content s b = disk s b"
proof -
  from inv obtain pid where pid: "mypid s = Inr pid" unfolding bc_inv_def by blast
  have "buf_ok pid s (buf_at s i)" using bc_inv_buf [OF inv pid i] .
  with assms(3,4) show ?thesis using content_cached [OF inv assms(4)]
    by (auto simp: buf_ok_def in_use_def cached_def split: if_splits)
qed

lemma bread_law:
  assumes inv: "bc_inv s" and b: "b < disksize s"
    and free: "(\<exists>i. cached s b i) \<or> (\<exists>i < length (bufs s). \<not> in_use (buf_at s i))"
    and nh: "\<And>i. cached s b i \<Longrightarrow> i \<notin> held s"
  shows "\<exists>i nb. bread 1 b s = Inr (i, modb i (\<lambda>_. nb) s) \<and> i < length (bufs s) \<and> i \<notin> held s \<and>
     bc_inv (modb i (\<lambda>_. nb) s) \<and> held (modb i (\<lambda>_. nb) s) = insert i (held s) \<and>
     content (modb i (\<lambda>_. nb) s) = content s \<and>
     b_dev nb = 1 \<and> b_blockno nb = b \<and> b_refcnt nb = 1 \<and> b_data nb = content s b \<and>
     (if cached s b i then dirty nb = dirty (buf_at s i)
      else \<not> dirty nb \<and> \<not> in_use (buf_at s i) \<and> (\<forall>j. \<not> cached s b j)) \<and>
     (\<not> dirty nb \<longrightarrow> content s b = disk s b)"
proof -
  from inv obtain pid where pid: "mypid s = Inr pid" unfolding bc_inv_def by blast
  from bread_buf [OF inv pid b free nh] obtain i nb where
    r: "bread 1 b s = Inr (i, modb i (\<lambda>_. nb) s)" and i: "i < length (bufs s)" "i \<notin> held s"
    and nb: "b_dev nb = 1" "b_blockno nb = b" "valid nb" "b_lock nb = \<lparr>sl_locked = 1, sl_pid = pid\<rparr>"
      "b_refcnt nb = 1" "b_data nb = content s b"
    and c: "if cached s b i then dirty nb = dirty (buf_at s i)
      else \<not> dirty nb \<and> \<not> in_use (buf_at s i) \<and> (\<forall>j. \<not> cached s b j)" by blast
  let ?s = "modb i (\<lambda>_. nb) s"
  have ok: "buf_ok pid s nb" using nb b by (simp add: buf_ok_def)
  have u: "j = i" if "cached s b j" for j
    using that c cached_unique [OF inv that, of i] by (cases "cached s b i") auto
  have inv': "bc_inv ?s" by (rule bc_inv_modb [OF inv i(1) pid ok]) (use nb u in simp)
  have "content ?s x = content s x" for x
  proof (cases "x = b")
    case True
    have "cached ?s b i" using i nb by (simp add: cached_modb)
    from content_cached [OF inv' this] True show ?thesis using i nb by simp
  next
    case nx: False
    show ?thesis
    proof (cases "cached s x i")
      case True
      then have "\<not> in_use (buf_at s i)" using c nx by (auto simp: cached_def split: if_splits)
      from content_evicted [OF inv i(1) this True] have "content s x = disk s x" .
      moreover have "\<not> cached ?s x j" for j
        using cached_unique [OF inv True, of j] nb nx i by (auto simp: cached_modb)
      ultimately show ?thesis by (simp add: content_uncached)
    next
      case False
      then show ?thesis using nx nb i by (intro content_modb_other [OF inv inv' i(1)]) (auto simp: cached_def)
    qed
  qed
  moreover have "held ?s = insert i (held s)" using i nb by (auto simp: held_def nth_list_update split: if_splits)
  moreover have "content s b = disk s b" if "\<not> dirty nb"
  proof (cases "cached s b i")
    case True
    then show ?thesis using content_evicted [OF inv i(1) _ True] that c i(2) bc_inv_buf [OF inv pid i(1)] i(1)
      by (auto simp: in_use_def held_def buf_ok_def)
  next
    case False
    then show ?thesis using c by (simp add: content_uncached)
  qed
  ultimately show ?thesis using r i inv' nb c by (intro exI [of _ i] exI [of _ nb]) blast
qed

lemma modb_const: "modb i f s = modb i (\<lambda>_. f (buf_at s i)) s"
  by (simp add: modb_def)

lemma held_lt: "i \<in> held s \<Longrightarrow> i < length (bufs s)"
  by (simp add: held_def)

lemma held_ok:
  assumes "bc_inv s" "mypid s = Inr pid" "i \<in> held s"
  shows "b_refcnt (buf_at s i) = 1" "sl_pid (b_lock (buf_at s i)) = pid" "valid (buf_at s i)"
    "b_dev (buf_at s i) = 1" "b_blockno (buf_at s i) < disksize s" "cached s (b_blockno (buf_at s i)) i"
    "holdingsleep (b_lock (buf_at s i)) s = Inr True"
  using bc_inv_buf [OF assms(1,2) held_lt [OF assms(3)]] assms
  by (auto simp: held_def buf_ok_def cached_def holdingsleep_def)

lemma held_content:
  assumes "bc_inv s" "i \<in> held s"
  shows "content s (b_blockno (buf_at s i)) = b_data (buf_at s i)"
proof -
  from assms(1) obtain pid where pid: "mypid s = Inr pid" unfolding bc_inv_def by blast
  show ?thesis using content_cached [OF assms(1) held_ok(6) [OF assms(1) pid assms(2)]] held_ok(3) [OF assms(1) pid assms(2)]
    by simp
qed

lemma set_data_law:
  assumes inv: "bc_inv s" and h: "i \<in> held s"
  shows "bc_inv (set_data i d s)" "held (set_data i d s) = held s"
    "content (set_data i d s) = (content s)(b_blockno (buf_at s i) := d)"
    "buf_at (set_data i d s) i = (buf_at s i)\<lparr>b_data := d\<rparr>" "disk (set_data i d s) = disk s"
proof -
  let ?nb = "(buf_at s i)\<lparr>b_data := d\<rparr>"
  have eq: "set_data i d s = modb i (\<lambda>_. ?nb) s" by (simp add: set_data_def modb_def)
  from inv obtain pid where pid: "mypid s = Inr pid" unfolding bc_inv_def by blast
  note ok = held_ok [OF inv pid h] and len = held_lt [OF h]
  have "buf_ok pid s ?nb" using bc_inv_buf [OF inv pid len] h by (auto simp: buf_ok_def held_def valid_def dirty_def)
  then have inv': "bc_inv (modb i (\<lambda>_. ?nb) s)"
    by (rule bc_inv_modb [OF inv len pid]) (use ok(6) in \<open>auto dest: cached_unique [OF inv]\<close>)
  then show "bc_inv (set_data i d s)" by (simp add: eq)
  show "held (set_data i d s) = held s" using len by (auto simp: held_def eq nth_list_update)
  show "buf_at (set_data i d s) i = ?nb" "disk (set_data i d s) = disk s" using len by (simp_all add: eq)
  have "content (modb i (\<lambda>_. ?nb) s) b = ((content s)(b_blockno (buf_at s i) := d)) b" for b
  proof (cases "b = b_blockno (buf_at s i)")
    case True
    have "cached (modb i (\<lambda>_. ?nb) s) b i" using ok(4) len True by (simp add: cached_modb)
    from content_cached [OF inv' this] show ?thesis using ok(3) len True by (simp add: valid_def)
  next
    case False
    then show ?thesis by (simp add: content_modb_other [OF inv inv' len])
  qed
  then show "content (set_data i d s) = (content s)(b_blockno (buf_at s i) := d)" unfolding eq by blast
qed

text \<open>\<open>bwrite\<close> puts the content of the buffer's block on the disk.\<close>

lemma bwrite_eq:
  assumes inv: "bc_inv s" and h: "i \<in> held s"
  defines "b \<equiv> buf_at s i"
  shows "bwrite i s = Inr (modb i (\<lambda>_. b\<lparr>b_flags := ((b_flags b OR B_DIRTY) AND NOT B_DIRTY) OR B_VALID\<rparr>)
     (s\<lparr>disk := (disk s)(b_blockno b := b_data b), dwrites := (b_blockno b, b_data b) # dwrites s\<rparr>))"
proof -
  from inv obtain pid where pid: "mypid s = Inr pid" unfolding bc_inv_def by blast
  note ok = held_ok [OF inv pid h] and len = held_lt [OF h]
  have "holdingsleep lk (modb i f s) = holdingsleep lk s" for lk f by (simp add: holdingsleep_def)
  then show ?thesis using ok len
    by (simp add: bwrite_def iderw_def Let_def flag_simps b_def) (simp add: modb_def)
qed

lemma bwrite_law:
  assumes inv: "bc_inv s" and h: "i \<in> held s"
  shows "\<exists>s'. bwrite i s = Inr s' \<and> bc_inv s' \<and> held s' = held s \<and> content s' = content s \<and>
     disk s' = (disk s)(b_blockno (buf_at s i) := content s (b_blockno (buf_at s i))) \<and>
     dwrites s' = (b_blockno (buf_at s i), content s (b_blockno (buf_at s i))) # dwrites s \<and>
     (\<forall>j. b_blockno (buf_at s' j) = b_blockno (buf_at s j) \<and> b_data (buf_at s' j) = b_data (buf_at s j)) \<and>
     \<not> dirty (buf_at s' i) \<and> (\<forall>j. j \<noteq> i \<longrightarrow> buf_at s' j = buf_at s j)"
proof -
  define b where "b = buf_at s i"
  define nb where "nb = b\<lparr>b_flags := ((b_flags b OR B_DIRTY) AND NOT B_DIRTY) OR B_VALID\<rparr>"
  define s1 where "s1 = s\<lparr>disk := (disk s)(b_blockno b := b_data b), dwrites := (b_blockno b, b_data b) # dwrites s\<rparr>"
  define s' where "s' = modb i (\<lambda>_. nb) s1"
  from inv obtain pid where pid: "mypid s = Inr pid" unfolding bc_inv_def by blast
  note ok = held_ok [OF inv pid h] and len = held_lt [OF h]
  have r: "bwrite i s = Inr s'" using bwrite_eq [OF inv h] by (simp add: b_def nb_def s1_def s'_def)
  have bufs: "bufs s' = (bufs s)[i := nb]" "length (bufs s') = length (bufs s)" by (simp_all add: s'_def s1_def)
  have fl: "valid nb" "\<not> dirty nb" by (simp_all add: nb_def flag_simps)
  have cd: "cached s' = cached s" using len by (auto simp: fun_eq_iff cached_def bufs nth_list_update nb_def b_def)
  have "buf_ok pid s' (buf_at s' j)" if "j < length (bufs s)" for j
  proof (cases "j = i")
    case True
    then show ?thesis using bc_inv_buf [OF inv pid len] h len fl
      by (auto simp: bufs buf_ok_def nb_def b_def held_def s'_def s1_def)
  next
    case False
    then have "b_dev (buf_at s j) = 1 \<Longrightarrow> b_blockno (buf_at s j) \<noteq> b_blockno b"
      using cached_unique [OF inv ok(6), of j] that by (auto simp: cached_def b_def)
    then show ?thesis using bc_inv_buf [OF inv pid that] False by (auto simp: bufs buf_ok_def s'_def s1_def)
  qed
  moreover have "mypid s' = Inr pid" "lru s' = lru s" using pid by (simp_all add: s'_def s1_def mypid_def getp_def)
  ultimately have inv': "bc_inv s'"
    using bc_inv_lru [OF inv] cached_unique [OF inv] unfolding bc_inv_def cd bufs(2) by auto
  have "content s' x = content s x" for x
  proof (cases "\<exists>j. cached s x j")
    case True
    then obtain j where j: "cached s x j" by blast
    then have j': "cached s' x j" by (simp add: cd)
    show ?thesis
    proof (cases "j = i")
      case True
      then show ?thesis using content_cached [OF inv j] content_cached [OF inv' j'] ok(3) fl len by (simp add: bufs nb_def b_def)
    next
      case False
      then have "x \<noteq> b_blockno b" using cached_unique [OF inv ok(6)] j by (auto simp: b_def)
      with False show ?thesis using content_cached [OF inv j] content_cached [OF inv' j'] by (simp add: bufs s'_def s1_def)
    qed
  next
    case False
    then have "x \<noteq> b_blockno b" using ok(6) by (auto simp: b_def)
    then have "disk s' x = disk s x" by (simp add: s'_def s1_def)
    moreover have "content s' x = disk s' x" using False by (intro content_uncached) (simp add: cd)
    ultimately show ?thesis using False by (simp add: content_uncached)
  qed
  then have "content s' = content s" by blast
  moreover have "held s' = held s" using len by (auto simp: held_def bufs nth_list_update nb_def b_def)
  moreover have "b_blockno (buf_at s' j) = b_blockno (buf_at s j) \<and> b_data (buf_at s' j) = b_data (buf_at s j)" for j
    using len by (cases "j = i") (auto simp: bufs nb_def b_def)
  ultimately show ?thesis using r inv' fl len held_content [OF inv h]
    by (intro exI [of _ s']) (auto simp: bufs, auto simp: s'_def s1_def b_def)
qed

lemma wakeup_bcache [simp]:
  "bufs (wakeup ch s) = bufs s" "lru (wakeup ch s) = lru s" "disk (wakeup ch s) = disk s"
  "disksize (wakeup ch s) = disksize s" "dwrites (wakeup ch s) = dwrites s"
  by (simp_all add: wakeup_def wakeup1_def)

text \<open>
  \<open>brelse\<close> of a buffer that is in the log or as it is on disk; the buffer becomes the most
  recently used.
\<close>

lemma brelse_law:
  assumes inv: "bc_inv s" and h: "i \<in> held s"
    and clean: "dirty (buf_at s i) \<or> disk s (b_blockno (buf_at s i)) = content s (b_blockno (buf_at s i))"
  shows "\<exists>s'. brelse i s = Inr s' \<and> bc_inv s' \<and> held s' = held s - {i} \<and> content s' = content s \<and>
     (\<exists>nb. s' = (modb i (\<lambda>_. nb) (wakeup (ChBufLock i) s))\<lparr>lru := i # remove1 i (lru s)\<rparr> \<and>
        nb = (buf_at s i)\<lparr>b_lock := \<lparr>sl_locked = 0, sl_pid = 0\<rparr>, b_refcnt := 0\<rparr>)"
proof -
  from inv obtain pid where pid: "mypid s = Inr pid" unfolding bc_inv_def by blast
  note ok = held_ok [OF inv pid h] and len = held_lt [OF h]
  define nb where "nb = (buf_at s i)\<lparr>b_lock := \<lparr>sl_locked = 0, sl_pid = 0\<rparr>, b_refcnt := 0\<rparr>"
  define s' where "s' = (modb i (\<lambda>_. nb) (wakeup (ChBufLock i) s))\<lparr>lru := i # remove1 i (lru s)\<rparr>"
  have r: "brelse i s = Inr s'"
    using ok len by (simp add: brelse_def releasesleep_def Let_def s'_def nb_def) (simp add: modb_def)
  have bufs: "bufs s' = (bufs s)[i := nb]" "length (bufs s') = length (bufs s)" by (simp_all add: s'_def)
  have same: "disk s' = disk s" "disksize s' = disksize s" by (simp_all add: s'_def)
  have fl: "valid nb = valid (buf_at s i)" "dirty nb = dirty (buf_at s i)" by (simp_all add: nb_def valid_def dirty_def)
  have cd: "cached s' = cached s" using len by (auto simp: fun_eq_iff cached_def bufs nth_list_update nb_def)
  have "buf_ok pid s' (buf_at s' j)" if "j < length (bufs s)" for j
  proof (cases "j = i")
    case True
    have "buf_ok pid s' nb"
      using bc_inv_buf [OF inv pid len] clean held_content [OF inv h] fl ok(3,4)
      by (auto simp: buf_ok_def same) (auto simp: nb_def)
    with True len show ?thesis by (simp add: bufs)
  next
    case False
    then show ?thesis using bc_inv_buf [OF inv pid that] buf_ok_cong [OF same] by (simp add: bufs)
  qed
  moreover have "mypid s' = mypid (wakeup (ChBufLock i) s)" by (simp add: s'_def mypid_def getp_def)
  then have "mypid s' = Inr pid" using pid by simp
  moreover have "distinct (lru s')" "set (lru s') = {..<length (bufs s)}"
    using bc_inv_lru [OF inv] len by (auto simp: s'_def)
  ultimately have inv': "bc_inv s'" using cached_unique [OF inv] unfolding bc_inv_def cd bufs(2) by auto
  have "content s' x = content s x" for x
  proof (cases "\<exists>j. cached s x j")
    case True
    then obtain j where j: "cached s x j" by blast
    then have j': "cached s' x j" by (simp add: cd)
    show ?thesis using content_cached [OF inv j] content_cached [OF inv' j'] fl len
      by (cases "j = i") (simp_all add: bufs same nb_def)
  next
    case False
    moreover have "content s' x = disk s' x" using False by (intro content_uncached) (simp add: cd)
    ultimately show ?thesis by (simp add: content_uncached same)
  qed
  then have "content s' = content s" by blast
  moreover have "held s' = held s - {i}" using len by (auto simp: held_def bufs nth_list_update nb_def split: if_splits)
  ultimately show ?thesis using r inv' by (intro exI [of _ s']) (simp add: s'_def nb_def)
qed

section \<open>The cache provides the block layer\<close>

definition dirtyb :: "'a bcache_st_scheme \<Rightarrow> u32 \<Rightarrow> bool" where
  "dirtyb s b \<longleftrightarrow> (\<exists>i. cached s b i \<and> dirty (buf_at s i))"

definition opened :: "'a bcache_st_scheme \<Rightarrow> (nat \<times> u32) set" where
  "opened s = (\<lambda>i. (i, b_blockno (buf_at s i))) ` held s"

definition room :: "'a bcache_st_scheme \<Rightarrow> nat" where
  "room s = card {i. i < length (bufs s) \<and> \<not> in_use (buf_at s i)}"

lemma room_modb:
  assumes "i < length (bufs s)"
  shows "room (modb i (\<lambda>_. nb) s) + (if in_use (buf_at s i) then 0 else 1) = room s + (if in_use nb then 0 else 1)"
proof -
  let ?F = "{j. j < length (bufs s) \<and> \<not> in_use (buf_at s j)}"
  have "{j. j < length (bufs s) \<and> \<not> in_use ((bufs s)[i := nb] ! j)} = (if in_use nb then ?F - {i} else insert i ?F)"
    using assms by (auto simp: nth_list_update split: if_splits)
  then have r: "room (modb i (\<lambda>_. nb) s) = card (if in_use nb then ?F - {i} else insert i ?F)"
    by (simp add: room_def)
  have fin: "finite ?F" by simp
  show ?thesis
  proof (cases "in_use (buf_at s i)")
    case True
    then have "i \<notin> ?F" by simp
    then show ?thesis using r fin True by (simp add: room_def)
  next
    case False
    then have "i \<in> ?F" using assms by simp
    then have "Suc (card (?F - {i})) = card ?F" "insert i ?F = ?F"
      using card.remove [OF fin] insert_absorb by auto
    then show ?thesis using r False by (auto simp: room_def)
  qed
qed

lemma room_cong: "bufs s' = bufs s \<Longrightarrow> room s' = room s"
  by (simp add: room_def)

lemma held_in_use: "bc_inv s \<Longrightarrow> i \<in> held s \<Longrightarrow> in_use (buf_at s i)"
proof -
  assume a: "bc_inv s" "i \<in> held s"
  from a(1) obtain pid where "mypid s = Inr pid" unfolding bc_inv_def by blast
  from held_ok(1) [OF a(1) this a(2)] show ?thesis by (simp add: in_use_def)
qed

lemma opened_block: "(i, b) \<in> opened s \<longleftrightarrow> i \<in> held s \<and> b = b_blockno (buf_at s i)"
  by (auto simp: opened_def)

lemma opened_not_held: "b \<notin> snd ` opened s \<Longrightarrow> cached s b i \<Longrightarrow> i \<notin> held s"
  by (force simp: opened_def cached_def)

lemma dirtyb_modb:
  assumes i: "i < length (bufs s)" and nb: "dirty nb = (dirty (buf_at s i) \<and> same)"
    and "dirty (buf_at s i) \<Longrightarrow> b_dev nb = b_dev (buf_at s i) \<and> b_blockno nb = b_blockno (buf_at s i)"
  shows "dirtyb (modb i (\<lambda>_. nb) s) b \<longleftrightarrow>
     (\<exists>j. cached s b j \<and> dirty (buf_at s j) \<and> (j = i \<longrightarrow> same))"
proof -
  have "cached (modb i (\<lambda>_. nb) s) b j \<and> dirty (buf_at (modb i (\<lambda>_. nb) s) j) \<longleftrightarrow>
      cached s b j \<and> dirty (buf_at s j) \<and> (j = i \<longrightarrow> same)" for j
    using assms by (cases "j = i") (auto simp: cached_modb [OF i], auto simp: cached_def)
  then show ?thesis unfolding dirtyb_def by blast
qed

lemma more_modb [simp]: "bcache_st.more (modb i f s) = bcache_st.more s"
  by (simp add: modb_def)

lemma bio_rd:
  assumes inv: "bc_inv s" and b: "b < disksize s" and nh: "b \<notin> snd ` opened s" and r: "dirtyb s b \<or> 0 < room s"
  shows "\<exists>i s'. bread 1 b s = Inr (i, s') \<and> bc_inv s' \<and> i \<notin> fst ` opened s \<and> opened s' = insert (i, b) (opened s) \<and>
    content s' = content s \<and> disk s' = disk s \<and> dwrites s' = dwrites s \<and> dirtyb s' = dirtyb s \<and>
    disksize s' = disksize s \<and> bcache_st.more s' = bcache_st.more s \<and> room s = room s' + (if dirtyb s b then 0 else 1)"
proof -
  have "(\<exists>i. cached s b i) \<or> (\<exists>i < length (bufs s). \<not> in_use (buf_at s i))"
    using r by (auto simp: dirtyb_def room_def card_gt_0_iff)
  from bread_law [OF inv b this opened_not_held [OF nh]] obtain i nb where
    rd: "bread 1 b s = Inr (i, modb i (\<lambda>_. nb) s)" and i: "i < length (bufs s)" "i \<notin> held s" and
    inv': "bc_inv (modb i (\<lambda>_. nb) s)" and h: "held (modb i (\<lambda>_. nb) s) = insert i (held s)" and
    c: "content (modb i (\<lambda>_. nb) s) = content s" and nb: "b_dev nb = 1" "b_blockno nb = b" "b_refcnt nb = 1" and
    d: "if cached s b i then dirty nb = dirty (buf_at s i)
      else \<not> dirty nb \<and> \<not> in_use (buf_at s i) \<and> (\<forall>j. \<not> cached s b j)" by blast
  let ?s = "modb i (\<lambda>_. nb) s"
  have op: "opened ?s = insert (i, b) (opened s)"
    unfolding opened_def h using i nb by (auto simp: image_iff nth_list_update split: if_splits)
  have nd: "\<not> dirty (buf_at s i)" if "\<not> cached s b i" using d that by (simp add: in_use_def)
  have db: "dirtyb ?s x = dirtyb s x" for x
  proof -
    have "dirty nb = (dirty (buf_at s i) \<and> True)" using d nd by (auto split: if_splits)
    moreover have "b_dev nb = b_dev (buf_at s i) \<and> b_blockno nb = b_blockno (buf_at s i)" if "dirty (buf_at s i)"
    proof -
      have "cached s b i" using nd that by blast
      then show ?thesis using nb by (simp add: cached_def)
    qed
    ultimately have "dirtyb ?s x \<longleftrightarrow> (\<exists>j. cached s x j \<and> dirty (buf_at s j) \<and> (j = i \<longrightarrow> True))"
      by (rule dirtyb_modb [OF i(1)])
    then show ?thesis by (simp add: dirtyb_def)
  qed
  have unlocked: "b_refcnt (buf_at s i) = 0"
  proof -
    from inv obtain pid where "mypid s = Inr pid" unfolding bc_inv_def by blast
    from bc_inv_buf [OF inv this i(1)] i show ?thesis by (simp add: buf_ok_def held_def)
  qed
  have "in_use (buf_at s i) \<longleftrightarrow> dirtyb s b"
  proof (cases "cached s b i")
    case True
    then have "dirtyb s b \<longleftrightarrow> dirty (buf_at s i)"
      unfolding dirtyb_def using cached_unique [OF inv True] by blast
    then show ?thesis using unlocked by (simp add: in_use_def)
  next
    case False
    then show ?thesis using d by (auto simp: dirtyb_def)
  qed
  moreover have "in_use nb" using nb by (simp add: in_use_def)
  ultimately have "room s = room ?s + (if dirtyb s b then 0 else 1)"
    using room_modb [OF i(1), of nb] by (auto split: if_splits)
  moreover have "i \<notin> fst ` opened s" using i by (auto simp: opened_def)
  ultimately show ?thesis using rd inv' op c db
    by (intro exI [of _ i] exI [of _ ?s]) (auto simp: fun_eq_iff)
qed

lemma bio_put:
  assumes inv: "bc_inv s" and o: "(i, b) \<in> opened s"
  shows "bc_inv (set_data i d s) \<and> content (set_data i d s) = (content s)(b := d) \<and> opened (set_data i d s) = opened s \<and>
    disk (set_data i d s) = disk s \<and> dwrites (set_data i d s) = dwrites s \<and> dirtyb (set_data i d s) = dirtyb s \<and>
    disksize (set_data i d s) = disksize s \<and> bcache_st.more (set_data i d s) = bcache_st.more s \<and>
    room (set_data i d s) = room s"
proof -
  from o have h: "i \<in> held s" and b: "b = b_blockno (buf_at s i)" by (simp_all add: opened_block)
  note law = set_data_law [OF inv h, of d] and len = held_lt [OF h]
  let ?nb = "(buf_at s i)\<lparr>b_data := d\<rparr>"
  have eq: "set_data i d s = modb i (\<lambda>_. ?nb) s" by (simp add: set_data_def modb_def)
  have at: "b_blockno (buf_at (set_data i d s) j) = b_blockno (buf_at s j)" for j
    using len by (cases "j = i") (simp_all add: eq)
  have fl: "dirty ?nb = dirty (buf_at s i)" "in_use ?nb = in_use (buf_at s i)" by (simp_all add: dirty_def in_use_def)
  have "dirtyb (set_data i d s) x = dirtyb s x" for x
    unfolding eq using dirtyb_modb [OF len, of ?nb True x] fl by (simp add: dirtyb_def)
  moreover have "room (set_data i d s) = room s" unfolding eq using room_modb [OF len, of ?nb] fl by (auto split: if_splits)
  ultimately show ?thesis using law b at by (auto simp: opened_def fun_eq_iff) (simp_all add: eq)
qed

lemma bio_pin:
  assumes inv: "bc_inv s" and o: "(i, b) \<in> opened s"
  shows "bc_inv (pin i s) \<and> content (pin i s) = content s \<and> opened (pin i s) = opened s \<and>
    disk (pin i s) = disk s \<and> dwrites (pin i s) = dwrites s \<and> dirtyb (pin i s) = (dirtyb s)(b := True) \<and>
    disksize (pin i s) = disksize s \<and> bcache_st.more (pin i s) = bcache_st.more s \<and> room (pin i s) = room s"
proof -
  from o have h: "i \<in> held s" and b: "b = b_blockno (buf_at s i)" by (simp_all add: opened_block)
  from inv obtain pid where pid: "mypid s = Inr pid" unfolding bc_inv_def by blast
  note ok = held_ok [OF inv pid h] and len = held_lt [OF h]
  let ?nb = "(buf_at s i)\<lparr>b_flags := b_flags (buf_at s i) OR B_DIRTY\<rparr>"
  have eq: "pin i s = modb i (\<lambda>_. ?nb) s" by (simp add: pin_def modb_def)
  have fl: "valid ?nb" "dirty ?nb" "in_use ?nb" using ok(1,3) by (simp_all add: flag_simps in_use_def)
  have "buf_ok pid s ?nb" using bc_inv_buf [OF inv pid len] h fl ok(3) by (auto simp: buf_ok_def held_def)
  then have inv': "bc_inv (pin i s)" unfolding eq
    by (rule bc_inv_modb [OF inv len pid]) (use ok(6) in \<open>auto dest: cached_unique [OF inv]\<close>)
  have cd: "cached (pin i s) x j = cached s x j" for x j
    using len by (auto simp: eq cached_modb, auto simp: cached_def)
  have at: "buf_at (pin i s) j = (if j = i then ?nb else buf_at s j)" for j using len by (simp add: eq)
  have "content (pin i s) x = content s x" for x
  proof (cases "\<exists>j. cached s x j")
    case True
    then obtain j where j: "cached s x j" by blast
    then have j': "cached (pin i s) x j" by (simp add: cd)
    have "disk (pin i s) = disk s" by (simp add: eq)
    then show ?thesis using content_cached [OF inv j] content_cached [OF inv' j'] fl(1) ok(3) by (simp add: at)
  next
    case False
    then show ?thesis by (simp add: content_uncached cd) (simp add: eq)
  qed
  moreover have "dirtyb (pin i s) x = ((dirtyb s)(b := True)) x" for x
  proof (cases "x = b")
    case True
    then show ?thesis using ok(6) fl(2) b by (auto simp: dirtyb_def cd at)
  next
    case False
    then have "\<not> cached s x i" using b by (auto simp: cached_def)
    then have "cached s x j \<and> dirty (buf_at (pin i s) j) \<longleftrightarrow> cached s x j \<and> dirty (buf_at s j)" for j
      by (cases "j = i") (simp_all add: at)
    then show ?thesis using False by (simp add: dirtyb_def cd)
  qed
  moreover have "room (pin i s) = room s"
    unfolding eq using room_modb [OF len, of ?nb] fl held_in_use [OF inv h] by (auto split: if_splits)
  moreover have "held (pin i s) = held s" using len by (auto simp: held_def eq nth_list_update)
  then have "opened (pin i s) = opened s" by (auto simp: opened_def at)
  ultimately show ?thesis using inv' by (auto simp: fun_eq_iff) (simp_all add: eq)
qed

lemma bio_wr:
  assumes inv: "bc_inv s" and o: "(i, b) \<in> opened s"
  shows "\<exists>s'. bwrite i s = Inr s' \<and> bc_inv s' \<and> opened s' = opened s \<and> content s' = content s \<and>
    disk s' = (disk s)(b := content s b) \<and> dwrites s' = (b, content s b) # dwrites s \<and>
    dirtyb s' = (dirtyb s)(b := False) \<and> disksize s' = disksize s \<and> bcache_st.more s' = bcache_st.more s \<and> room s' = room s"
proof -
  from o have h: "i \<in> held s" and b: "b = b_blockno (buf_at s i)" by (simp_all add: opened_block)
  from inv obtain pid where pid: "mypid s = Inr pid" unfolding bc_inv_def by blast
  note ok = held_ok [OF inv pid h] and len = held_lt [OF h]
  from bwrite_law [OF inv h] obtain s' where s': "bwrite i s = Inr s'" "bc_inv s'" "held s' = held s" "content s' = content s"
    "disk s' = (disk s)(b := content s b)" "dwrites s' = (b, content s b) # dwrites s"
    "\<And>j. b_blockno (buf_at s' j) = b_blockno (buf_at s j)"
    "\<not> dirty (buf_at s' i)" "\<And>j. j \<noteq> i \<Longrightarrow> buf_at s' j = buf_at s j" unfolding b by blast
  have form: "\<exists>nb. bufs s' = (bufs s)[i := nb] \<and> disksize s' = disksize s \<and> bcache_st.more s' = bcache_st.more s \<and> in_use nb \<and> b_dev nb = 1"
    using bwrite_eq [OF inv h] s'(1) ok(1,4) by (auto simp: modb_def in_use_def)
  then have len': "length (bufs s') = length (bufs s)" and iu: "in_use (buf_at s' i)" and dev: "b_dev (buf_at s' i) = 1"
    using len by auto
  have cd: "cached s' x j = cached s x j" for x j
    using s'(7,9) len' dev ok(4) by (cases "j = i") (auto simp: cached_def)
  have "dirtyb s' x = ((dirtyb s)(b := False)) x" for x
  proof (cases "x = b")
    case True
    then show ?thesis using cached_unique [OF inv ok(6)] s'(8) b by (auto simp: dirtyb_def cd)
  next
    case False
    then have "\<not> cached s x i" using b by (auto simp: cached_def)
    then have "cached s x j \<and> dirty (buf_at s' j) \<longleftrightarrow> cached s x j \<and> dirty (buf_at s j)" for j
      using s'(9) by (cases "j = i") auto
    then show ?thesis using False by (simp add: dirtyb_def cd)
  qed
  moreover have "room s' = room s"
  proof -
    have "in_use (buf_at s' j) = in_use (buf_at s j)" for j
      using s'(9) iu held_in_use [OF inv h] by (cases "j = i") auto
    then show ?thesis by (simp add: room_def len')
  qed
  moreover have "opened s' = opened s" using s'(3,7) by (simp add: opened_def)
  ultimately show ?thesis using s' form by (intro exI [of _ s']) (auto simp: fun_eq_iff)
qed

lemma bio_rel:
  assumes inv: "bc_inv s" and o: "(i, b) \<in> opened s" and c: "dirtyb s b \<or> disk s b = content s b"
  shows "\<exists>s'. brelse i s = Inr s' \<and> bc_inv s' \<and> opened s' = opened s - {(i, b)} \<and> content s' = content s \<and>
    disk s' = disk s \<and> dwrites s' = dwrites s \<and> dirtyb s' = dirtyb s \<and> disksize s' = disksize s \<and>
    bcache_st.more s' = bcache_st.more s \<and> room s' = room s + (if dirtyb s b then 0 else 1)"
proof -
  from o have h: "i \<in> held s" and b: "b = b_blockno (buf_at s i)" by (simp_all add: opened_block)
  from inv obtain pid where pid: "mypid s = Inr pid" unfolding bc_inv_def by blast
  note ok = held_ok [OF inv pid h] and len = held_lt [OF h]
  have db: "dirty (buf_at s i) = dirtyb s b"
    using cached_unique [OF inv ok(6)] ok(6) b by (auto simp: dirtyb_def)
  with c have "dirty (buf_at s i) \<or> disk s (b_blockno (buf_at s i)) = content s (b_blockno (buf_at s i))" by (simp add: b)
  from brelse_law [OF inv h this] obtain s' nb where s': "brelse i s = Inr s'" "bc_inv s'" "held s' = held s - {i}"
    "content s' = content s" "s' = (modb i (\<lambda>_. nb) (wakeup (ChBufLock i) s))\<lparr>lru := i # remove1 i (lru s)\<rparr>"
    "nb = (buf_at s i)\<lparr>b_lock := \<lparr>sl_locked = 0, sl_pid = 0\<rparr>, b_refcnt := 0\<rparr>" by blast
  have bufs: "bufs s' = bufs (modb i (\<lambda>_. nb) s)" by (simp add: s'(5))
  have fl: "dirty nb = dirty (buf_at s i)" "in_use nb = dirty (buf_at s i)" by (simp_all add: s'(6) dirty_def in_use_def)
  have "dirtyb s' x = dirtyb (modb i (\<lambda>_. nb) s) x" for x by (simp add: dirtyb_def cached_def bufs)
  moreover have "dirtyb (modb i (\<lambda>_. nb) s) x = dirtyb s x" for x
    using dirtyb_modb [OF len, of nb True x] fl s'(6) by (simp add: dirtyb_def)
  moreover have "room s' = room s + (if dirtyb s b then 0 else 1)"
    using room_modb [OF len, of nb] room_cong [OF bufs] fl held_in_use [OF inv h] db by simp
  moreover have "opened s' = opened s - {(i, b)}"
    unfolding opened_def s'(3) using len by (auto simp: bufs nth_list_update s'(6) b split: if_splits)
  ultimately show ?thesis using s'(1,2,4)
    by (intro exI [of _ s']) (auto simp: fun_eq_iff, simp_all add: s'(5) wakeup_def wakeup1_def)
qed

lemma bio_clean:
  assumes inv: "bc_inv s" and nh: "b \<notin> snd ` opened s" and "\<not> dirtyb s b"
  shows "content s b = disk s b"
proof (cases "\<exists>i. cached s b i")
  case True
  then obtain i where i: "cached s b i" by blast
  from inv obtain pid where pid: "mypid s = Inr pid" unfolding bc_inv_def by blast
  have "buf_ok pid s (buf_at s i)" "i \<notin> held s"
    using bc_inv_buf [OF inv pid] i opened_not_held [OF nh i] by (auto simp: cached_def)
  moreover have "\<not> dirty (buf_at s i)" using assms(3) i by (auto simp: dirtyb_def)
  ultimately show ?thesis using content_cached [OF inv i] i by (auto simp: cached_def held_def buf_ok_def)
next
  case False
  then show ?thesis by (simp add: content_uncached)
qed

interpretation bio: block_layer bc_inv content disk dwrites dirtyb opened room disksize bcache_st.more
  "bread 1" "\<lambda>i s. b_data (buf_at s i)" set_data pin bwrite brelse
proof (unfold_locales, goal_cases)
  case 1 then show ?case by (rule bio_rd)
next
  case (2 s i b) then show ?case using held_content [of s i] by (auto simp: opened_block)
next
  case 3 then show ?case by (rule bio_put)
next
  case 4 then show ?case by (rule bio_pin)
next
  case 5 then show ?case by (rule bio_wr)
next
  case 6 then show ?case by (rule bio_rel)
next
  case 7 then show ?case by (rule bio_clean)
qed

lemma binit_sel [simp]:
  "bufs (binit s) = map (\<lambda>b. b\<lparr>b_lock := initsleeplock\<rparr>) (bufs s)"
  "disk (binit s) = disk s" "disksize (binit s) = disksize s" "mypid (binit s) = mypid s"
  by (simp_all add: binit_def mypid_def getp_def)

lemma binit_facts:
  assumes "bufs s = replicate n zero_buf" "mypid s = Inr pid"
  shows "bc_inv (binit s) \<and> held (binit s) = {} \<and> content (binit s) = disk s \<and> room (binit s) = n"
proof -
  have z: "buf_at (binit s) i = zero_buf" if "i < n" for i
    using that assms(1) by (simp add: zero_buf_def)
  have nc: "\<not> cached (binit s) b i" for b i
    using z [of i] assms(1) by (auto simp: cached_def zero_buf_def)
  have "lru (binit s) = rev [0..<n]" using assms(1) by (simp add: binit_def fold_Cons_rev)
  then have "distinct (lru (binit s)) \<and> set (lru (binit s)) = {..<length (bufs (binit s))}"
    using assms(1) by (auto simp: atLeast0LessThan)
  moreover have "buf_ok pid (binit s) (buf_at (binit s) i)" if "i < n" for i
    unfolding z [OF that] by (simp add: buf_ok_def zero_buf_def initsleeplock_def dirty_def)
  ultimately have "bc_inv (binit s)"
    unfolding bc_inv_def using nc assms by (simp del: binit_sel(1)) (simp add: assms(1))
  moreover have "content (binit s) b = disk s b" for b using nc by (simp add: content_uncached)
  moreover have "held (binit s) = {}" using assms(1) by (auto simp: held_def zero_buf_def initsleeplock_def)
  moreover have "{i. i < length (bufs (binit s)) \<and> \<not> in_use (buf_at (binit s) i)} = {..<n}"
    using z assms(1) by (auto simp: in_use_def dirty_def zero_buf_def)
  ultimately show ?thesis by (auto simp: room_def)
qed

text \<open>Zeroed buffers, with one process running, before and after \<open>binit\<close>.\<close>

definition zero_bcache :: "nat \<Rightarrow> (u32 \<Rightarrow> bytes) \<Rightarrow> bcache_st" where
  "zero_bcache n d = ptable_st.extend (zero_ptable [zero_proc\<lparr>p_pid := 1\<rparr>]\<lparr>cpu_proc := Some 0\<rparr>)
     \<lparr>pmem = (\<lambda>_ _. 0), freelist = 0, use_lock = 1, kernel_end = 0x80100000, kernel_data = 0x80108000,
      bufs = replicate n zero_buf, lru = [], disk = d, disksize = 100, dwrites = []\<rparr>"

definition small_bcache :: "nat \<Rightarrow> (u32 \<Rightarrow> bytes) \<Rightarrow> bcache_st" where
  "small_bcache n d = binit (zero_bcache n d)"

lemma zero_bcache:
  "mypid (zero_bcache n d) = Inr 1" "disksize (zero_bcache n d) = 100" "disk (zero_bcache n d) = d"
  "bufs (zero_bcache n d) = replicate n zero_buf"
  by (simp_all add: zero_bcache_def ptable_st.defs zero_ptable_def mypid_def getp_def aget_def)

lemma small_bcache:
  "disksize (small_bcache n d) = 100" "disk (small_bcache n d) = d" "bufs (small_bcache n d) = replicate n zero_buf"
  "bc_inv (small_bcache n d)" "held (small_bcache n d) = {}" "room (small_bcache n d) = n" "content (small_bcache n d) = d"
  using binit_facts [OF zero_bcache(4,1)] by (simp_all add: small_bcache_def zero_bcache zero_buf_def)

lemma small_bcache_uncached: "\<not> cached (small_bcache n d) b i"
  by (auto simp: cached_def small_bcache zero_buf_def nth_replicate)

section \<open>Properties\<close>

text \<open>
  (C34) \<open>bread\<close> of a block that is not locked returns a buffer holding the block's current
  content, locked, as long as the block is cached or some buffer is neither referenced nor
  dirty; the invariant of the cache and the content of every block are kept, whether the
  block was found, read from the disk or took the place of another.
\<close>

theorem bread_content:
  assumes "bc_inv s" "b < disksize s"
    and "(\<exists>i. cached s b i) \<or> (\<exists>i < length (bufs s). \<not> in_use (buf_at s i))"
    and "\<And>i. cached s b i \<Longrightarrow> i \<notin> held s"
  shows "\<exists>i s'. bread 1 b s = Inr (i, s') \<and> b_data (buf_at s' i) = content s b \<and> bc_inv s' \<and>
     content s' = content s \<and> held s' = insert i (held s) \<and> i \<notin> held s"
  using bread_law [OF assms] by fastforce

theorem bread_content_witness:
  "\<exists>i s'. bread 1 7 (small_bcache 2 (\<lambda>_ _. 5)) = Inr (i, s') \<and> b_data (buf_at s' i) = (\<lambda>_. 5)"
proof -
  have "\<not> in_use (buf_at (small_bcache 2 (\<lambda>_ _. 5)) 0)"
    by (simp add: small_bcache in_use_def dirty_def zero_buf_def)
  then show ?thesis using bread_content [of "small_bcache 2 (\<lambda>_ _. 5)" 7]
    by (fastforce simp: small_bcache small_bcache_uncached)
qed

text \<open>
  From buffers that static storage has zeroed, \<open>binit\<close> makes a cache that satisfies the
  invariant for whichever process runs, holds no buffer, and shows the disk's own blocks.
\<close>

theorem binit_inv:
  assumes "bufs s = replicate n zero_buf" "mypid s = Inr pid"
  shows "bc_inv (binit s) \<and> held (binit s) = {} \<and> content (binit s) = disk s \<and> room (binit s) = n"
  using assms by (rule binit_facts)

theorem binit_inv_witness: 
  "bc_inv (binit (zero_bcache 2 (\<lambda>_ _. 5))) \<and> content (binit (zero_bcache 2 (\<lambda>_ _. 5))) 7 = (\<lambda>_. 5)"
  using binit_inv [of "zero_bcache 2 (\<lambda>_ _. 5)" 2 1] by (simp add: zero_bcache)

text \<open>
  (C35) A block that is opened, given new data, written with \<open>bwrite\<close> and released reads back
  with these data when it is opened again, the disk holds them, and every other block of
  the disk and of the cache is as before.
\<close>

theorem bwrite_bread_roundtrip:
  assumes "bc_inv s" "opened s = {}" "b < disksize s" "0 < room s" "\<not> dirtyb s b"
  shows "\<exists>i s1 s2 s3 j s4. bread 1 b s = Inr (i, s1) \<and> bwrite i (set_data i d s1) = Inr s2 \<and>
     brelse i s2 = Inr s3 \<and> disk s3 = (disk s)(b := d) \<and> content s3 = (content s)(b := d) \<and>
     bread 1 b s3 = Inr (j, s4) \<and> b_data (buf_at s4 j) = d"
proof -
  from bio.write_through [OF assms, of d] obtain i s1 s2 s3 where
    w: "bread 1 b s = Inr (i, s1)" "bwrite i (set_data i d s1) = Inr s2" "brelse i s2 = Inr s3"
      "content s3 = (content s)(b := d)" "disk s3 = (disk s)(b := d)"
    and n: "bc_inv s3" "opened s3 = {}" "disksize s3 = disksize s" "room s3 = room s" by auto
  from bio.read_closed [of s3 b] n assms(3,4) w(4) obtain j s4 where
    "bread 1 b s3 = Inr (j, s4)" "b_data (buf_at s4 j) = d" by auto
  with w show ?thesis by blast
qed

theorem bwrite_bread_roundtrip_witness:
  "\<exists>i s1 s2 s3. bread 1 7 (small_bcache 2 (\<lambda>_ _. 5)) = Inr (i, s1) \<and> bwrite i (set_data i (\<lambda>_. 9) s1) = Inr s2 \<and>
     brelse i s2 = Inr s3 \<and> disk s3 7 = (\<lambda>_. 9)"
  using bwrite_bread_roundtrip [of "small_bcache 2 (\<lambda>_ _. 5)" 7 "\<lambda>_. 9"]
  by (fastforce simp: small_bcache small_bcache_uncached opened_def dirtyb_def)

end
