(* ===== verification/Log.thy ===== *)
theory Log
  imports Bio
begin

text \<open>
  The write-ahead log of \<open>log.c\<close>, with \<open>readsb\<close> of \<open>fs.c\<close>, which \<open>initlog\<close> calls. A
  critical section under \<open>log.lock\<close> is one step; \<open>begin_op\<close> that must wait is the fault
  \<^term>\<open>Asleep ChLog\<close>. The header block holds \<open>n\<close> in its first four bytes and \<open>block[i]\<close> at
  offset \<open>4 + 4 * i\<close>. The main result is that a transaction is atomic under crashes:
  whichever of the disk writes of \<open>commit\<close> have been done, recovery gives all of the new
  blocks or none of them.
\<close>

section \<open>State and operations\<close>

definition MAXOPBLOCKS :: int where "MAXOPBLOCKS = 10"
definition LOGSIZE :: int where "LOGSIZE = MAXOPBLOCKS * 3"

record superblock =
  sb_size :: u32
  sb_nblocks :: u32
  sb_ninodes :: u32
  sb_nlog :: u32
  sb_logstart :: u32
  sb_inodestart :: u32
  sb_bmapstart :: u32

definition sb_of :: "bytes \<Rightarrow> superblock" where
  "sb_of d = \<lparr>sb_size = get32 d 0, sb_nblocks = get32 d 4, sb_ninodes = get32 d 8, sb_nlog = get32 d 12,
     sb_logstart = get32 d 16, sb_inodestart = get32 d 20, sb_bmapstart = get32 d 24\<rparr>"

definition readsb :: "int \<Rightarrow> 'a bcache_st_scheme \<Rightarrow> (superblock \<times> 'a bcache_st_scheme) res" where
  "readsb dev s = bnd (bread (uint_of_int dev) 1 s) (\<lambda>(bp, s).
     let sb = sb_of (b_data (buf_at s bp)) in bnd (brelse bp s) (\<lambda>s. Inr (sb, s)))"

record log_st = bcache_st +
  log_start :: int
  log_size :: int
  log_outstanding :: int
  log_committing :: int
  log_dev :: int
  lh_n :: int
  lh_block :: "int list"

text \<open>
  The data of a buffer are its \<open>BSIZE\<close> bytes, so \<open>memmove(to->data, from->data, BSIZE)\<close>
  between two buffers sets the data of one to those of the other.
\<close>

definition install_step :: "nat \<Rightarrow> 'a log_st_scheme \<Rightarrow> 'a log_st_scheme res" where
  "install_step tail s =
     bnd (bread (uint_of_int (log_dev s)) (uint_of_int (log_start s + int tail + 1)) s) (\<lambda>(lbuf, s).
     bnd (aget (lh_block s) (int tail)) (\<lambda>blk.
     bnd (bread (uint_of_int (log_dev s)) (uint_of_int blk) s) (\<lambda>(dbuf, s).
     bnd (bwrite dbuf (set_data dbuf (b_data (buf_at s lbuf)) s)) (\<lambda>s.
     bnd (brelse lbuf s) (brelse dbuf)))))"

definition install_trans :: "'a log_st_scheme \<Rightarrow> 'a log_st_scheme res" where
  "install_trans s = foreach install_step 0 (nat (lh_n s)) s"

definition read_head :: "'a log_st_scheme \<Rightarrow> 'a log_st_scheme res" where
  "read_head s =
     bnd (bread (uint_of_int (log_dev s)) (uint_of_int (log_start s)) s) (\<lambda>(buf, s).
     let lh = b_data (buf_at s buf); s = s\<lparr>lh_n := int_of_uint (get32 lh 0)\<rparr> in
     bnd (foreach (\<lambda>i s. bnd (aput (lh_block s) (int i) (int_of_uint (get32 lh (4 + 4 * i))))
                          (\<lambda>bl. Inr (s\<lparr>lh_block := bl\<rparr>))) 0 (nat (lh_n s)) s)
       (brelse buf))"

definition head_bytes :: "int \<Rightarrow> int list \<Rightarrow> bytes \<Rightarrow> bytes res" where
  "head_bytes n bl hb =
     foreach (\<lambda>i hb. bnd (aget bl (int i)) (\<lambda>b. Inr (put32 (4 + 4 * i) (uint_of_int b) hb))) 0 (nat n)
       (put32 0 (uint_of_int n) hb)"

definition write_head :: "'a log_st_scheme \<Rightarrow> 'a log_st_scheme res" where
  "write_head s =
     bnd (bread (uint_of_int (log_dev s)) (uint_of_int (log_start s)) s) (\<lambda>(buf, s).
     bnd (head_bytes (lh_n s) (lh_block s) (b_data (buf_at s buf))) (\<lambda>hb.
     bnd (bwrite buf (set_data buf hb s)) (brelse buf)))"

definition recover_from_log :: "'a log_st_scheme \<Rightarrow> 'a log_st_scheme res" where
  "recover_from_log s =
     bnd (read_head s) (\<lambda>s. bnd (install_trans s) (\<lambda>s. write_head (s\<lparr>lh_n := 0\<rparr>)))"

definition initlog :: "int \<Rightarrow> 'a log_st_scheme \<Rightarrow> 'a log_st_scheme res" where
  "initlog dev s =
     (if 4 + 4 * LOGSIZE \<ge> int BSIZE then Inl (Panic ''initlog: too big logheader'')
      else bnd (readsb dev s) (\<lambda>(sb, s).
        recover_from_log (s\<lparr>log_start := int_of_uint (sb_logstart sb), log_size := int_of_uint (sb_nlog sb),
                            log_dev := dev\<rparr>)))"

definition begin_op :: "'a log_st_scheme \<Rightarrow> 'a log_st_scheme res" where
  "begin_op s =
     (if log_committing s \<noteq> 0 then Inl (Asleep ChLog)
      else if lh_n s + (log_outstanding s + 1) * MAXOPBLOCKS > LOGSIZE then Inl (Asleep ChLog)
      else Inr (s\<lparr>log_outstanding := log_outstanding s + 1\<rparr>))"

definition write_step :: "nat \<Rightarrow> 'a log_st_scheme \<Rightarrow> 'a log_st_scheme res" where
  "write_step tail s =
     bnd (bread (uint_of_int (log_dev s)) (uint_of_int (log_start s + int tail + 1)) s) (\<lambda>(to, s).
     bnd (aget (lh_block s) (int tail)) (\<lambda>blk.
     bnd (bread (uint_of_int (log_dev s)) (uint_of_int blk) s) (\<lambda>(frm, s).
     bnd (bwrite to (set_data to (b_data (buf_at s frm)) s)) (\<lambda>s.
     bnd (brelse frm s) (brelse to)))))"

definition write_log :: "'a log_st_scheme \<Rightarrow> 'a log_st_scheme res" where
  "write_log s = foreach write_step 0 (nat (lh_n s)) s"

definition commit :: "'a log_st_scheme \<Rightarrow> 'a log_st_scheme res" where
  "commit s =
     (if lh_n s > 0 then
        bnd (write_log s) (\<lambda>s. bnd (write_head s) (\<lambda>s. bnd (install_trans s) (\<lambda>s.
          write_head (s\<lparr>lh_n := 0\<rparr>))))
      else Inr s)"

definition end_op :: "'a log_st_scheme \<Rightarrow> 'a log_st_scheme res" where
  "end_op s =
     (let s = s\<lparr>log_outstanding := log_outstanding s - 1\<rparr> in
      if log_committing s \<noteq> 0 then Inl (Panic ''log.committing'')
      else if log_outstanding s = 0
      then bnd (commit (s\<lparr>log_committing := 1\<rparr>)) (\<lambda>s. Inr (wakeup ChLog (s\<lparr>log_committing := 0\<rparr>)))
      else Inr (wakeup ChLog s))"

definition log_write :: "nat \<Rightarrow> 'a log_st_scheme \<Rightarrow> 'a log_st_scheme res" where
  "log_write b s =
     (if lh_n s \<ge> LOGSIZE \<or> lh_n s \<ge> log_size s - 1 then Inl (Panic ''too big a transaction'')
      else if log_outstanding s < 1 then Inl (Panic ''log_write outside of trans'')
      else let blockno = b_blockno (buf_at s b);
               i = (case first_idx (\<lambda>x. uint_of_int x = blockno) (take (nat (lh_n s)) (lh_block s)) of
                      Some i \<Rightarrow> int i | None \<Rightarrow> lh_n s) in
        bnd (aput (lh_block s) i (int_of_uint blockno)) (\<lambda>bl.
          let s = s\<lparr>lh_block := bl\<rparr>; s = (if i = lh_n s then s\<lparr>lh_n := lh_n s + 1\<rparr> else s) in
          Inr (pin b s)))"

section \<open>Steps of the log between quiet states\<close>

text \<open>
  Between its steps the log holds no buffer. \<open>quiet r s c d w p nb m\<close> names all that matters
  of such a state: the content \<open>c\<close> of the blocks, the disk \<open>d\<close>, the writes \<open>w\<close> done so far,
  the pinned blocks \<open>p\<close>, the size \<open>nb\<close> of the disk and the rest \<open>m\<close> of the state; the cache
  has at least \<open>r\<close> buffers, those of the pinned blocks included.
\<close>

definition quiet :: "nat \<Rightarrow> 'a bcache_st_scheme \<Rightarrow> (u32 \<Rightarrow> bytes) \<Rightarrow> (u32 \<Rightarrow> bytes) \<Rightarrow> (u32 \<times> bytes) list \<Rightarrow>
    (u32 \<Rightarrow> bool) \<Rightarrow> u32 \<Rightarrow> 'a \<Rightarrow> bool" where
  "quiet r s c d w p nb m \<longleftrightarrow> bc_inv s \<and> opened s = {} \<and> r \<le> room s + card (Collect p) \<and> content s = c \<and> disk s = d \<and>
     dwrites s = w \<and> dirtyb s = p \<and> disksize s = nb \<and> bcache_st.more s = m"

definition logblk :: "int \<Rightarrow> nat \<Rightarrow> u32" where
  "logblk st k = uint_of_int (st + int k + 1)"

definition lhb :: "int list \<Rightarrow> nat \<Rightarrow> u32" where
  "lhb bl k = uint_of_int (bl ! k)"

lemma card_upd:
  "card (Collect (p(b := False))) + (if p b then 1 else 0) = card (Collect p)"
  "card (Collect (p(b := True))) = card (Collect p) + (if p b then 0 else 1)" for p :: "u32 \<Rightarrow> bool"
proof -
  have "Collect (p(b := False)) = Collect p - {b}" "Collect (p(b := True)) = insert b (Collect p)"
    by (auto split: if_splits)
  then show "card (Collect (p(b := False))) + (if p b then 1 else 0) = card (Collect p)"
    "card (Collect (p(b := True))) = card (Collect p) + (if p b then 0 else 1)"
    using card_Suc_Diff1 [of "Collect p" b] by (auto simp: card_insert_if)
qed

lemma uint_of_int_1 [simp]: "uint_of_int 1 = 1"
  by (simp add: uint_of_int_def)

lemma uint_of_int_of_uint [simp]: "uint_of_int (int_of_uint w) = w"
  by (simp add: uint_of_int_def int_of_uint_def)

lemma quiet_clean: "quiet r s c d w p nb m \<Longrightarrow> \<not> p b \<Longrightarrow> c b = d b"
  unfolding quiet_def using bio.clean_law [of s b] by auto

lemma more_log:
  assumes "bcache_st.more s' = bcache_st.more (s :: 'a log_st_scheme)"
  shows "log_start s' = log_start s" "log_size s' = log_size s" "log_outstanding s' = log_outstanding s"
    "log_committing s' = log_committing s" "log_dev s' = log_dev s" "lh_n s' = lh_n s" "lh_block s' = lh_block s"
  using assms by (cases s; cases s'; simp)+

lemma install_step_law:
  assumes q: "quiet r s c d w p nb m" and "log_dev s = 1" "k < length (lh_block s)"
    and ab: "a = logblk (log_start s) k" "b = lhb (lh_block s) k" "a < nb" "b < nb" "a \<noteq> b"
    and room: "p a \<or> card (Collect p) < r" "p b \<or> card (Collect p) + (if p a then 0 else 1) < r"
  shows "\<exists>s'. install_step k s = Inr s' \<and> quiet r s' (c(b := c a)) (d(b := c a)) ((b, c a) # w) (p(b := False)) nb m"
proof -
  have "dirtyb s a \<or> 0 < room s" "dirtyb s b \<or> 0 < room s" "dirtyb s b \<or> (if dirtyb s a then 0 else 1) < room s"
    "dirtyb s a \<or> (if dirtyb s b then 0 else 1) < room s" using q room by (auto simp: quiet_def split: if_splits)
  with bio.copy_src_first [of s a b] q ab(3-5) obtain i j s1 s2 s3 where
    r: "bread 1 a s = Inr (i, s1)" "bcache_st.more s1 = bcache_st.more s" "bread 1 b s1 = Inr (j, s2)"
      "bnd (bwrite j (set_data j (b_data (buf_at s2 i)) s2)) (\<lambda>s. bnd (brelse i s) (brelse j)) = Inr s3"
    and s3: "bc_inv s3" "opened s3 = {}" "content s3 = (content s)(b := content s a)" "disk s3 = (disk s)(b := content s a)"
      "dwrites s3 = (b, content s a) # dwrites s" "dirtyb s3 = (dirtyb s)(b := False)" "disksize s3 = disksize s"
      "bcache_st.more s3 = bcache_st.more s" "room s3 = room s + (if dirtyb s b then 1 else 0)"
    unfolding quiet_def by force
  have "install_step k s = Inr s3"
    using r assms(2,3) ab(1,2) more_log [OF r(2)] by (simp add: install_step_def logblk_def lhb_def aget_def)
  with s3 q card_upd(1) [of p b] show ?thesis unfolding quiet_def by auto
qed

lemma write_step_law:
  assumes q: "quiet r s c d w p nb m" and "log_dev s = 1" "k < length (lh_block s)"
    and ab: "b = logblk (log_start s) k" "a = lhb (lh_block s) k" "a < nb" "b < nb" "a \<noteq> b"
    and room: "p b \<or> card (Collect p) < r" "p a \<or> card (Collect p) + (if p b then 0 else 1) < r"
  shows "\<exists>s'. write_step k s = Inr s' \<and> quiet r s' (c(b := c a)) (d(b := c a)) ((b, c a) # w) (p(b := False)) nb m"
proof -
  have "dirtyb s a \<or> 0 < room s" "dirtyb s b \<or> 0 < room s" "dirtyb s b \<or> (if dirtyb s a then 0 else 1) < room s"
    "dirtyb s a \<or> (if dirtyb s b then 0 else 1) < room s" using q room by (auto simp: quiet_def split: if_splits)
  with bio.copy_dst_first [of s a b] q ab(3-5) obtain i j s1 s2 s3 where
    r: "bread 1 b s = Inr (j, s1)" "bcache_st.more s1 = bcache_st.more s" "bread 1 a s1 = Inr (i, s2)"
      "bnd (bwrite j (set_data j (b_data (buf_at s2 i)) s2)) (\<lambda>s. bnd (brelse i s) (brelse j)) = Inr s3"
    and s3: "bc_inv s3" "opened s3 = {}" "content s3 = (content s)(b := content s a)" "disk s3 = (disk s)(b := content s a)"
      "dwrites s3 = (b, content s a) # dwrites s" "dirtyb s3 = (dirtyb s)(b := False)" "disksize s3 = disksize s"
      "bcache_st.more s3 = bcache_st.more s" "room s3 = room s + (if dirtyb s b then 1 else 0)"
    unfolding quiet_def by force
  have "write_step k s = Inr s3"
    using r assms(2,3) ab(1,2) more_log [OF r(2)] by (simp add: write_step_def logblk_def lhb_def aget_def)
  with s3 q card_upd(1) [of p b] show ?thesis unfolding quiet_def by auto
qed

text \<open>The header block that \<open>write_head\<close> makes of the old one.\<close>

definition head_data :: "nat \<Rightarrow> int list \<Rightarrow> bytes \<Rightarrow> bytes" where
  "head_data n bl hb = fold (\<lambda>i. put32 (4 + 4 * i) (lhb bl i)) [0..<n] (put32 0 (uint_of_int (int n)) hb)"

lemma head_bytes_eq:
  assumes "n \<le> length bl"
  shows "head_bytes (int n) bl hb = Inr (head_data n bl hb)"
proof -
  let ?h = "\<lambda>k. fold (\<lambda>i. put32 (4 + 4 * i) (lhb bl i)) [0..<k] (put32 0 (uint_of_int (int n)) hb)"
  have "\<exists>d. foreach (\<lambda>i hb. bnd (aget bl (int i)) (\<lambda>b. Inr (put32 (4 + 4 * i) (uint_of_int b) hb))) 0 n
      (put32 0 (uint_of_int (int n)) hb) = Inr d \<and> d = ?h n"
    by (rule foreach_inv) (use assms in \<open>auto simp: aget_def lhb_def\<close>)
  then show ?thesis by (simp add: head_bytes_def head_data_def)
qed

lemma head_data_get:
  "get32 (head_data n bl hb) 0 = uint_of_int (int n)"
  "k < n \<Longrightarrow> get32 (head_data n bl hb) (4 + 4 * k) = lhb bl k"
proof -
  have "get32 (fold (\<lambda>i. put32 (4 + 4 * i) (lhb bl i)) [0..<j] h) 0 = get32 h 0" for j h
    by (induction j) (simp_all add: get32_put32_other)
  then show "get32 (head_data n bl hb) 0 = uint_of_int (int n)" by (simp add: head_data_def)
  have "k < j \<Longrightarrow> get32 (fold (\<lambda>i. put32 (4 + 4 * i) (lhb bl i)) [0..<j] h) (4 + 4 * k) = lhb bl k" for j h
  proof (induction j)
    case (Suc j)
    then show ?case by (cases "k = j") (auto simp: get32_put32_other)
  qed simp
  then show "k < n \<Longrightarrow> get32 (head_data n bl hb) (4 + 4 * k) = lhb bl k" by (simp add: head_data_def)
qed

lemma write_head_law:
  assumes q: "quiet r s c d w p nb m" and "log_dev s = 1" and n: "0 \<le> lh_n s" "nat (lh_n s) \<le> length (lh_block s)"
    and h: "h = uint_of_int (log_start s)" "h < nb" "\<not> p h" "card (Collect p) < r"
    and H: "H = head_data (nat (lh_n s)) (lh_block s) (c h)"
  shows "\<exists>s'. write_head s = Inr s' \<and> quiet r s' (c(h := H)) (d(h := H)) ((h, H) # w) p nb m"
proof -
  have "0 < room s" using q h(4) by (auto simp: quiet_def)
  with bio.write_through [of s h H] q h obtain i s1 s2 s3 where
    r: "bread 1 h s = Inr (i, s1)" "b_data (buf_at s1 i) = content s h" "bcache_st.more s1 = bcache_st.more s"
      "bwrite i (set_data i H s1) = Inr s2" "brelse i s2 = Inr s3"
    and s3: "bc_inv s3" "opened s3 = {}" "content s3 = (content s)(h := H)" "disk s3 = (disk s)(h := H)"
      "dwrites s3 = (h, H) # dwrites s" "dirtyb s3 = dirtyb s" "disksize s3 = disksize s"
      "bcache_st.more s3 = bcache_st.more s" "room s3 = room s"
    unfolding quiet_def by force
  have "content s = c" using q by (simp add: quiet_def)
  then have "write_head s = Inr s3"
    using r assms(2) h(1) more_log [OF r(3)] n H head_bytes_eq [of "nat (lh_n s)" "lh_block s" "c h"]
    by (simp add: write_head_def)
  with s3 q show ?thesis unfolding quiet_def by auto
qed

text \<open>Changes outside the buffer cache.\<close>

definition same_cache :: "'a bcache_st_scheme \<Rightarrow> 'b bcache_st_scheme \<Rightarrow> bool" where
  "same_cache s s' \<longleftrightarrow> bufs s' = bufs s \<and> lru s' = lru s \<and> disk s' = disk s \<and> disksize s' = disksize s \<and>
     dwrites s' = dwrites s \<and> mypid s' = mypid s"

lemma same_cache_eqs:
  assumes "same_cache s s'"
  shows "bc_inv s' = bc_inv s" "content s' = content s" "opened s' = opened s" "room s' = room s"
    "dirtyb s' = dirtyb s" "disk s' = disk s" "disksize s' = disksize s" "dwrites s' = dwrites s"
proof -
  note eqs = assms [unfolded same_cache_def]
  have cd: "cached s' = cached s" using eqs by (simp add: cached_def fun_eq_iff)
  have ok: "buf_ok pid s' = buf_ok pid s" for pid using eqs by (simp add: buf_ok_def fun_eq_iff)
  show "bc_inv s' = bc_inv s" unfolding bc_inv_def cd ok using eqs by simp
  show "content s' = content s" by (rule ext) (simp add: content_def cd eqs split: option.split)
  show "opened s' = opened s" "room s' = room s" using eqs by (simp_all add: opened_def held_def room_def)
  show "dirtyb s' = dirtyb s" by (rule ext) (simp add: dirtyb_def cd eqs)
qed (use assms in \<open>simp_all add: same_cache_def\<close>)

lemma quiet_cong:
  assumes "quiet r s c d w p nb m" "same_cache s s'"
  shows "quiet r s' c d w p nb (bcache_st.more s')"
  using assms(1) by (simp add: quiet_def same_cache_eqs [OF assms(2)])

lemma same_cache_log [simp]:
  "same_cache s (s\<lparr>lh_n := x\<rparr>)" "same_cache s (s\<lparr>lh_block := bl\<rparr>)" "same_cache s (s\<lparr>log_outstanding := x\<rparr>)"
  "same_cache s (s\<lparr>log_committing := x\<rparr>)"
  by (simp_all add: same_cache_def mypid_def getp_def)

lemma same_cache_wakeup [simp]: "same_cache s (wakeup ch s)"
  by (simp add: same_cache_def)

lemma quiet_lh_n: "quiet r s c d w p nb m \<Longrightarrow> quiet r (s\<lparr>lh_n := x\<rparr>) c d w p nb (bcache_st.more (s\<lparr>lh_n := x\<rparr>))"
  by (erule quiet_cong) simp

lemma quiet_more: "quiet r s c d w p nb m \<Longrightarrow> m = bcache_st.more s"
  by (simp add: quiet_def)

section \<open>Writes as a list\<close>

definition apply_writes :: "(u32 \<times> bytes) list \<Rightarrow> (u32 \<Rightarrow> bytes) \<Rightarrow> u32 \<Rightarrow> bytes" where
  "apply_writes ws = fold (\<lambda>(b, x) d. d(b := x)) ws"

lemma apply_writes_simps [simp]:
  "apply_writes [] d = d"
  "apply_writes (ws @ [(b, x)]) d = (apply_writes ws d)(b := x)"
  "apply_writes ((b, x) # ws) d = apply_writes ws (d(b := x))"
  by (simp_all add: apply_writes_def)

lemma apply_writes_append: "apply_writes (ws @ ws') d = apply_writes ws' (apply_writes ws d)"
  by (simp add: apply_writes_def)

lemma apply_writes_other: "b \<notin> fst ` set ws \<Longrightarrow> apply_writes ws d b = d b"
  by (induction ws arbitrary: d) auto

lemma apply_writes_const:
  assumes "(b, f b) \<in> set ws" "\<And>x y. (x, y) \<in> set ws \<Longrightarrow> y = f x"
  shows "apply_writes ws d b = f b"
  using assms
proof (induction ws rule: rev_induct)
  case (snoc x ws)
  obtain a y where x: "x = (a, y)" by (cases x)
  show ?case
  proof (cases "b = a")
    case True
    then show ?thesis using snoc.prems(2) [of a y] x by simp
  next
    case False
    have "apply_writes ws d b = f b"
    proof (rule snoc.IH)
      show "(b, f b) \<in> set ws" using snoc.prems(1) x False by simp
      show "v = f u" if "(u, v) \<in> set ws" for u v by (rule snoc.prems(2)) (simp add: that)
    qed
    then show ?thesis using x False by simp
  qed
qed simp

text \<open>The blocks that \<open>write_log\<close> and \<open>install_trans\<close> write.\<close>

definition log_writes :: "int \<Rightarrow> int list \<Rightarrow> nat \<Rightarrow> (u32 \<Rightarrow> bytes) \<Rightarrow> (u32 \<times> bytes) list" where
  "log_writes st bl n c = map (\<lambda>k. (logblk st k, c (lhb bl k))) [0..<n]"

definition home_writes :: "int \<Rightarrow> int list \<Rightarrow> nat \<Rightarrow> (u32 \<Rightarrow> bytes) \<Rightarrow> (u32 \<times> bytes) list" where
  "home_writes st bl n c = map (\<lambda>k. (lhb bl k, c (logblk st k))) [0..<n]"

text \<open>
  The block numbers in the header are blocks of the disk outside the log, whose own blocks
  are on the disk, not pinned, and do not wrap around.
\<close>

definition log_area :: "int \<Rightarrow> nat \<Rightarrow> u32 set" where
  "log_area st n = insert (uint_of_int st) (logblk st ` {..<n})"

definition blocks_ok :: "int \<Rightarrow> int list \<Rightarrow> nat \<Rightarrow> u32 \<Rightarrow> bool" where
  "blocks_ok st bl n nb \<longleftrightarrow> n \<le> length bl \<and> 0 \<le> st \<and> st + int n < int (unat nb) \<and>
     (\<forall>k<n. lhb bl k < nb \<and> lhb bl k \<notin> log_area st n)"

lemma uint_of_int_lt:
  assumes "0 \<le> i" "i < int (unat nb)"
  shows "uint_of_int i < nb" "unat (uint_of_int i) = nat i"
proof -
  have "i < 2 ^ 32" using assms unsigned_less [of nb, where 'a = int] by simp
  then show u: "unat (uint_of_int i) = nat i" using assms
    by (simp add: uint_of_int_def unsigned_of_int take_bit_int_eq_self)
  show "uint_of_int i < nb" unfolding word_less_nat_alt u using assms by linarith
qed

lemma blocks_okD:
  assumes "blocks_ok st bl n nb"
  shows "k < n \<Longrightarrow> logblk st k < nb" "uint_of_int st < nb" "k < n \<Longrightarrow> lhb bl k < nb" "n \<le> length bl"
    "k < n \<Longrightarrow> lhb bl k \<noteq> uint_of_int st" "k < n \<Longrightarrow> j < n \<Longrightarrow> lhb bl k \<noteq> logblk st j"
    "k < n \<Longrightarrow> logblk st k \<noteq> uint_of_int st" "k < n \<Longrightarrow> j < n \<Longrightarrow> logblk st k = logblk st j \<longleftrightarrow> k = j"
proof -
  have st: "0 \<le> st" "st + int n < int (unat nb)" using assms by (simp_all add: blocks_ok_def)
  show "k < n \<Longrightarrow> logblk st k < nb" using st uint_of_int_lt(1) [of "st + int k + 1" nb] by (simp add: logblk_def)
  show h: "uint_of_int st < nb" using st uint_of_int_lt(1) [of st nb] by simp
  show "k < n \<Longrightarrow> lhb bl k < nb" "n \<le> length bl" "k < n \<Longrightarrow> lhb bl k \<noteq> uint_of_int st"
    "k < n \<Longrightarrow> j < n \<Longrightarrow> lhb bl k \<noteq> logblk st j"
    using assms by (auto simp: blocks_ok_def log_area_def)
  have u: "unat (logblk st k) = nat (st + int k + 1)" if "k < n" for k
    using uint_of_int_lt(2) [of "st + int k + 1" nb] st that by (simp add: logblk_def)
  moreover have "unat (uint_of_int st) = nat st" using uint_of_int_lt(2) [of st nb] st by simp
  ultimately show "k < n \<Longrightarrow> logblk st k \<noteq> uint_of_int st" using st(1) by (auto dest: arg_cong [of _ _ unat])
  show "k < n \<Longrightarrow> j < n \<Longrightarrow> logblk st k = logblk st j \<longleftrightarrow> k = j" using u [of k] u [of j] st(1) by auto
qed

section \<open>The loops\<close>

lemma write_log_law:
  assumes q: "quiet r s c d w p nb m" and dev: "log_dev s = 1" and r: "card (Collect p) < r"
    and n: "n = nat (lh_n s)" and ok: "blocks_ok (log_start s) (lh_block s) n nb"
    and p: "\<And>k. k < n \<Longrightarrow> p (lhb (lh_block s) k)" "\<And>k. k < n \<Longrightarrow> \<not> p (logblk (log_start s) k)"
    and ws: "ws = log_writes (log_start s) (lh_block s) n c"
  shows "\<exists>s'. write_log s = Inr s' \<and> quiet r s' (apply_writes ws c) (apply_writes ws d) (rev ws @ w) p nb m"
proof -
  let ?ws = "\<lambda>k. log_writes (log_start s) (lh_block s) k c"
  have "\<exists>s'. foreach write_step 0 n s = Inr s' \<and>
      quiet r s' (apply_writes (?ws n) c) (apply_writes (?ws n) d) (rev (?ws n) @ w) p nb m"
  proof (rule foreach_inv [where P = "\<lambda>k s'. quiet r s' (apply_writes (?ws k) c) (apply_writes (?ws k) d)
      (rev (?ws k) @ w) p nb m"], goal_cases)
    case 1
    then show ?case using q by (simp add: log_writes_def)
  next
    case (2 k s')
    note same = more_log [OF quiet_more [OF 2(2), unfolded quiet_more [OF q], symmetric]]
    note okD = blocks_okD [OF ok]
    let ?a = "lhb (lh_block s) k" and ?b = "logblk (log_start s) k"
    have "apply_writes (?ws k) c ?a = c ?a"
      by (rule apply_writes_other) (use okD(6) 2(1) in \<open>auto simp: log_writes_def\<close>)
    moreover have "p(?b := False) = p" using p(2) 2(1) by (auto simp: fun_eq_iff)
    ultimately show ?case using write_step_law [OF 2(2), of k ?b ?a] 2(1) okD(1,3) [of k] okD(4) okD(6) [of k k] p(1) [of k] r dev
      by (simp add: same log_writes_def)
  qed
  then show ?thesis by (simp add: write_log_def n ws)
qed

lemma install_trans_law:
  assumes q: "quiet r s c d w p nb m" and dev: "log_dev s = 1"
    and n: "n = nat (lh_n s)" and ok: "blocks_ok (log_start s) (lh_block s) n nb"
    and p: "\<And>k. k < n \<Longrightarrow> \<not> p (logblk (log_start s) k)"
    and r: "card (Collect p) + 1 < r \<or>
      card (Collect p) < r \<and> (\<forall>k<n. p (lhb (lh_block s) k)) \<and> inj_on (lhb (lh_block s)) {..<n}"
    and ws: "ws = home_writes (log_start s) (lh_block s) n c"
  shows "\<exists>s'. install_trans s = Inr s' \<and> quiet r s' (apply_writes ws c) (apply_writes ws d) (rev ws @ w)
     (\<lambda>b. p b \<and> b \<notin> lhb (lh_block s) ` {..<n}) nb m"
proof -
  let ?ws = "\<lambda>k. home_writes (log_start s) (lh_block s) k c"
  let ?p = "\<lambda>k b. p b \<and> b \<notin> lhb (lh_block s) ` {..<k}"
  have "\<exists>s'. foreach install_step 0 n s = Inr s' \<and>
      quiet r s' (apply_writes (?ws n) c) (apply_writes (?ws n) d) (rev (?ws n) @ w) (?p n) nb m"
  proof (rule foreach_inv [where P = "\<lambda>k s'. quiet r s' (apply_writes (?ws k) c) (apply_writes (?ws k) d)
      (rev (?ws k) @ w) (?p k) nb m"], goal_cases)
    case 1
    then show ?case using q by (simp add: home_writes_def)
  next
    case (2 k s')
    note same = more_log [OF quiet_more [OF 2(2), unfolded quiet_more [OF q], symmetric]]
    note okD = blocks_okD [OF ok]
    let ?b = "lhb (lh_block s) k" and ?a = "logblk (log_start s) k"
    have "?a \<noteq> lhb (lh_block s) j" if "j < k" for j using okD(6) [of j k] that 2(1) by simp
    then have ca: "apply_writes (?ws k) c ?a = c ?a"
      by (intro apply_writes_other) (auto simp: home_writes_def, blast)
    have p': "(?p k)(?b := False) = ?p (Suc k)" by (auto simp: fun_eq_iff lessThan_Suc)
    have nb: "?b \<notin> lhb (lh_block s) ` {..<k}" if "inj_on (lhb (lh_block s)) {..<n}"
      using inj_on_image_mem_iff [OF that, of k "{..<k}"] 2(1) by auto
    have "card (Collect (?p k)) \<le> card (Collect p)" by (rule card_mono) auto
    moreover have "\<not> ?p k ?a" using p [OF 2(1)] by blast
    ultimately have room: "?p k ?a \<or> card (Collect (?p k)) < r"
      "?p k ?b \<or> card (Collect (?p k)) + (if ?p k ?a then 0 else 1) < r"
      using r nb 2(1) by (linarith, cases "card (Collect p) + 1 < r") auto
    show ?case
      using install_step_law [where k = k, OF 2(2) _ _ _ _ _ _ _ room] 2(1) okD(1,3) [of k] okD(4) okD(6) [of k k] dev ca p'
      by (simp add: same home_writes_def)
  qed
  then show ?thesis by (simp add: install_trans_def n ws)
qed

section \<open>Commit and recovery\<close>

text \<open>The writes of \<open>commit\<close>, in order: the log, the header, the home locations, the cleared header.\<close>

definition commit_writes :: "int \<Rightarrow> int list \<Rightarrow> nat \<Rightarrow> (u32 \<Rightarrow> bytes) \<Rightarrow> (u32 \<times> bytes) list" where
  "commit_writes st bl n c = (let h = uint_of_int st; H = head_data n bl (c h) in
     log_writes st bl n c @ [(h, H)] @ map (\<lambda>k. (lhb bl k, c (lhb bl k))) [0..<n] @ [(h, head_data 0 bl H)])"

lemma apply_log_writes:
  assumes ok: "blocks_ok st bl n nb" and "k < n"
  shows "apply_writes (log_writes st bl n c) d (logblk st k) = c (lhb bl k)"
proof -
  let ?f = "\<lambda>b. c (lhb bl (SOME j. j < n \<and> logblk st j = b))"
  have f: "?f (logblk st j) = c (lhb bl j)" if "j < n" for j
  proof -
    have "(SOME i. i < n \<and> logblk st i = logblk st j) = j"
      by (rule some_equality) (use that blocks_okD(8) [OF ok] in auto)
    then show ?thesis by simp
  qed
  have "apply_writes (log_writes st bl n c) d (logblk st k) = ?f (logblk st k)"
  proof (rule apply_writes_const)
    show "(logblk st k, ?f (logblk st k)) \<in> set (log_writes st bl n c)"
      using assms(2) unfolding f [OF assms(2)] by (auto simp: log_writes_def)
    show "y = ?f x" if "(x, y) \<in> set (log_writes st bl n c)" for x y
      using that f by (auto simp: log_writes_def)
  qed
  then show ?thesis using f assms(2) by simp
qed

lemma commit_law:
  assumes q: "quiet r s c d w p nb m" and dev: "log_dev s = 1"
    and n: "n = nat (lh_n s)" "0 < n" "n < r" and ok: "blocks_ok (log_start s) (lh_block s) n nb"
    and inj: "inj_on (lhb (lh_block s)) {..<n}"
    and p: "\<And>b. p b \<longleftrightarrow> b \<in> lhb (lh_block s) ` {..<n}"
    and ws: "ws = commit_writes (log_start s) (lh_block s) n c"
  shows "\<exists>s'. commit s = Inr s' \<and> quiet r s' (apply_writes ws c) (apply_writes ws d) (rev ws @ w) (\<lambda>_. False) nb
     (bcache_st.more (s\<lparr>lh_n := 0\<rparr>))"
proof -
  define st bl where "st = log_start s" and "bl = lh_block s"
  define h where "h = uint_of_int st"
  define L where "L = log_writes st bl n c"
  define H where "H = head_data n bl (c h)"
  define c1 where "c1 = (apply_writes L c)(h := H)"
  define d1 where "d1 = (apply_writes L d)(h := H)"
  define M where "M = map (\<lambda>k. (lhb bl k, c (lhb bl k))) [0..<n]"
  note okD = blocks_okD [OF ok, folded st_def bl_def h_def]
  have "Collect p = lhb bl ` {..<n}" using p by (auto simp: bl_def)
  then have "card (Collect p) \<le> n" using card_image_le [of "{..<n}" "lhb bl"] by simp
  then have r: "card (Collect p) < r" and r0: "card (Collect (\<lambda>_ :: u32. False)) < r" using n(3) by simp_all
  have np: "\<not> p h" "k < n \<Longrightarrow> \<not> p (logblk st k)" for k
    using p okD(5) okD(6) [of _ k] by (auto simp: bl_def) metis
  from write_log_law [OF q dev r n(1) ok _ _ refl] p np obtain s1 where
    s1: "write_log s = Inr s1" and q1: "quiet r s1 (apply_writes L c) (apply_writes L d) (rev L @ w) p nb m"
    by (auto simp: st_def bl_def L_def)
  note e1 = more_log [OF quiet_more [OF q1, unfolded quiet_more [OF q], symmetric]]
  have "apply_writes L c h = c h" using okD(7) by (intro apply_writes_other) (fastforce simp: L_def log_writes_def)
  then obtain s2 where s2: "write_head s1 = Inr s2" and q2: "quiet r s2 c1 d1 ((h, H) # rev L @ w) p nb m"
    using write_head_law [OF q1 _ _ _ _ _ _ r refl, of h] dev e1 n okD(2,4) np
    by (auto simp: st_def bl_def h_def H_def c1_def d1_def)
  note e2 = more_log [OF quiet_more [OF q2, unfolded quiet_more [OF q], symmetric]]
  have "c1 (logblk st k) = c (lhb bl k)" if "k < n" for k
    using that okD(7) apply_log_writes [OF ok that, of c c] by (simp add: c1_def L_def st_def bl_def)
  then have M: "home_writes st bl n c1 = M" by (simp add: home_writes_def M_def)
  have p0: "(\<lambda>b. p b \<and> b \<notin> lhb bl ` {..<n}) = (\<lambda>_. False)" using p by (auto simp: bl_def)
  obtain s3 where s3: "install_trans s2 = Inr s3" and
    q3: "quiet r s3 (apply_writes M c1) (apply_writes M d1) (rev M @ (h, H) # rev L @ w) (\<lambda>_. False) nb m"
    using install_trans_law [OF q2, of n] dev e2 n ok np(2) r p inj M p0 by (auto simp: st_def bl_def)
  note e3 = more_log [OF quiet_more [OF q3, unfolded quiet_more [OF q], symmetric]]
  have mh: "apply_writes M c1 h = H" using okD(5) by (subst apply_writes_other) (fastforce simp: M_def c1_def)+
  have "bcache_st.more (s3\<lparr>lh_n := 0\<rparr>) = bcache_st.more (s\<lparr>lh_n := 0\<rparr>)"
    using quiet_more [OF q3] quiet_more [OF q] by (cases s; cases s3) simp
  then obtain s4 where s4: "write_head (s3\<lparr>lh_n := 0\<rparr>) = Inr s4" and
    q4: "quiet r s4 ((apply_writes M c1)(h := head_data 0 bl H)) ((apply_writes M d1)(h := head_data 0 bl H))
      ((h, head_data 0 bl H) # rev M @ (h, H) # rev L @ w) (\<lambda>_. False) nb (bcache_st.more (s\<lparr>lh_n := 0\<rparr>))"
    using write_head_law [OF quiet_lh_n [OF q3, of 0] _ _ _ _ _ _ r0 refl, of h] dev e3 okD(2) mh
    by (auto simp: st_def bl_def h_def)
  have "ws = L @ [(h, H)] @ M @ [(h, head_data 0 bl H)]"
    by (simp add: ws commit_writes_def L_def M_def H_def h_def st_def bl_def Let_def)
  moreover have "commit s = Inr s4" using s1 s2 s3 s4 n by (simp add: commit_def)
  ultimately show ?thesis using q4 by (simp add: apply_writes_append c1_def d1_def del: fun_upd_apply)
qed

text \<open>What recovery makes of a disk: the blocks of a committed transaction go home.\<close>

definition head_n :: "int \<Rightarrow> (u32 \<Rightarrow> bytes) \<Rightarrow> int" where
  "head_n st d = int_of_uint (get32 (d (uint_of_int st)) 0)"

definition head_blocks :: "int \<Rightarrow> (u32 \<Rightarrow> bytes) \<Rightarrow> int list" where
  "head_blocks st d = map (\<lambda>k. int_of_uint (get32 (d (uint_of_int st)) (4 + 4 * k))) [0..<nat (head_n st d)]"

definition recovered :: "int \<Rightarrow> (u32 \<Rightarrow> bytes) \<Rightarrow> u32 \<Rightarrow> bytes" where
  "recovered st d = (let h = uint_of_int st;
       d' = apply_writes (home_writes st (head_blocks st d) (nat (head_n st d)) d) d
     in d'(h := put32 0 0 (d' h)))"

lemma head_data_0: "head_data 0 bl H = put32 0 0 H"
  by (simp add: head_data_def uint_of_int_def)

lemma read_loop:
  assumes "n \<le> length (lh_block s)"
  shows "\<exists>s'. foreach (\<lambda>i s. bnd (aput (lh_block s) (int i) (int_of_uint (get32 lh (4 + 4 * i))))
       (\<lambda>bl. Inr (s\<lparr>lh_block := bl\<rparr>))) 0 n s = Inr s' \<and> (\<exists>bl. s' = s\<lparr>lh_block := bl\<rparr> \<and> length bl = length (lh_block s) \<and>
       (\<forall>k<n. bl ! k = int_of_uint (get32 lh (4 + 4 * k))))"
proof (rule foreach_inv [where P = "\<lambda>j s'. \<exists>bl. s' = s\<lparr>lh_block := bl\<rparr> \<and> length bl = length (lh_block s) \<and>
       (\<forall>k<j. bl ! k = int_of_uint (get32 lh (4 + 4 * k)))"], goal_cases)
  case 1
  then show ?case by (intro exI [of _ "lh_block s"]) simp
next
  case (2 j s')
  then obtain bl where "s' = s\<lparr>lh_block := bl\<rparr>" "length bl = length (lh_block s)"
    "\<forall>k<j. bl ! k = int_of_uint (get32 lh (4 + 4 * k))" by blast
  then show ?case using 2(1) assms
    by (simp add: aput_def) (auto simp: nth_list_update less_Suc_eq intro!: exI [of _ "bl[j := int_of_uint (get32 lh (4 + 4 * j))]"])
qed

lemma read_head_law:
  assumes q: "quiet r s c d w p nb m" and dev: "log_dev s = 1" and r: "card (Collect p) < r"
    and h: "h = uint_of_int (log_start s)" "h < nb"
    and n: "int_of_uint (get32 (c h) 0) = int n" "n \<le> length (lh_block s)"
  shows "\<exists>s' bl. read_head s = Inr s' \<and> quiet r s' c d w p nb (bcache_st.more (s\<lparr>lh_n := int n, lh_block := bl\<rparr>)) \<and>
     length bl = length (lh_block s) \<and> (\<forall>k<n. bl ! k = int_of_uint (get32 (c h) (4 + 4 * k)))"
proof -
  have i: "bc_inv s" "opened s = {}" "disksize s = nb" "0 < room s" "content s = c" using q r by (auto simp: quiet_def)
  from bio.rd_law [of s h] i h(2) obtain i s1 where
    s1: "bread 1 h s = Inr (i, s1)" "bc_inv s1" "opened s1 = {(i, h)}" "content s1 = content s" "disk s1 = disk s"
    "dwrites s1 = dwrites s" "dirtyb s1 = dirtyb s" "disksize s1 = disksize s" "bcache_st.more s1 = bcache_st.more s"
    "room s = room s1 + (if dirtyb s h then 0 else 1)" by auto
  note e1 = more_log [OF s1(9)]
  have dat: "b_data (buf_at s1 i) = c h" using bio.dat_law [OF s1(2), of i h] s1(3,4) i by simp
  from read_loop [of n "s1\<lparr>lh_n := int n\<rparr>" "c h"] n(2) e1 obtain bl where
    l: "foreach (\<lambda>i s. bnd (aput (lh_block s) (int i) (int_of_uint (get32 (c h) (4 + 4 * i))))
       (\<lambda>bl. Inr (s\<lparr>lh_block := bl\<rparr>))) 0 n (s1\<lparr>lh_n := int n\<rparr>) = Inr (s1\<lparr>lh_n := int n, lh_block := bl\<rparr>)"
    "length bl = length (lh_block s)" "\<forall>k<n. bl ! k = int_of_uint (get32 (c h) (4 + 4 * k))" by auto
  let ?s = "s1\<lparr>lh_n := int n, lh_block := bl\<rparr>"
  have sc: "same_cache s1 ?s" by (simp add: same_cache_def mypid_def getp_def)
  have "dirtyb s1 h \<or> disk s1 h = content s1 h" using bio.clean_law [OF i(1), of h] i(2) s1 by auto
  with bio.rel_law [of ?s i h] s1(2,3) obtain s2 where
    s2: "brelse i ?s = Inr s2" "bc_inv s2" "opened s2 = {}" "content s2 = content s1" "disk s2 = disk s1"
    "dwrites s2 = dwrites s1" "dirtyb s2 = dirtyb s1" "disksize s2 = disksize s1" "bcache_st.more s2 = bcache_st.more ?s"
    "room s2 = room s1 + (if dirtyb s1 h then 0 else 1)" by (auto simp: same_cache_eqs [OF sc])
  have "read_head s = Inr s2" using s1(1) s2(1) l(1) dat n(1) dev h(1) by (simp add: read_head_def)
  moreover have "bcache_st.more ?s = bcache_st.more (s\<lparr>lh_n := int n, lh_block := bl\<rparr>)"
    using s1(9) by (cases s; cases s1) simp
  ultimately show ?thesis using s1 s2 q l(2,3) by (intro exI [of _ s2] exI [of _ bl]) (auto simp: quiet_def)
qed

lemma head_blocks_lhb: "k < nat (head_n st d) \<Longrightarrow> lhb (head_blocks st d) k = get32 (d (uint_of_int st)) (4 + 4 * k)"
  by (simp add: head_blocks_def lhb_def)

lemma home_writes_cong: "(\<And>k. k < n \<Longrightarrow> lhb bl k = lhb bl' k) \<Longrightarrow> home_writes st bl n c = home_writes st bl' n c"
  by (simp add: home_writes_def)

lemma recover_law:
  assumes q: "quiet r s d d w (\<lambda>_. False) nb m" and dev: "log_dev s = 1" and r: "2 \<le> r"
    and n: "0 \<le> head_n (log_start s) d" "nat (head_n (log_start s) d) \<le> length (lh_block s)"
    and ok: "blocks_ok (log_start s) (head_blocks (log_start s) d) (nat (head_n (log_start s) d)) nb"
  shows "\<exists>s' w' bl. recover_from_log s = Inr s' \<and> length bl = length (lh_block s) \<and>
     quiet r s' (recovered (log_start s) d) (recovered (log_start s) d) w' (\<lambda>_. False) nb
       (bcache_st.more (s\<lparr>lh_n := 0, lh_block := bl\<rparr>))"
proof -
  define st where "st = log_start s"
  define N where "N = nat (head_n st d)"
  define h where "h = uint_of_int st"
  note okD = blocks_okD [OF ok, folded st_def, folded N_def h_def]
  have "int_of_uint (get32 (d h) 0) = int N" using n by (simp add: N_def h_def head_n_def st_def)
  with read_head_law [OF q dev _ _ okD(2), of N] r n(2) obtain s1 bl where
    s1: "read_head s = Inr s1" and q1: "quiet r s1 d d w (\<lambda>_. False) nb (bcache_st.more (s\<lparr>lh_n := int N, lh_block := bl\<rparr>))" and
    bl: "length bl = length (lh_block s)" "\<And>k. k < N \<Longrightarrow> bl ! k = int_of_uint (get32 (d h) (4 + 4 * k))"
    by (auto simp: st_def h_def N_def)
  note e1 = more_log [OF quiet_more [OF q1, symmetric]]
  have l: "lhb bl k = lhb (head_blocks st d) k" if "k < N" for k
    using bl(2) [OF that] that by (simp add: lhb_def head_blocks_def N_def h_def)
  have ok1: "blocks_ok (log_start s1) (lh_block s1) N nb"
    using ok n(2) l bl(1) e1 by (auto simp: blocks_ok_def st_def N_def)
  define d1 where "d1 = apply_writes (home_writes st (head_blocks st d) N d) d"
  define ws where "ws = home_writes st (head_blocks st d) N d"
  have hw: "ws = home_writes (log_start s1) (lh_block s1) N d"
    using home_writes_cong [of N bl "head_blocks st d" st d] l e1 by (simp add: st_def ws_def)
  have nn: "N = nat (lh_n s1)" using e1 by simp
  have "\<exists>s2. install_trans s1 = Inr s2 \<and> quiet r s2 (apply_writes ws d) (apply_writes ws d) (rev ws @ w)
      (\<lambda>b. False \<and> b \<notin> lhb (lh_block s1) ` {..<N}) nb (bcache_st.more (s\<lparr>lh_n := int N, lh_block := bl\<rparr>))"
    by (rule install_trans_law [OF q1 _ nn ok1 _ _ hw]) (use dev e1 r in simp_all)
  then obtain s2 where s2: "install_trans s1 = Inr s2" and
    q2: "quiet r s2 d1 d1 (rev ws @ w) (\<lambda>_. False) nb (bcache_st.more (s\<lparr>lh_n := int N, lh_block := bl\<rparr>))"
    by (auto simp: d1_def ws_def)
  note e2 = more_log [OF quiet_more [OF q2, symmetric]]
  have m2: "bcache_st.more (s2\<lparr>lh_n := 0\<rparr>) = bcache_st.more (s\<lparr>lh_n := 0, lh_block := bl\<rparr>)"
    using quiet_more [OF q2] by (cases s; cases s2) simp
  from write_head_law [OF quiet_lh_n [OF q2, of 0], of h "put32 0 0 (d1 h)"] r okD(2) dev e2 obtain s3 where
    "write_head (s2\<lparr>lh_n := 0\<rparr>) = Inr s3"
    "quiet r s3 (d1(h := put32 0 0 (d1 h))) (d1(h := put32 0 0 (d1 h))) ((h, put32 0 0 (d1 h)) # rev ws @ w) (\<lambda>_. False) nb
      (bcache_st.more (s\<lparr>lh_n := 0, lh_block := bl\<rparr>))"
    by (auto simp: head_data_0 h_def st_def m2)
  moreover have "recovered st d = d1(h := put32 0 0 (d1 h))" by (simp add: recovered_def Let_def d1_def h_def N_def)
  ultimately show ?thesis using s1 s2 bl(1) by (auto simp: recover_from_log_def st_def)
qed

section \<open>Crashes during a commit\<close>

lemma int_of_uint_of_nat: "n < 2 ^ 31 \<Longrightarrow> int_of_uint (uint_of_int (int n)) = int n"
  by (simp add: int_of_uint_def uint_of_int_def signed_of_int signed_take_bit_int_eq_self
    del: of_int_of_nat_eq)

lemma commit_done:
  assumes ok: "blocks_ok st bl n nb" and clean: "\<forall>b. b \<notin> lhb bl ` {..<n} \<longrightarrow> c b = d b" and b: "b \<notin> log_area st n"
  shows "apply_writes (commit_writes st bl n c) d b = c b"
proof -
  define M where "M = map (\<lambda>k. (lhb bl k, c (lhb bl k))) [0..<n]"
  have h: "b \<noteq> uint_of_int st" "b \<notin> logblk st ` {..<n}" using b by (auto simp: log_area_def)
  have "apply_writes (log_writes st bl n c) d b = d b"
    by (rule apply_writes_other) (use h(2) in \<open>auto simp: log_writes_def\<close>)
  moreover have "apply_writes M d' b = (if b \<in> lhb bl ` {..<n} then c b else d' b)" for d'
  proof (cases "b \<in> lhb bl ` {..<n}")
    case True
    then have "apply_writes M d' b = c b" by (intro apply_writes_const) (auto simp: M_def)
    with True show ?thesis by simp
  next
    case False
    then have "apply_writes M d' b = d' b" by (intro apply_writes_other) (auto simp: M_def)
    with False show ?thesis by simp
  qed
  ultimately show ?thesis using h(1) clean
    by (simp add: commit_writes_def Let_def M_def [symmetric] apply_writes_append)
qed

lemma commit_crash:
  assumes ok: "blocks_ok st bl n nb" and n: "n < 2 ^ 31"
    and clean': "\<forall>b. b \<notin> lhb bl ` {..<n} \<longrightarrow> c b = d b"
    and head: "get32 (d (uint_of_int st)) 0 = 0"
    and dk: "dk = apply_writes (take k (commit_writes st bl n c)) d"
  shows "(head_n st dk = 0 \<and> ((\<forall>b. b \<notin> log_area st n \<longrightarrow> dk b = d b) \<or> (\<forall>b. b \<notin> log_area st n \<longrightarrow> dk b = c b))) \<or>
     (head_n st dk = int n \<and> (\<forall>j<n. lhb (head_blocks st dk) j = lhb bl j \<and> dk (logblk st j) = c (lhb bl j)) \<and>
      (\<forall>b. b \<notin> log_area st n \<union> lhb bl ` {..<n} \<longrightarrow> dk b = c b))"
proof -
  define h where "h = uint_of_int st"
  define L where "L = log_writes st bl n c"
  define H where "H = head_data n bl (c h)"
  define M where "M = map (\<lambda>k. (lhb bl k, c (lhb bl k))) [0..<n]"
  note okD = blocks_okD [OF ok, folded h_def]
  have clean: "c b = d b" if "b \<notin> lhb bl ` {..<n}" for b using clean' that by blast
  have W: "commit_writes st bl n c = L @ (h, H) # M @ [(h, head_data 0 bl H)]"
    by (simp add: commit_writes_def L_def M_def H_def h_def Let_def)
  have len: "length L = n" "length M = n" by (simp_all add: L_def M_def log_writes_def)
  have fstL: "fst ` set (take j L) \<subseteq> logblk st ` {..<n}" for j
    using image_mono [OF set_take_subset [of j L], of fst] by (auto simp: L_def log_writes_def)
  have fstM: "fst ` set (take j M) \<subseteq> lhb bl ` {..<n}" for j
    using image_mono [OF set_take_subset [of j M], of fst] by (auto simp: M_def)
  have hL: "h \<notin> logblk st ` {..<n}" and hM: "h \<notin> lhb bl ` {..<n}" using okD(5,7) by fastforce+
  have LM: "logblk st j \<notin> lhb bl ` {..<n}" if "j < n" for j using okD(6) [of _ j] that by fastforce
  have L_other: "apply_writes (take j L) d b = d b" if "b \<notin> logblk st ` {..<n}" for b j
    using fstL [of j] that by (intro apply_writes_other) blast
  have M_other: "apply_writes (take j M) d' b = d' b" if "b \<notin> lhb bl ` {..<n}" for b j d'
    using fstM [of j] that by (intro apply_writes_other) blast
  have area: "log_area st n = insert h (logblk st ` {..<n})" by (simp add: log_area_def h_def)
  consider "k \<le> n" | "n < k" "k \<le> 2 * n + 1" | "2 * n + 1 < k" by linarith
  then show ?thesis
  proof cases
    case 1
    then have "dk = apply_writes (take k L) d" by (simp add: dk W len)
    then have "dk b = d b" if "b \<notin> logblk st ` {..<n}" for b using L_other that by simp
    then show ?thesis using head hL by (auto simp: head_n_def h_def area int_of_uint_def)
  next
    case 2
    have dk2: "dk = apply_writes (take (k - n - 1) M) ((apply_writes L d)(h := H))"
      using 2 len by (simp add: dk W take_Cons' apply_writes_append)
    have dh: "dk h = H" using M_other [OF hM] by (simp add: dk2)
    have hn: "head_n st dk = int n"
      using dh n by (simp add: head_n_def h_def [symmetric] H_def head_data_get int_of_uint_of_nat)
    have "lhb (head_blocks st dk) j = lhb bl j" if "j < n" for j
      using head_blocks_lhb [of j st dk] that hn dh by (simp add: h_def [symmetric] H_def head_data_get)
    moreover have "dk (logblk st j) = c (lhb bl j)" if "j < n" for j
      using M_other [OF LM [OF that]] okD(7) [OF that] apply_log_writes [OF ok that, of c d] by (simp add: dk2 L_def)
    moreover have "dk b = c b" if "b \<notin> log_area st n \<union> lhb bl ` {..<n}" for b
      using M_other [of b] L_other [of b n] that clean [of b] len by (auto simp: dk2 area)
    ultimately show ?thesis using hn by blast
  next
    case 3
    have dk3: "dk = (apply_writes M ((apply_writes L d)(h := H)))(h := head_data 0 bl H)"
      using 3 len by (simp add: dk W apply_writes_append)
    have "dk b = c b" if "b \<notin> log_area st n" for b
      using commit_done [OF ok clean' that] 3 len by (simp add: dk W)
    moreover have "head_n st dk = 0" by (simp add: head_n_def dk3 h_def head_data_0 int_of_uint_def)
    ultimately show ?thesis by blast
  qed
qed

lemma blocks_ok_cong:
  assumes "blocks_ok st bl n nb" "n \<le> length bl'" "\<And>k. k < n \<Longrightarrow> lhb bl' k = lhb bl k"
  shows "blocks_ok st bl' n nb"
  using assms by (simp add: blocks_ok_def)

lemma blocks_ok_mono: "blocks_ok st bl n nb \<Longrightarrow> blocks_ok st bl' 0 nb"
  by (simp add: blocks_ok_def)

lemma crash_recovered:
  assumes "blocks_ok st bl n nb" "n < 2 ^ 31" "\<forall>b. b \<notin> lhb bl ` {..<n} \<longrightarrow> c b = d b"
    and "get32 (d (uint_of_int st)) 0 = 0" and "dk = apply_writes (take k (commit_writes st bl n c)) d"
  shows "0 \<le> head_n st dk" "nat (head_n st dk) \<le> n" "blocks_ok st (head_blocks st dk) (nat (head_n st dk)) nb"
    "(\<forall>b. b \<notin> log_area st n \<longrightarrow> recovered st dk b = d b) \<or> (\<forall>b. b \<notin> log_area st n \<longrightarrow> recovered st dk b = c b)"
proof -
  have "0 \<le> head_n st dk \<and> nat (head_n st dk) \<le> n \<and> blocks_ok st (head_blocks st dk) (nat (head_n st dk)) nb \<and>
    ((\<forall>b. b \<notin> log_area st n \<longrightarrow> recovered st dk b = d b) \<or> (\<forall>b. b \<notin> log_area st n \<longrightarrow> recovered st dk b = c b))"
    using commit_crash [OF assms]
  proof (elim disjE conjE, goal_cases)
    case 1
    then show ?case using blocks_ok_mono [OF assms(1)]
      by (simp add: recovered_def home_writes_def Let_def log_area_def)
  next
    case 2
    then show ?case using blocks_ok_mono [OF assms(1)]
      by (simp add: recovered_def home_writes_def Let_def log_area_def)
  next
    case 3
    then have n: "nat (head_n st dk) = n" by simp
    have bl: "lhb (head_blocks st dk) j = lhb bl j" "dk (logblk st j) = c (lhb bl j)" if "j < n" for j
      using 3 that by simp_all
    have "blocks_ok st (head_blocks st dk) n nb"
      by (rule blocks_ok_cong [OF assms(1)]) (use bl n in \<open>simp_all add: head_blocks_def\<close>)
    moreover have hw: "home_writes st (head_blocks st dk) n dk = map (\<lambda>k. (lhb bl k, c (lhb bl k))) [0..<n]" (is "_ = ?M")
      using bl by (simp add: home_writes_def)
    have "recovered st dk b = c b" if b: "b \<notin> log_area st n" for b
    proof (cases "b \<in> lhb bl ` {..<n}")
      case True
      then have "apply_writes ?M dk b = c b" by (intro apply_writes_const) auto
      then show ?thesis using b by (simp add: recovered_def Let_def n hw log_area_def)
    next
      case False
      then have "apply_writes ?M dk b = dk b" by (intro apply_writes_other) auto
      then show ?thesis using b False 3(3) by (simp add: recovered_def Let_def n hw log_area_def)
    qed
    ultimately show ?case using n 3(1) by simp
  qed
  then show "0 \<le> head_n st dk" "nat (head_n st dk) \<le> n" "blocks_ok st (head_blocks st dk) (nat (head_n st dk)) nb"
    "(\<forall>b. b \<notin> log_area st n \<longrightarrow> recovered st dk b = d b) \<or> (\<forall>b. b \<notin> log_area st n \<longrightarrow> recovered st dk b = c b)"
    by blast+
qed

section \<open>A file-system operation under the log\<close>

text \<open>
  The pattern that \<open>log.c\<close> gives for its clients: each block is read, modified, passed to
  \<open>log_write\<close> and released, between \<open>begin_op\<close> and \<open>end_op\<close>.
\<close>

definition update_block :: "u32 \<times> bytes \<Rightarrow> 'a log_st_scheme \<Rightarrow> 'a log_st_scheme res" where
  "update_block bx s = bnd (bread 1 (fst bx) s) (\<lambda>(bp, s).
     bnd (log_write bp (set_data bp (snd bx) s)) (brelse bp))"

fun update_blocks :: "(u32 \<times> bytes) list \<Rightarrow> 'a log_st_scheme \<Rightarrow> 'a log_st_scheme res" where
  "update_blocks [] s = Inr s"
| "update_blocks (bx # ups) s = bnd (update_block bx s) (update_blocks ups)"

definition run_op :: "(u32 \<times> bytes) list \<Rightarrow> 'a log_st_scheme \<Rightarrow> 'a log_st_scheme res" where
  "run_op ups s = bnd (begin_op s) (\<lambda>s. bnd (update_blocks ups s) end_op)"

lemma log_write_law:
  assumes "b_blockno (buf_at s i) = b" and n: "0 \<le> lh_n s" "lh_n s < LOGSIZE" "lh_n s < log_size s - 1"
    and "1 \<le> log_outstanding s" "length (lh_block s) = nat LOGSIZE" and inj: "inj_on (lhb (lh_block s)) {..<nat (lh_n s)}"
  shows "\<exists>x bl. log_write i s = Inr (pin i (s\<lparr>lh_block := bl, lh_n := x\<rparr>)) \<and> length bl = nat LOGSIZE \<and>
     0 \<le> x \<and> x \<le> lh_n s + 1 \<and> inj_on (lhb bl) {..<nat x} \<and>
     lhb bl ` {..<nat x} = insert b (lhb (lh_block s) ` {..<nat (lh_n s)})"
proof -
  define N where "N = nat (lh_n s)"
  have N: "lh_n s = int N" "N < length (lh_block s)" using n assms(6) by (auto simp: N_def)
  show ?thesis
  proof (cases "first_idx (\<lambda>x. uint_of_int x = b) (take N (lh_block s))")
    case None
    define bl where "bl = (lh_block s)[N := int_of_uint b]"
    have "log_write i s = Inr (pin i (s\<lparr>lh_block := bl, lh_n := int N + 1\<rparr>))"
      using assms None N by (simp add: log_write_def Let_def aput_def bl_def)
    moreover have new: "lhb (lh_block s) j \<noteq> b" if "j < N" for j
      using None nth_mem [of j "take N (lh_block s)"] that N by (auto simp: first_idx_None lhb_def)
    have at: "lhb bl j = (if j = N then b else lhb (lh_block s) j)" for j using N by (simp add: bl_def lhb_def)
    have "lhb bl ` {..<Suc N} = insert b (lhb (lh_block s) ` {..<N})" by (auto simp: at lessThan_Suc)
    moreover have "inj_on (lhb bl) {..<Suc N}"
      using inj new unfolding N_def [symmetric] by (auto simp: inj_on_def at lessThan_Suc)
    ultimately show ?thesis using assms(6) N
      by (intro exI [of _ "int N + 1"] exI [of _ bl]) (simp add: bl_def nat_add_distrib)
  next
    case (Some j)
    from first_idx_SomeD [OF Some] N have j: "j < N" "lhb (lh_block s) j = b" by (simp_all add: lhb_def)
    define bl where "bl = (lh_block s)[j := int_of_uint b]"
    have eq: "s\<lparr>lh_block := bl, lh_n := int N\<rparr> = s\<lparr>lh_block := bl\<rparr>" using N by (cases s) simp
    have "log_write i s = Inr (pin i (s\<lparr>lh_block := bl\<rparr>))"
      using assms Some N j by (simp add: log_write_def Let_def aput_def bl_def)
    then have "log_write i s = Inr (pin i (s\<lparr>lh_block := bl, lh_n := int N\<rparr>))" by (simp only: eq)
    moreover have "lhb bl k = lhb (lh_block s) k" for k using N j by (cases "k = j") (simp_all add: bl_def lhb_def)
    then have "lhb bl = lhb (lh_block s)" by blast
    moreover have "insert b (lhb (lh_block s) ` {..<N}) = lhb (lh_block s) ` {..<N}" using j by blast
    moreover have "length bl = nat LOGSIZE" using assms(6) by (simp add: bl_def)
    ultimately show ?thesis using N(1) inj [folded N_def]
      by (intro exI [of _ "int N"] exI [of _ bl]) simp
  qed
qed

text \<open>
  A block that nobody has open is read, changed, passed to \<open>log_write\<close> and released: its
  content is the new one, it is pinned and in the header, and nothing else has changed.
\<close>

definition log_room :: "nat \<Rightarrow> 'a log_st_scheme \<Rightarrow> bool" where
  "log_room k s \<longleftrightarrow> 0 \<le> lh_n s \<and> lh_n s + int k \<le> LOGSIZE \<and> lh_n s + int k \<le> log_size s - 1 \<and>
     1 \<le> log_outstanding s \<and> length (lh_block s) = nat LOGSIZE \<and> inj_on (lhb (lh_block s)) {..<nat (lh_n s)}"

lemma log_update_law:
  assumes inv: "bc_inv s" and b: "b < disksize s" "b \<notin> snd ` opened s" "dirtyb s b \<or> 0 < room s" and n: "log_room (Suc k) s"
  shows "\<exists>i s1. bread 1 b s = Inr (i, s1) \<and> b_data (buf_at s1 i) = content s b \<and> bcache_st.more s1 = bcache_st.more s \<and>
     (\<forall>d. \<exists>s2 x bl. bnd (log_write i (set_data i d s1)) (brelse i) = Inr s2 \<and> bc_inv s2 \<and> opened s2 = opened s \<and>
       content s2 = (content s)(b := d) \<and> disk s2 = disk s \<and> dwrites s2 = dwrites s \<and>
       dirtyb s2 = (dirtyb s)(b := True) \<and> disksize s2 = disksize s \<and>
       bcache_st.more s2 = bcache_st.more (s\<lparr>lh_block := bl, lh_n := x\<rparr>) \<and>
       room s = room s2 + (if dirtyb s b then 0 else 1) \<and> log_room k s2 \<and> x \<le> lh_n s + 1 \<and>
       lhb bl ` {..<nat x} = insert b (lhb (lh_block s) ` {..<nat (lh_n s)}))"
proof -
  from bio.rd_law [OF inv b] obtain i s1 where
    s1: "bread 1 b s = Inr (i, s1)" "bc_inv s1" "i \<notin> fst ` opened s" "opened s1 = insert (i, b) (opened s)"
    "content s1 = content s" "disk s1 = disk s" "dwrites s1 = dwrites s" "dirtyb s1 = dirtyb s" "disksize s1 = disksize s"
    "bcache_st.more s1 = bcache_st.more s" "room s = room s1 + (if dirtyb s b then 0 else 1)" by auto
  have dat: "b_data (buf_at s1 i) = content s b" using bio.dat_law [OF s1(2), of i b] s1(4,5) by simp
  have op: "insert (i, b) (opened s) - {(i, b)} = opened s" using s1(3) by force
  have "\<exists>s4 y bl. bnd (log_write i (set_data i x s1)) (brelse i) = Inr s4 \<and> bc_inv s4 \<and> opened s4 = opened s \<and>
       content s4 = (content s)(b := x) \<and> disk s4 = disk s \<and> dwrites s4 = dwrites s \<and>
       dirtyb s4 = (dirtyb s)(b := True) \<and> disksize s4 = disksize s \<and>
       bcache_st.more s4 = bcache_st.more (s\<lparr>lh_block := bl, lh_n := y\<rparr>) \<and>
       room s = room s4 + (if dirtyb s b then 0 else 1) \<and> log_room k s4 \<and> y \<le> lh_n s + 1 \<and>
       lhb bl ` {..<nat y} = insert b (lhb (lh_block s) ` {..<nat (lh_n s)})" for x
  proof -
    let ?s2 = "set_data i x s1"
    from s1 bio.put_law [of s1 i b x] have
      s2: "bc_inv ?s2" "opened ?s2 = insert (i, b) (opened s)" "content ?s2 = (content s)(b := x)" "disk ?s2 = disk s"
      "dwrites ?s2 = dwrites s" "dirtyb ?s2 = dirtyb s" "disksize ?s2 = disksize s" "bcache_st.more ?s2 = bcache_st.more s"
      "room s = room ?s2 + (if dirtyb s b then 0 else 1)" by auto
    note e2 = more_log [OF s2(8)]
    have blk: "b_blockno (buf_at ?s2 i) = b" using s2(2) opened_block [of i b ?s2] by auto
    from log_write_law [OF blk] n e2 obtain y bl where
      lw: "log_write i ?s2 = Inr (pin i (?s2\<lparr>lh_block := bl, lh_n := y\<rparr>))" and
      y: "length bl = nat LOGSIZE" "0 \<le> y" "y \<le> lh_n s + 1" "inj_on (lhb bl) {..<nat y}"
        "lhb bl ` {..<nat y} = insert b (lhb (lh_block s) ` {..<nat (lh_n s)})" by (auto simp: log_room_def)
    let ?s3 = "?s2\<lparr>lh_block := bl, lh_n := y\<rparr>"
    have sc: "same_cache ?s2 ?s3" by (simp add: same_cache_def mypid_def getp_def)
    note p = bio.pin_law [of ?s3 i b, unfolded same_cache_eqs [OF sc]]
    from bio.rel_law [of "pin i ?s3" i b] p s2 op obtain s4 where
      s4: "brelse i (pin i ?s3) = Inr s4" "bc_inv s4" "opened s4 = opened s" "content s4 = (content s)(b := x)"
      "disk s4 = disk s" "dwrites s4 = dwrites s" "dirtyb s4 = (dirtyb s)(b := True)" "disksize s4 = disksize s"
      "bcache_st.more s4 = bcache_st.more ?s3" "room s4 = room ?s2" by auto
    have m: "bcache_st.more ?s3 = bcache_st.more (s\<lparr>lh_block := bl, lh_n := y\<rparr>)"
      using s2(8) by (cases s; cases ?s2) simp
    note e4 = more_log [OF trans [OF s4(9) m]]
    have "log_room k s4" using e4 n y by (simp add: log_room_def)
    then show ?thesis using s4 lw m s2(9) y by (intro exI [of _ s4] exI [of _ y] exI [of _ bl]) simp
  qed
  with s1(1,10) dat show ?thesis by blast
qed

text \<open>
  The log between two operations: nothing logged in memory or on the disk, no buffer held or
  pinned, at least \<open>r\<close> buffers free, and a log area inside the disk with room for the
  blocks of an operation.
\<close>

definition log_ready :: "nat \<Rightarrow> 'a log_st_scheme \<Rightarrow> bool" where
  "log_ready r s \<longleftrightarrow> quiet r s (disk s) (disk s) (dwrites s) (\<lambda>_. False) (disksize s) (bcache_st.more s) \<and>
     log_dev s = 1 \<and> lh_n s = 0 \<and> log_outstanding s = 0 \<and> log_committing s = 0 \<and> length (lh_block s) = nat LOGSIZE \<and>
     MAXOPBLOCKS + 1 < log_size s \<and> 0 \<le> log_start s \<and> log_start s + log_size s \<le> int (unat (disksize s)) \<and>
     get32 (disk s (uint_of_int (log_start s))) 0 = 0"

definition in_log :: "'a log_st_scheme \<Rightarrow> u32 \<Rightarrow> bool" where
  "in_log s b \<longleftrightarrow> b \<in> log_area (log_start s) (nat (log_size s - 1))"

text \<open>After the updates \<open>ups\<close> of an operation that started from \<open>s0\<close>.\<close>

definition in_op :: "nat \<Rightarrow> 'a log_st_scheme \<Rightarrow> (u32 \<times> bytes) list \<Rightarrow> 'a log_st_scheme \<Rightarrow> bool" where
  "in_op r s0 ups s \<longleftrightarrow>
     quiet r s (apply_writes ups (disk s0)) (disk s0) (dwrites s0) (\<lambda>b. b \<in> fst ` set ups) (disksize s0)
       (bcache_st.more s) \<and>
     log_dev s = 1 \<and> log_start s = log_start s0 \<and> log_size s = log_size s0 \<and> log_outstanding s = 1 \<and>
     log_committing s = 0 \<and> length (lh_block s) = nat LOGSIZE \<and> 0 \<le> lh_n s \<and> nat (lh_n s) \<le> length ups \<and>
     inj_on (lhb (lh_block s)) {..<nat (lh_n s)} \<and> lhb (lh_block s) ` {..<nat (lh_n s)} = fst ` set ups"

lemma update_block_law:
  assumes op: "in_op r s0 ups s" and r: "length ups < r" "length ups < nat MAXOPBLOCKS" and b: "b < disksize s0"
    and sz: "MAXOPBLOCKS + 1 < log_size s0"
  shows "\<exists>s'. update_block (b, x) s = Inr s' \<and> in_op r s0 (ups @ [(b, x)]) s'"
proof -
  note o = op [unfolded in_op_def quiet_def]
  have "card (fst ` set ups) \<le> length ups"
    using card_image_le [of "set ups" fst] card_length [of ups] by simp
  moreover have "Collect (dirtyb s) = fst ` set ups" using o by auto
  ultimately have "0 < room s" using o r(1) by auto
  moreover have lr: "log_room 1 s"
    using o r(2) sz by (auto simp: log_room_def LOGSIZE_def MAXOPBLOCKS_def)
  ultimately obtain i s1 s4 y bl where
    s1: "bread 1 b s = Inr (i, s1)" and
    s4: "bnd (log_write i (set_data i x s1)) (brelse i) = Inr s4" "bc_inv s4" "opened s4 = {}" "content s4 = (content s)(b := x)"
      "disk s4 = disk s" "dwrites s4 = dwrites s" "dirtyb s4 = (dirtyb s)(b := True)" "disksize s4 = disksize s"
      "bcache_st.more s4 = bcache_st.more (s\<lparr>lh_block := bl, lh_n := y\<rparr>)" "room s = room s4 + (if dirtyb s b then 0 else 1)"
      "log_room 0 s4" "y \<le> lh_n s + 1" "lhb bl ` {..<nat y} = insert b (fst ` set ups)"
    using log_update_law [of s b 0] o b by (auto simp: One_nat_def) metis
  note e4 = more_log [OF s4(9)]
  have "update_block (b, x) s = Inr s4" using s1 s4(1) by (simp add: update_block_def)
  moreover have p: "(dirtyb s)(b := True) = (\<lambda>a. a \<in> fst ` set (ups @ [(b, x)]))" using o by (auto simp: fun_eq_iff)
  moreover have "r \<le> room s4 + card (Collect ((dirtyb s)(b := True)))"
    using o s4(10) card_upd(2) [of "dirtyb s" b] by (auto split: if_splits)
  ultimately show ?thesis using o s4 e4 unfolding in_op_def quiet_def log_room_def by (intro exI [of _ s4]) auto
qed

lemma update_blocks_law:
  assumes "in_op r s0 pre s" "length pre + length ups \<le> nat MAXOPBLOCKS" "nat MAXOPBLOCKS < r"
    and "\<forall>bx \<in> set ups. fst bx < disksize s0" "MAXOPBLOCKS + 1 < log_size s0"
  shows "\<exists>s'. update_blocks ups s = Inr s' \<and> in_op r s0 (pre @ ups) s'"
  using assms
proof (induction ups arbitrary: pre s)
  case (Cons bx ups)
  obtain b x where bx: "bx = (b, x)" by (cases bx)
  from update_block_law [OF Cons.prems(1), of b x] Cons.prems bx obtain s1 where
    "update_block bx s = Inr s1" "in_op r s0 (pre @ [(b, x)]) s1" by auto
  with Cons.IH [of "pre @ [(b, x)]" s1] Cons.prems bx show ?case by auto
qed simp

lemma log_readyD:
  assumes "log_ready r s"
  shows "quiet r s (disk s) (disk s) (dwrites s) (\<lambda>_. False) (disksize s) (bcache_st.more s)"
    "log_dev s = 1" "lh_n s = 0" "log_outstanding s = 0" "log_committing s = 0" "length (lh_block s) = nat LOGSIZE"
    "MAXOPBLOCKS + 1 < log_size s" "0 \<le> log_start s" "log_start s + log_size s \<le> int (unat (disksize s))"
    "get32 (disk s (uint_of_int (log_start s))) 0 = 0"
  using assms unfolding log_ready_def by blast+

lemma begin_op_law:
  assumes "log_ready r s"
  shows "begin_op s = Inr (s\<lparr>log_outstanding := 1\<rparr>)" "in_op r s [] (s\<lparr>log_outstanding := 1\<rparr>)"
proof -
  note l = log_readyD [OF assms]
  show "begin_op s = Inr (s\<lparr>log_outstanding := 1\<rparr>)" using l by (simp add: begin_op_def LOGSIZE_def MAXOPBLOCKS_def)
  have "quiet r (s\<lparr>log_outstanding := 1\<rparr>) (disk s) (disk s) (dwrites s) (\<lambda>_. False) (disksize s)
      (bcache_st.more (s\<lparr>log_outstanding := 1\<rparr>))" by (rule quiet_cong [OF l(1)]) simp
  then show "in_op r s [] (s\<lparr>log_outstanding := 1\<rparr>)" using l by (simp add: in_op_def)
qed

lemma log_area_mono: "m \<le> n \<Longrightarrow> log_area st m \<subseteq> log_area st n"
  by (auto simp: log_area_def)

lemma log_area_range:
  fixes nb :: u32
  assumes "b \<in> log_area st n" "0 \<le> st" "st + int n < int (unat nb)"
  shows "nat st \<le> unat b" "unat b \<le> nat st + n"
proof -
  have "unat (uint_of_int st) = nat st" using assms uint_of_int_lt(2) [of st nb] by simp
  moreover have "unat (logblk st k) = nat (st + int k + 1)" if "k < n" for k
    using uint_of_int_lt(2) [of "st + int k + 1" nb] that assms(2,3) by (simp add: logblk_def)
  ultimately show "nat st \<le> unat b" "unat b \<le> nat st + n" using assms(1,2) by (auto simp: log_area_def)
qed

lemma in_op_blocks_ok:
  assumes op: "in_op r s0 ups s" and len: "length ups \<le> nat MAXOPBLOCKS"
    and b: "\<forall>bx \<in> set ups. fst bx < disksize s0 \<and> \<not> in_log s0 (fst bx)"
    and l: "MAXOPBLOCKS + 1 < log_size s0" "0 \<le> log_start s0" "log_start s0 + log_size s0 \<le> int (unat (disksize s0))"
  shows "blocks_ok (log_start s0) (lh_block s) (nat (lh_n s)) (disksize s0)"
    "log_area (log_start s0) (nat (lh_n s)) \<subseteq> {b. in_log s0 b}"
proof -
  note o = op [unfolded in_op_def]
  have n: "nat (lh_n s) \<le> nat MAXOPBLOCKS" using o len by linarith
  have sub: "log_area (log_start s0) (nat (lh_n s)) \<subseteq> {b. in_log s0 b}"
    unfolding in_log_def using n l(1) by (simp add: log_area_mono MAXOPBLOCKS_def)
  then show "log_area (log_start s0) (nat (lh_n s)) \<subseteq> {b. in_log s0 b}" .
  have "lhb (lh_block s) k \<in> fst ` set ups" if "k < nat (lh_n s)" for k using o that by blast
  then have "lhb (lh_block s) k < disksize s0 \<and> \<not> in_log s0 (lhb (lh_block s) k)" if "k < nat (lh_n s)" for k
    using b that by fastforce
  then show "blocks_ok (log_start s0) (lh_block s) (nat (lh_n s)) (disksize s0)"
    using sub o n l unfolding blocks_ok_def by (auto simp: LOGSIZE_def MAXOPBLOCKS_def)
qed

lemma wakeup_log [simp]:
  "log_start (wakeup ch s) = log_start s" "log_size (wakeup ch s) = log_size s" "log_dev (wakeup ch s) = log_dev s"
  "log_outstanding (wakeup ch s) = log_outstanding s" "log_committing (wakeup ch s) = log_committing s"
  "lh_n (wakeup ch s) = lh_n s" "lh_block (wakeup ch s) = lh_block s"
  by (simp_all add: wakeup_def wakeup1_def)

lemma log_readyI:
  assumes q: "quiet r t d d w (\<lambda>_. False) nb m"
    and "log_dev t = 1" "lh_n t = 0" "log_outstanding t = 0" "length (lh_block t) = nat LOGSIZE"
    "MAXOPBLOCKS + 1 < log_size t" "0 \<le> log_start t" "log_start t + log_size t \<le> int (unat nb)"
    "get32 (d (uint_of_int (log_start t))) 0 = 0"
  shows "log_ready r (wakeup ChLog (t\<lparr>log_committing := 0\<rparr>))"
proof -
  let ?s = "wakeup ChLog (t\<lparr>log_committing := 0\<rparr>)"
  have "same_cache t ?s" by (simp add: same_cache_def) (simp add: mypid_def getp_def)
  then have "quiet r ?s d d w (\<lambda>_. False) nb (bcache_st.more ?s)" by (rule quiet_cong [OF q])
  moreover from this have "disk ?s = d" "dwrites ?s = w" "disksize ?s = nb" unfolding quiet_def by blast+
  ultimately show ?thesis using assms(2-) unfolding log_ready_def by simp
qed

lemma end_op_law:
  assumes op: "in_op r s0 ups s" and ready: "log_ready r s0" and len: "length ups \<le> nat MAXOPBLOCKS" "nat MAXOPBLOCKS < r"
    and b: "\<forall>bx \<in> set ups. fst bx < disksize s0 \<and> \<not> in_log s0 (fst bx)"
  shows "\<exists>s'. end_op s = Inr s' \<and> log_ready r s' \<and> log_start s' = log_start s0 \<and> log_size s' = log_size s0 \<and> disksize s' = disksize s0 \<and>
     (ups = [] \<and> dwrites s' = dwrites s0 \<and> disk s' = disk s0 \<or>
      (let ws = commit_writes (log_start s0) (lh_block s) (nat (lh_n s)) (apply_writes ups (disk s0)) in
       dwrites s' = rev ws @ dwrites s0 \<and> disk s' = apply_writes ws (disk s0)))"
proof -
  note o = op [unfolded in_op_def] and l = log_readyD [OF ready]
  note ok = in_op_blocks_ok [OF op len(1) b l(7-9)]
  define s1 where "s1 = s\<lparr>log_outstanding := 0, log_committing := 1\<rparr>"
  have s1: "log_start s1 = log_start s0" "log_size s1 = log_size s0" "lh_block s1 = lh_block s" "lh_n s1 = lh_n s" "log_dev s1 = 1"
    using o by (simp_all add: s1_def)
  have "same_cache s s1" by (simp add: s1_def same_cache_def mypid_def getp_def)
  with o have q1: "quiet r s1 (apply_writes ups (disk s0)) (disk s0) (dwrites s0) (\<lambda>b. b \<in> fst ` set ups) (disksize s0)
      (bcache_st.more s1)" by (blast intro: quiet_cong)
  have e: "end_op s = bnd (commit s1) (\<lambda>s. Inr (wakeup ChLog (s\<lparr>log_committing := 0\<rparr>)))"
    using o by (simp add: end_op_def Let_def s1_def)
  show ?thesis
  proof (cases "ups = []")
    case True
    then have n: "lh_n s1 = 0" using o s1 by auto
    have p: "(\<lambda>b. b \<in> fst ` set ups) = (\<lambda>_. False)" "apply_writes ups (disk s0) = disk s0" using True by simp_all
    let ?s = "wakeup ChLog (s1\<lparr>log_committing := 0\<rparr>)"
    have "end_op s = Inr ?s" using e n by (simp add: commit_def)
    moreover have "log_ready r ?s"
      by (rule log_readyI [OF q1 [unfolded p]]) (use s1 n o l in \<open>simp_all add: s1_def\<close>)
    moreover have "dwrites s1 = dwrites s0" "disk s1 = disk s0" "disksize s1 = disksize s0"
      using q1 unfolding quiet_def by blast+
    ultimately show ?thesis using True s1 by (intro exI [of _ ?s]) simp
  next
    case False
    then have n: "0 < nat (lh_n s)" using o by (cases "nat (lh_n s) = 0") auto
    have nr: "nat (lh_n s) < r" using o len by linarith
    let ?ws = "commit_writes (log_start s0) (lh_block s) (nat (lh_n s)) (apply_writes ups (disk s0))"
    from commit_law [OF q1 s1(5) refl, of ?ws] n nr ok(1) o s1 obtain s2 where
      s2: "commit s1 = Inr s2" and q2: "quiet r s2 (apply_writes ?ws (apply_writes ups (disk s0))) (apply_writes ?ws (disk s0))
        (rev ?ws @ dwrites s0) (\<lambda>_. False) (disksize s0) (bcache_st.more (s1\<lparr>lh_n := 0\<rparr>))" by auto
    have "apply_writes ?ws (apply_writes ups (disk s0)) = apply_writes ?ws (disk s0)"
      by (rule ext) (use quiet_clean [OF q2] in blast)
    then have q2': "quiet r s2 (apply_writes ?ws (disk s0)) (apply_writes ?ws (disk s0))
        (rev ?ws @ dwrites s0) (\<lambda>_. False) (disksize s0) (bcache_st.more (s1\<lparr>lh_n := 0\<rparr>))" using q2 by simp
    note e2 = more_log [OF quiet_more [OF q2, symmetric]]
    let ?s = "wakeup ChLog (s2\<lparr>log_committing := 0\<rparr>)"
    have "get32 (apply_writes ?ws (disk s0) (uint_of_int (log_start s0))) 0 = 0"
      by (simp add: commit_writes_def Let_def apply_writes_append head_data_0)
    then have "log_ready r ?s" by (intro log_readyI [OF q2']) (use e2 s1 o l in \<open>simp_all add: s1_def\<close>)
    moreover have "end_op s = Inr ?s" using e s2 by simp
    moreover have "dwrites s2 = rev ?ws @ dwrites s0" "disk s2 = apply_writes ?ws (disk s0)" "disksize s2 = disksize s0"
      using q2 unfolding quiet_def by blast+
    ultimately show ?thesis using e2 s1 by (intro exI [of _ ?s]) (simp add: Let_def)
  qed
qed

section \<open>Properties\<close>

text \<open>
  The machine after a crash that left the disk \<open>d\<close>: a fresh cache of at least two buffers,
  with the log located as \<open>initlog\<close> does before it recovers.
\<close>

definition rebooted :: "'a log_st_scheme \<Rightarrow> (u32 \<Rightarrow> bytes) \<Rightarrow> 'b log_st_scheme \<Rightarrow> bool" where
  "rebooted s d t \<longleftrightarrow> quiet 2 t d d (dwrites t) (\<lambda>_. False) (disksize s) (bcache_st.more t) \<and>
     log_dev t = 1 \<and> log_start t = log_start s \<and> length (lh_block t) = nat LOGSIZE"

lemma rebooted_recovers:
  assumes t: "rebooted s d t" and n: "0 \<le> head_n (log_start s) d" "nat (head_n (log_start s) d) \<le> nat LOGSIZE"
    and ok: "blocks_ok (log_start s) (head_blocks (log_start s) d) (nat (head_n (log_start s) d)) (disksize s)"
  shows "\<exists>t'. recover_from_log t = Inr t' \<and> disk t' = recovered (log_start s) d"
proof -
  have q: "quiet 2 t d d (dwrites t) (\<lambda>_. False) (disksize s) (bcache_st.more t)" and
    e: "log_dev t = 1" "log_start t = log_start s" "length (lh_block t) = nat LOGSIZE"
    using t by (simp_all add: rebooted_def)
  from recover_law [OF q e(1)] e n ok show ?thesis unfolding quiet_def by auto
qed

text \<open>
  (C5) A file-system operation that updates at most \<open>MAXOPBLOCKS\<close> blocks outside the log is
  atomic with respect to crashes. It runs to its end, after which the disk has all of its
  updates and the log is ready for the next operation; and if the machine stops after any
  of the disk writes the operation makes (\<open>ws1\<close>, the latest first), \<open>recover_from_log\<close> on
  the disk as it then is completes and leaves a disk on which, outside the log, either none
  of the updates has happened or all of them have.
\<close>

theorem log_crash_atomic:
  assumes ready: "log_ready r s" and r: "nat MAXOPBLOCKS < r" and len: "length ups \<le> nat MAXOPBLOCKS"
    and b: "\<forall>bx \<in> set ups. fst bx < disksize s \<and> \<not> in_log s (fst bx)"
  shows "\<exists>s'. run_op ups s = Inr s' \<and> log_ready r s' \<and>
     (\<forall>b. \<not> in_log s b \<longrightarrow> disk s' b = apply_writes ups (disk s) b) \<and>
     (\<forall>ws1 ws2 t. dwrites s' = ws2 @ ws1 @ dwrites s \<longrightarrow> rebooted s (apply_writes (rev ws1) (disk s)) t \<longrightarrow>
        (\<exists>t'. recover_from_log t = Inr t' \<and>
           ((\<forall>b. \<not> in_log s b \<longrightarrow> disk t' b = disk s b) \<or>
            (\<forall>b. \<not> in_log s b \<longrightarrow> disk t' b = apply_writes ups (disk s) b))))"
proof -
  note l = log_readyD [OF ready]
  from update_blocks_law [OF begin_op_law(2) [OF ready], of ups] len r b l(7) obtain s1 where
    s1: "update_blocks ups (s\<lparr>log_outstanding := 1\<rparr>) = Inr s1" and op: "in_op r s ups s1" by auto
  note ok = in_op_blocks_ok [OF op len b l(7-9)]
  from end_op_law [OF op ready len r b] obtain s' where
    s': "end_op s1 = Inr s'" "log_ready r s'" and
    w: "ups = [] \<and> dwrites s' = dwrites s \<and> disk s' = disk s \<or>
      (let ws = commit_writes (log_start s) (lh_block s1) (nat (lh_n s1)) (apply_writes ups (disk s)) in
       dwrites s' = rev ws @ dwrites s \<and> disk s' = apply_writes ws (disk s))" by blast
  define n where "n = nat (lh_n s1)"
  have n: "n \<le> nat LOGSIZE" "n < 2 ^ 31" and img: "lhb (lh_block s1) ` {..<n} = fst ` set ups"
    using op len by (auto simp: in_op_def n_def LOGSIZE_def MAXOPBLOCKS_def)
  have clean: "\<forall>b. b \<notin> lhb (lh_block s1) ` {..<n} \<longrightarrow> apply_writes ups (disk s) b = disk s b"
    by (simp add: img apply_writes_other)
  note crash = crash_recovered [OF ok(1) [folded n_def] n(2) clean l(10) refl]
  have run: "run_op ups s = Inr s'" using begin_op_law(1) [OF ready] s1 s'(1) by (simp add: run_op_def)
  have final: "disk s' b = apply_writes ups (disk s) b" if "\<not> in_log s b" for b
  proof -
    have "b \<notin> log_area (log_start s) n" using ok(2) that by (auto simp: n_def)
    from commit_done [OF ok(1) [folded n_def] clean this] w show ?thesis by (auto simp: Let_def n_def)
  qed
  have "\<exists>t'. recover_from_log t = Inr t' \<and> ((\<forall>b. \<not> in_log s b \<longrightarrow> disk t' b = disk s b) \<or>
      (\<forall>b. \<not> in_log s b \<longrightarrow> disk t' b = apply_writes ups (disk s) b))"
    if ws: "dwrites s' = ws2 @ ws1 @ dwrites s" and t: "rebooted s (apply_writes (rev ws1) (disk s)) t" for ws1 ws2 t
  proof -
    let ?cw = "commit_writes (log_start s) (lh_block s1) n (apply_writes ups (disk s))"
    have "ws1 = [] \<or> ws2 @ ws1 = rev ?cw" using w ws by (auto simp: Let_def n_def)
    then obtain k where k: "rev ws1 = take k ?cw"
    proof (elim disjE)
      assume "ws2 @ ws1 = rev ?cw"
      then have "rev ws1 @ rev ws2 = ?cw" by (metis rev_append rev_rev_ident)
      then have "rev ws1 = take (length ws1) ?cw" by (metis append_eq_conv_conj length_rev)
      then show ?thesis by (rule that)
    qed (use that [of 0] in simp)
    note c = crash [of k, folded k]
    from rebooted_recovers [OF t c(1) _ c(3)] c(2) n(1) obtain t' where
      "recover_from_log t = Inr t'" "disk t' = recovered (log_start s) (apply_writes (rev ws1) (disk s))" by auto
    then show ?thesis using c(4) ok(2) unfolding n_def [symmetric] by auto
  qed
  with run s'(2) final show ?thesis by blast
qed

text \<open>A disk with a log of twelve blocks at block 2, and a cache of eleven buffers.\<close>

definition small_log :: "(u32 \<Rightarrow> bytes) \<Rightarrow> log_st" where
  "small_log d = bcache_st.extend (small_bcache 11 d)
     \<lparr>log_start = 2, log_size = 12, log_outstanding = 0, log_committing = 0, log_dev = 1, lh_n = 0,
      lh_block = replicate 30 0\<rparr>"

lemma small_log_cache: "same_cache (small_bcache 11 d) (small_log d)"
  by (simp add: same_cache_def small_log_def bcache_st.defs mypid_def getp_def)

lemma small_log_ready:
  assumes "get32 (d 2) 0 = 0"
  shows "log_ready 11 (small_log d)"
proof -
  let ?b = "small_bcache 11 d"
  note sc = small_log_cache
  have "dirtyb ?b = (\<lambda>_. False)" by (simp add: dirtyb_def small_bcache_uncached fun_eq_iff)
  then have "quiet 11 (small_log d) d d (dwrites ?b) (\<lambda>_. False) 100 (bcache_st.more (small_log d))"
    unfolding quiet_def same_cache_eqs [OF sc] by (simp add: small_bcache opened_def)
  moreover have "disk (small_log d) = d" "dwrites (small_log d) = dwrites ?b" "disksize (small_log d) = 100"
    using calculation by (simp_all add: quiet_def)
  ultimately show ?thesis using assms
    by (simp add: log_ready_def) (simp add: small_log_def bcache_st.defs LOGSIZE_def MAXOPBLOCKS_def uint_of_int_def)
qed

theorem log_crash_atomic_witness:
  "\<exists>s'. run_op [(40, \<lambda>_. 9), (50, \<lambda>_. 8)] (small_log (\<lambda>_ _. 0)) = Inr s' \<and> disk s' 40 = (\<lambda>_. 9) \<and> disk s' 50 = (\<lambda>_. 8)"
proof -
  let ?s = "small_log (\<lambda>_ _. 0)"
  have sel: "log_start ?s = 2" "log_size ?s = 12" "disksize ?s = 100"
    by (simp_all add: small_log_def bcache_st.defs small_bcache)
  have out: "\<not> in_log ?s 40" "\<not> in_log ?s 50"
    using log_area_range(2) [of 40 2 11 100] log_area_range(2) [of 50 2 11 100] by (auto simp: in_log_def sel)
  have "log_ready 11 ?s" by (rule small_log_ready) (simp add: get32_def)
  from log_crash_atomic [OF this, of "[(40, \<lambda>_. 9), (50, \<lambda>_. 8)]"] out show ?thesis
    by (auto simp: MAXOPBLOCKS_def sel)
qed

end
