(* ===== verification/Fs.thy ===== *)
theory Fs
  imports Log
begin

text \<open>
  Blocks and inodes of \<open>fs.c\<close>: the bitmap allocator, the inode cache, the block map of an
  inode, and reading and writing its content. A \<open>struct inode *\<close> is an index into the
  cache \<open>icache.inode\<close>; \<open>ilock\<close> and \<open>iunlock\<close>, which test it, take an option. A buffer that
  the code fills (\<open>dst\<close> of \<open>readi\<close>) is the list of bytes returned, one that it reads (\<open>src\<close> of
  \<open>writei\<close>) is the list given.
\<close>

section \<open>State\<close>

definition NDIRECT :: nat where "NDIRECT = 12"
definition NINDIRECT :: nat where "NINDIRECT = BSIZE div 4"
definition MAXFILE :: nat where "MAXFILE = NDIRECT + NINDIRECT"
definition IPB :: nat where "IPB = BSIZE div 64"
definition BPB :: nat where "BPB = BSIZE * 8"
definition NDEV :: int where "NDEV = 10"
definition ROOTINO :: u32 where "ROOTINO = 1"
definition ROOTDEV :: u32 where "ROOTDEV = 1"
definition T_DIR :: u16 where "T_DIR = 1"
definition T_FILE :: u16 where "T_FILE = 2"
definition T_DEV :: u16 where "T_DEV = 3"

record dinode =
  d_type :: u16
  d_major :: u16
  d_minor :: u16
  d_nlink :: u16
  d_size :: u32
  d_addrs :: "u32 list"

record inode =
  i_dev :: u32
  i_inum :: u32
  i_ref :: int
  i_lock :: sleeplock
  i_valid :: int
  i_type :: u16
  i_major :: u16
  i_minor :: u16
  i_nlink :: u16
  i_size :: u32
  i_addrs :: "u32 list"

record fs_st = log_st +
  fs_sb :: superblock
  inodes :: "inode list"

definition modi :: "nat \<Rightarrow> (inode \<Rightarrow> inode) \<Rightarrow> 'a fs_st_scheme \<Rightarrow> 'a fs_st_scheme" where
  "modi ip f s = s\<lparr>inodes := (inodes s)[ip := f (inodes s ! ip)]\<rparr>"

abbreviation inode_at :: "'a fs_st_scheme \<Rightarrow> nat \<Rightarrow> inode" where
  "inode_at s ip \<equiv> inodes s ! ip"

text \<open>\<open>struct dinode\<close> at offset \<open>p\<close> of a block: 64 bytes.\<close>

definition dinode_at :: "bytes \<Rightarrow> nat \<Rightarrow> dinode" where
  "dinode_at m p = \<lparr>d_type = get16 m p, d_major = get16 m (p + 2), d_minor = get16 m (p + 4), d_nlink = get16 m (p + 6),
     d_size = get32 m (p + 8), d_addrs = map (\<lambda>k. get32 m (p + 12 + 4 * k)) [0..<NDIRECT + 1]\<rparr>"

definition put_dinode :: "nat \<Rightarrow> dinode \<Rightarrow> bytes \<Rightarrow> bytes" where
  "put_dinode p d m =
     fold (\<lambda>k. put32 (p + 12 + 4 * k) (d_addrs d ! k)) [0..<NDIRECT + 1]
       (put32 (p + 8) (d_size d) (put16 (p + 6) (d_nlink d) (put16 (p + 4) (d_minor d)
         (put16 (p + 2) (d_major d) (put16 p (d_type d) m)))))"

definition IBLOCK :: "u32 \<Rightarrow> superblock \<Rightarrow> u32" where
  "IBLOCK i sb = i div of_nat IPB + sb_inodestart sb"

definition BBLOCK :: "u32 \<Rightarrow> superblock \<Rightarrow> u32" where
  "BBLOCK b sb = b div of_nat BPB + sb_bmapstart sb"

section \<open>Blocks\<close>

definition bzero :: "u32 \<Rightarrow> u32 \<Rightarrow> 'a fs_st_scheme \<Rightarrow> 'a fs_st_scheme res" where
  "bzero dev bno s = bnd (bread dev bno s) (\<lambda>(bp, s).
     bnd (log_write bp (set_data bp (kmemset 0 0 BSIZE (b_data (buf_at s bp))) s)) (brelse bp))"

definition bmask :: "nat \<Rightarrow> u8" where
  "bmask bi = push_bit (bi mod 8) 1"

definition bit_clear :: "bytes \<Rightarrow> nat \<Rightarrow> bool" where
  "bit_clear d bi \<longleftrightarrow> d (bi div 8) AND bmask bi = 0"

definition set_bit_at :: "nat \<Rightarrow> bytes \<Rightarrow> bytes" where
  "set_bit_at bi d = d(bi div 8 := d (bi div 8) OR bmask bi)"

definition clear_bit_at :: "nat \<Rightarrow> bytes \<Rightarrow> bytes" where
  "clear_bit_at bi d = d(bi div 8 := d (bi div 8) AND NOT (bmask bi))"

text \<open>The outer loop of \<open>balloc\<close>, one bitmap block at a time; \<open>sz\<close> is \<open>sb.size\<close>.\<close>

function balloc_loop :: "nat \<Rightarrow> nat \<Rightarrow> u32 \<Rightarrow> 'a fs_st_scheme \<Rightarrow> (u32 \<times> 'a fs_st_scheme) res" where
  "balloc_loop b sz dev s =
     (if \<not> b < sz then Inl (Panic ''balloc: out of blocks'')
      else bnd (bread dev (BBLOCK (of_nat b) (fs_sb s)) s) (\<lambda>(bp, s).
        case find (bit_clear (b_data (buf_at s bp))) [0..<min BPB (sz - b)] of
          Some bi \<Rightarrow>
            bnd (log_write bp (set_data bp (set_bit_at bi (b_data (buf_at s bp))) s)) (\<lambda>s.
            bnd (brelse bp s) (\<lambda>s.
            bnd (bzero dev (of_nat (b + bi)) s) (\<lambda>s. Inr (of_nat (b + bi), s))))
        | None \<Rightarrow> bnd (brelse bp s) (balloc_loop (b + BPB) sz dev)))"
  by pat_completeness auto

termination
  by (relation "measure (\<lambda>(b, sz, dev, s). sz - b)") (auto simp: BPB_def BSIZE_def)

declare balloc_loop.simps [simp del]

definition balloc :: "u32 \<Rightarrow> 'a fs_st_scheme \<Rightarrow> (u32 \<times> 'a fs_st_scheme) res" where
  "balloc dev s = balloc_loop 0 (unat (sb_size (fs_sb s))) dev s"

definition bfree :: "u32 \<Rightarrow> u32 \<Rightarrow> 'a fs_st_scheme \<Rightarrow> 'a fs_st_scheme res" where
  "bfree dev b s = bnd (bread dev (BBLOCK b (fs_sb s)) s) (\<lambda>(bp, s).
     let bi = unat b mod BPB; d = b_data (buf_at s bp) in
     if bit_clear d bi then Inl (Panic ''freeing free block'')
     else bnd (log_write bp (set_data bp (clear_bit_at bi d) s)) (brelse bp))"

section \<open>The inode cache\<close>

definition NINODE :: nat where "NINODE = 50"

definition iinit :: "int \<Rightarrow> 'a fs_st_scheme \<Rightarrow> 'a fs_st_scheme res" where
  "iinit dev s = bnd (readsb dev (s\<lparr>inodes := map (\<lambda>ip. ip\<lparr>i_lock := initsleeplock\<rparr>) (inodes s)\<rparr>))
     (\<lambda>(sb, s). Inr (s\<lparr>fs_sb := sb\<rparr>))"

definition iget :: "u32 \<Rightarrow> u32 \<Rightarrow> 'a fs_st_scheme \<Rightarrow> (nat \<times> 'a fs_st_scheme) res" where
  "iget dev inum s =
     (case first_idx (\<lambda>ip. i_ref ip > 0 \<and> i_dev ip = dev \<and> i_inum ip = inum) (inodes s) of
        Some ip \<Rightarrow> Inr (ip, modi ip (\<lambda>i. i\<lparr>i_ref := i_ref i + 1\<rparr>) s)
      | None \<Rightarrow>
          (case first_idx (\<lambda>ip. i_ref ip = 0) (inodes s) of
             None \<Rightarrow> Inl (Panic ''iget: no inodes'')
           | Some ip \<Rightarrow> Inr (ip, modi ip (\<lambda>i. i\<lparr>i_dev := dev, i_inum := inum, i_ref := 1, i_valid := 0\<rparr>) s)))"

definition idup :: "nat \<Rightarrow> 'a fs_st_scheme \<Rightarrow> 'a fs_st_scheme" where
  "idup ip s = modi ip (\<lambda>i. i\<lparr>i_ref := i_ref i + 1\<rparr>) s"

definition zero_dinode :: dinode where
  "zero_dinode = \<lparr>d_type = 0, d_major = 0, d_minor = 0, d_nlink = 0, d_size = 0, d_addrs = replicate (NDIRECT + 1) 0\<rparr>"

text \<open>The loop of \<open>ialloc\<close> from \<open>inum\<close> on, over \<open>n\<close> inodes.\<close>

fun ialloc_loop :: "u32 \<Rightarrow> nat \<Rightarrow> u32 \<Rightarrow> u16 \<Rightarrow> 'a fs_st_scheme \<Rightarrow> (nat \<times> 'a fs_st_scheme) res" where
  "ialloc_loop inum 0 dev type s = Inl (Panic ''ialloc: no inodes'')"
| "ialloc_loop inum (Suc n) dev type s =
     bnd (bread dev (IBLOCK inum (fs_sb s)) s) (\<lambda>(bp, s).
       let p = 64 * (unat inum mod IPB); d = b_data (buf_at s bp) in
       if d_type (dinode_at d p) = 0
       then bnd (log_write bp (set_data bp (put16 p type (kmemset p 0 64 d)) s)) (\<lambda>s.
            bnd (brelse bp s) (iget dev inum))
       else bnd (brelse bp s) (ialloc_loop (inum + 1) n dev type))"

definition ialloc :: "u32 \<Rightarrow> u16 \<Rightarrow> 'a fs_st_scheme \<Rightarrow> (nat \<times> 'a fs_st_scheme) res" where
  "ialloc dev type s = ialloc_loop 1 (unat (sb_ninodes (fs_sb s)) - 1) dev type s"

definition iupdate :: "nat \<Rightarrow> 'a fs_st_scheme \<Rightarrow> 'a fs_st_scheme res" where
  "iupdate ip s =
     (let i = inode_at s ip in
      bnd (bread (i_dev i) (IBLOCK (i_inum i) (fs_sb s)) s) (\<lambda>(bp, s).
      let dip = \<lparr>d_type = i_type i, d_major = i_major i, d_minor = i_minor i, d_nlink = i_nlink i,
                 d_size = i_size i, d_addrs = i_addrs i\<rparr> in
      bnd (log_write bp (set_data bp (put_dinode (64 * (unat (i_inum i) mod IPB)) dip (b_data (buf_at s bp))) s))
        (brelse bp)))"

definition ilock :: "nat option \<Rightarrow> 'a fs_st_scheme \<Rightarrow> 'a fs_st_scheme res" where
  "ilock ipo s = (case ipo of None \<Rightarrow> Inl (Panic ''ilock'') | Some ip \<Rightarrow>
     if i_ref (inode_at s ip) < 1 then Inl (Panic ''ilock'')
     else bnd (acquiresleep (ChInodeLock ip) (i_lock (inode_at s ip)) s) (\<lambda>lk.
       let s = modi ip (\<lambda>i. i\<lparr>i_lock := lk\<rparr>) s; i = inode_at s ip in
       if i_valid i \<noteq> 0 then Inr s
       else bnd (bread (i_dev i) (IBLOCK (i_inum i) (fs_sb s)) s) (\<lambda>(bp, s).
         let dip = dinode_at (b_data (buf_at s bp)) (64 * (unat (i_inum i) mod IPB));
             s = modi ip (\<lambda>i. i\<lparr>i_type := d_type dip, i_major := d_major dip, i_minor := d_minor dip,
                   i_nlink := d_nlink dip, i_size := d_size dip, i_addrs := d_addrs dip\<rparr>) s in
         bnd (brelse bp s) (\<lambda>s.
           let s = modi ip (\<lambda>i. i\<lparr>i_valid := 1\<rparr>) s in
           if i_type (inode_at s ip) = 0 then Inl (Panic ''ilock: no type'') else Inr s))))"

definition iunlock :: "nat option \<Rightarrow> 'a fs_st_scheme \<Rightarrow> 'a fs_st_scheme res" where
  "iunlock ipo s = (case ipo of None \<Rightarrow> Inl (Panic ''iunlock'') | Some ip \<Rightarrow>
     bnd (holdingsleep (i_lock (inode_at s ip)) s) (\<lambda>h.
       if \<not> h \<or> i_ref (inode_at s ip) < 1 then Inl (Panic ''iunlock'')
       else case releasesleep (ChInodeLock ip) (i_lock (inode_at s ip)) s of (lk, s) \<Rightarrow>
         Inr (modi ip (\<lambda>i. i\<lparr>i_lock := lk\<rparr>) s)))"

section \<open>Block maps\<close>

definition bmap :: "nat \<Rightarrow> u32 \<Rightarrow> 'a fs_st_scheme \<Rightarrow> (u32 \<times> 'a fs_st_scheme) res" where
  "bmap ip bn s =
     (let i = inode_at s ip in
      if unat bn < NDIRECT
      then let addr = i_addrs i ! unat bn in
           if addr \<noteq> 0 then Inr (addr, s)
           else bnd (balloc (i_dev i) s) (\<lambda>(addr, s).
                  Inr (addr, modi ip (\<lambda>i. i\<lparr>i_addrs := (i_addrs i)[unat bn := addr]\<rparr>) s))
      else let bn = unat bn - NDIRECT in
        if bn < NINDIRECT
        then bnd (if i_addrs i ! NDIRECT \<noteq> 0 then Inr (i_addrs i ! NDIRECT, s)
                  else bnd (balloc (i_dev i) s) (\<lambda>(addr, s).
                         Inr (addr, modi ip (\<lambda>i. i\<lparr>i_addrs := (i_addrs i)[NDIRECT := addr]\<rparr>) s))) (\<lambda>(addr, s).
             bnd (bread (i_dev i) addr s) (\<lambda>(bp, s).
             let a = b_data (buf_at s bp); addr = get32 a (4 * bn) in
             if addr \<noteq> 0 then bnd (brelse bp s) (\<lambda>s. Inr (addr, s))
             else bnd (balloc (i_dev i) s) (\<lambda>(addr, s).
                  bnd (log_write bp (set_data bp (put32 (4 * bn) addr (b_data (buf_at s bp))) s)) (\<lambda>s.
                  bnd (brelse bp s) (\<lambda>s. Inr (addr, s))))))
        else Inl (Panic ''bmap: out of range''))"

definition itrunc_direct :: "nat \<Rightarrow> nat \<Rightarrow> 'a fs_st_scheme \<Rightarrow> 'a fs_st_scheme res" where
  "itrunc_direct ip k s =
     (let i = inode_at s ip in
      if i_addrs i ! k \<noteq> 0
      then bnd (bfree (i_dev i) (i_addrs i ! k) s) (\<lambda>s.
             Inr (modi ip (\<lambda>i. i\<lparr>i_addrs := (i_addrs i)[k := 0]\<rparr>) s))
      else Inr s)"

definition itrunc :: "nat \<Rightarrow> 'a fs_st_scheme \<Rightarrow> 'a fs_st_scheme res" where
  "itrunc ip s =
     bnd (foreach (itrunc_direct ip) 0 NDIRECT s) (\<lambda>s.
     bnd (let i = inode_at s ip; ind = i_addrs i ! NDIRECT in
          if ind \<noteq> 0
          then bnd (bread (i_dev i) ind s) (\<lambda>(bp, s).
               let a = b_data (buf_at s bp) in
               bnd (foreach (\<lambda>j s. if get32 a (4 * j) \<noteq> 0 then bfree (i_dev i) (get32 a (4 * j)) s else Inr s)
                      0 NINDIRECT s) (\<lambda>s.
               bnd (brelse bp s) (\<lambda>s.
               bnd (bfree (i_dev i) ind s) (\<lambda>s.
                 Inr (modi ip (\<lambda>i. i\<lparr>i_addrs := (i_addrs i)[NDIRECT := 0]\<rparr>) s)))))
          else Inr s) (\<lambda>s.
     iupdate ip (modi ip (\<lambda>i. i\<lparr>i_size := 0\<rparr>) s)))"

definition iput :: "nat \<Rightarrow> 'a fs_st_scheme \<Rightarrow> 'a fs_st_scheme res" where
  "iput ip s =
     bnd (acquiresleep (ChInodeLock ip) (i_lock (inode_at s ip)) s) (\<lambda>lk.
     let s = modi ip (\<lambda>i. i\<lparr>i_lock := lk\<rparr>) s; i = inode_at s ip in
     bnd (if i_valid i \<noteq> 0 \<and> i_nlink i = 0 \<and> i_ref i = 1
          then bnd (itrunc ip s) (\<lambda>s.
               bnd (iupdate ip (modi ip (\<lambda>i. i\<lparr>i_type := 0\<rparr>) s)) (\<lambda>s.
               Inr (modi ip (\<lambda>i. i\<lparr>i_valid := 0\<rparr>) s)))
          else Inr s) (\<lambda>s.
     case releasesleep (ChInodeLock ip) (i_lock (inode_at s ip)) s of (lk, s) \<Rightarrow>
       Inr (modi ip (\<lambda>i. i\<lparr>i_lock := lk, i_ref := i_ref i - 1\<rparr>) s)))"

definition iunlockput :: "nat \<Rightarrow> 'a fs_st_scheme \<Rightarrow> 'a fs_st_scheme res" where
  "iunlockput ip s = bnd (iunlock (Some ip) s) (iput ip)"

section \<open>Content\<close>

record fstat =
  st_type :: u16
  st_dev :: int
  st_ino :: u32
  st_nlink :: u16
  st_size :: u32

definition stati :: "nat \<Rightarrow> 'a fs_st_scheme \<Rightarrow> fstat" where
  "stati ip s = (let i = inode_at s ip in
     \<lparr>st_type = i_type i, st_dev = int_of_uint (i_dev i), st_ino = i_inum i, st_nlink = i_nlink i, st_size = i_size i\<rparr>)"

function readi_loop :: "nat \<Rightarrow> nat \<Rightarrow> nat \<Rightarrow> 'a fs_st_scheme \<Rightarrow> (u8 list \<times> 'a fs_st_scheme) res" where
  "readi_loop ip off n s =
     (if n = 0 then Inr ([], s)
      else let m = min n (BSIZE - off mod BSIZE) in
        bnd (bmap ip (of_nat (off div BSIZE)) s) (\<lambda>(addr, s).
        bnd (bread (i_dev (inode_at s ip)) addr s) (\<lambda>(bp, s).
        let bs = bytes_at (b_data (buf_at s bp)) (off mod BSIZE) m in
        bnd (brelse bp s) (\<lambda>s.
        bnd (readi_loop ip (off + m) (n - m) s) (\<lambda>(bs', s). Inr (bs @ bs', s))))))"
  by pat_completeness auto

termination
  by (relation "measure (\<lambda>(ip, off, n, s). n)") (auto simp: BSIZE_def)

declare readi_loop.simps [simp del]

text \<open>\<open>readi\<close> of an inode that is not a device; \<open>off + n\<close> wraps around as in C.\<close>

definition readi_file :: "nat \<Rightarrow> u32 \<Rightarrow> u32 \<Rightarrow> 'a fs_st_scheme \<Rightarrow> (int \<times> u8 list \<times> 'a fs_st_scheme) res" where
  "readi_file ip off n s =
     (let size = i_size (inode_at s ip) in
      if off > size \<or> off + n < off then Inr (-1, [], s)
      else let n = (if off + n > size then size - off else n) in
        bnd (readi_loop ip (unat off) (unat n) s) (\<lambda>(bs, s). Inr (int_of_uint n, bs, s)))"

function writei_loop :: "nat \<Rightarrow> u8 list \<Rightarrow> nat \<Rightarrow> 'a fs_st_scheme \<Rightarrow> (nat \<times> 'a fs_st_scheme) res" where
  "writei_loop ip src off s =
     (if src = [] then Inr (off, s)
      else let m = min (length src) (BSIZE - off mod BSIZE) in
        bnd (bmap ip (of_nat (off div BSIZE)) s) (\<lambda>(addr, s).
        bnd (bread (i_dev (inode_at s ip)) addr s) (\<lambda>(bp, s).
        bnd (log_write bp (set_data bp (put_bytes (off mod BSIZE) (take m src) (b_data (buf_at s bp))) s)) (\<lambda>s.
        bnd (brelse bp s) (writei_loop ip (drop m src) (off + m))))))"
  by pat_completeness auto

termination
  by (relation "measure (\<lambda>(ip, src, off, s). length src)") (auto simp: BSIZE_def)

declare writei_loop.simps [simp del]

definition writei_file :: "nat \<Rightarrow> u8 list \<Rightarrow> u32 \<Rightarrow> 'a fs_st_scheme \<Rightarrow> (int \<times> 'a fs_st_scheme) res" where
  "writei_file ip src off s =
     (let n = of_nat (length src) in
      if off > i_size (inode_at s ip) \<or> off + n < off then Inr (-1, s)
      else if unat (off + n) > MAXFILE * BSIZE then Inr (-1, s)
      else bnd (writei_loop ip src (unat off) s) (\<lambda>(off', s).
        bnd (if n > 0 \<and> of_nat off' > i_size (inode_at s ip)
             then iupdate ip (modi ip (\<lambda>i. i\<lparr>i_size := of_nat off'\<rparr>) s) else Inr s) (\<lambda>s.
        Inr (int_of_uint n, s))))"

text \<open>
  The device switch \<open>devsw\<close> is a table of functions and an argument of the operations that
  look into it: for a major number, the device's read and write functions, if it has them.
\<close>

record 's devops =
  dev_read :: "(nat \<Rightarrow> int \<Rightarrow> 's \<Rightarrow> (int \<times> u8 list \<times> 's) res) option"
  dev_write :: "(nat \<Rightarrow> u8 list \<Rightarrow> 's \<Rightarrow> (int \<times> 's) res) option"

definition readi :: "(int \<Rightarrow> 'a fs_st_scheme devops) \<Rightarrow> nat \<Rightarrow> u32 \<Rightarrow> u32 \<Rightarrow> 'a fs_st_scheme \<Rightarrow>
    (int \<times> u8 list \<times> 'a fs_st_scheme) res" where
  "readi devsw ip off n s =
     (let i = inode_at s ip; major = sint (i_major i) in
      if i_type i = T_DEV
      then if major < 0 \<or> major \<ge> NDEV then Inr (-1, [], s)
           else case dev_read (devsw major) of None \<Rightarrow> Inr (-1, [], s) | Some f \<Rightarrow> f ip (int_of_uint n) s
      else readi_file ip off n s)"

definition writei :: "(int \<Rightarrow> 'a fs_st_scheme devops) \<Rightarrow> nat \<Rightarrow> u8 list \<Rightarrow> u32 \<Rightarrow> 'a fs_st_scheme \<Rightarrow>
    (int \<times> 'a fs_st_scheme) res" where
  "writei devsw ip src off s =
     (let i = inode_at s ip; major = sint (i_major i) in
      if i_type i = T_DEV
      then if major < 0 \<or> major \<ge> NDEV then Inr (-1, s)
           else case dev_write (devsw major) of None \<Rightarrow> Inr (-1, s) | Some f \<Rightarrow> f ip src s
      else writei_file ip src off s)"

section \<open>Encoding of inodes\<close>

lemma addrs_fold:
  "k < n \<Longrightarrow> get32 (fold (\<lambda>j. put32 (q + 4 * j) (a ! j)) [0..<n] m) (q + 4 * k) = a ! k"
  "e + 4 \<le> q \<or> q + 4 * n \<le> e \<Longrightarrow> get32 (fold (\<lambda>j. put32 (q + 4 * j) (a ! j)) [0..<n] m) e = get32 m e"
  "e + 2 \<le> q \<or> q + 4 * n \<le> e \<Longrightarrow> get16 (fold (\<lambda>j. put32 (q + 4 * j) (a ! j)) [0..<n] m) e = get16 m e"
proof (induction n)
  case (Suc n)
  {
    case 1
    then show ?case using Suc(1) by (cases "k = n") (auto simp: get32_put32_other)
  next
    case 2
    then show ?case using Suc(2) by (auto simp: get32_put32_other)
  next
    case 3
    then show ?case using Suc(3) by (auto simp: get16_put_other)
  }
qed simp_all

lemma dinode_put_dinode:
  assumes "length (d_addrs d) = NDIRECT + 1"
  shows "dinode_at (put_dinode p d m) p = d"
proof -
  have A: "map (\<lambda>k. get32 (fold (\<lambda>j. put32 (p + 12 + 4 * j) (a ! j)) [0..<n] m') (p + 12 + 4 * k)) [0..<n] =
      map (\<lambda>k. a ! k) [0..<n]" for a n m'
    by (simp add: addrs_fold cong: map_cong)
  have B: "map (\<lambda>k. d_addrs d ! k) [0..<NDIRECT + 1] = d_addrs d" using assms by (metis map_nth)
  show ?thesis unfolding dinode_at_def put_dinode_def A B
    by (simp add: addrs_fold get16_put_other get32_put32_other del: upt_Suc)
qed

lemma dinode_put_other:
  assumes "q + 64 \<le> p \<or> p + 64 \<le> q"
  shows "dinode_at (put_dinode p d m) q = dinode_at m q"
  using assms by (auto simp: dinode_at_def put_dinode_def NDIRECT_def addrs_fold get16_put_other get32_put32_other)

section \<open>States that differ in the arrangement of the buffers only\<close>

definition same_view :: "'a fs_st_scheme \<Rightarrow> 'a fs_st_scheme \<Rightarrow> bool" where
  "same_view s s' \<longleftrightarrow> bc_inv s' \<and> content s' = content s \<and> opened s' = opened s \<and> disk s' = disk s \<and>
     dwrites s' = dwrites s \<and> dirtyb s' = dirtyb s \<and> disksize s' = disksize s \<and> room s' = room s \<and>
     bcache_st.more s' = bcache_st.more s"

lemma more_fs:
  assumes "bcache_st.more s' = bcache_st.more (s :: 'a fs_st_scheme)"
  shows "inodes s' = inodes s" "fs_sb s' = fs_sb s" "log_outstanding s' = log_outstanding s" "log_size s' = log_size s"
    "lh_n s' = lh_n s" "lh_block s' = lh_block s"
  using assms by (cases s; cases s'; simp)+

lemma same_view_refl: "bc_inv s \<Longrightarrow> same_view s s"
  by (simp add: same_view_def)

lemma same_view_trans: "same_view s s' \<Longrightarrow> same_view s' s'' \<Longrightarrow> same_view s s''"
  by (simp add: same_view_def)

lemma fs_read_block:
  assumes "bc_inv s" "b < disksize s" "b \<notin> snd ` opened s" "0 < room s"
  shows "\<exists>i s1 s2. bread 1 b s = Inr (i, s1) \<and> b_data (buf_at s1 i) = content s b \<and> inodes s1 = inodes s \<and>
     brelse i s1 = Inr s2 \<and> same_view s s2"
proof -
  from bio.read_block [OF assms(1-3)] assms(4) obtain i s1 s2 where
    "bread 1 b s = Inr (i, s1)" "b_data (buf_at s1 i) = content s b" "bcache_st.more s1 = bcache_st.more s"
    "brelse i s1 = Inr s2" "same_view s s2" unfolding same_view_def by blast
  with more_fs(1) show ?thesis by blast
qed

section \<open>Reading a file\<close>

text \<open>The disk block of the file's block \<open>bn\<close>, and the byte at an offset.\<close>

definition addr_of :: "(u32 \<Rightarrow> bytes) \<Rightarrow> inode \<Rightarrow> nat \<Rightarrow> u32" where
  "addr_of c i bn = (if bn < NDIRECT then i_addrs i ! bn
     else get32 (c (i_addrs i ! NDIRECT)) (4 * (bn - NDIRECT)))"

definition fbyte :: "'a fs_st_scheme \<Rightarrow> nat \<Rightarrow> nat \<Rightarrow> u8" where
  "fbyte s ip off = content s (addr_of (content s) (inode_at s ip) (off div BSIZE)) (off mod BSIZE)"

text \<open>The first \<open>nblk\<close> blocks of the file are there, are on the disk, and nobody has them open.\<close>

definition block_there :: "'a fs_st_scheme \<Rightarrow> u32 \<Rightarrow> bool" where
  "block_there s b \<longleftrightarrow> b \<noteq> 0 \<and> b < disksize s \<and> b \<notin> snd ` opened s"

definition file_ok :: "'a fs_st_scheme \<Rightarrow> nat \<Rightarrow> nat \<Rightarrow> bool" where
  "file_ok s ip nblk \<longleftrightarrow> ip < length (inodes s) \<and> i_dev (inode_at s ip) = 1 \<and>
     length (i_addrs (inode_at s ip)) = NDIRECT + 1 \<and> nblk \<le> MAXFILE \<and>
     (\<forall>k<nblk. block_there s (addr_of (content s) (inode_at s ip) k)) \<and>
     (NDIRECT < nblk \<longrightarrow> block_there s (i_addrs (inode_at s ip) ! NDIRECT)) \<and>
     inj_on (addr_of (content s) (inode_at s ip)) {..<nblk} \<and>
     (\<forall>k<nblk. addr_of (content s) (inode_at s ip) k \<noteq> i_addrs (inode_at s ip) ! NDIRECT)"

lemma file_ok_view:
  assumes "same_view s s'"
  shows "file_ok s' ip nblk = file_ok s ip nblk" "fbyte s' ip = fbyte s ip"
proof -
  have "content s' = content s" "opened s' = opened s" "disksize s' = disksize s" "inodes s' = inodes s"
    using assms more_fs(1) [of s' s] by (simp_all add: same_view_def)
  then show "file_ok s' ip nblk = file_ok s ip nblk" "fbyte s' ip = fbyte s ip"
    unfolding file_ok_def block_there_def fbyte_def by simp_all
qed

lemma bmap_law:
  assumes ok: "file_ok s ip nblk" and bn: "bn < nblk" and inv: "bc_inv s" and r: "0 < room s"
  shows "\<exists>s'. bmap ip (of_nat bn) s = Inr (addr_of (content s) (inode_at s ip) bn, s') \<and> same_view s s'"
proof -
  let ?i = "inode_at s ip"
  have there: "block_there s (addr_of (content s) ?i bn)" and "nblk \<le> MAXFILE" and dev: "i_dev ?i = 1"
    using ok bn by (auto simp: file_ok_def)
  then have u: "unat (of_nat bn :: u32) = bn" using bn
    by (simp add: unat_of_nat MAXFILE_def NDIRECT_def NINDIRECT_def BSIZE_def)
  show ?thesis
  proof (cases "bn < NDIRECT")
    case True
    then show ?thesis using there inv by (simp add: bmap_def u addr_of_def block_there_def same_view_refl)
  next
    case False
    then have "block_there s (i_addrs ?i ! NDIRECT)" using ok bn by (simp add: file_ok_def)
    then have ind: "i_addrs ?i ! NDIRECT \<noteq> 0" "i_addrs ?i ! NDIRECT < disksize s" "i_addrs ?i ! NDIRECT \<notin> snd ` opened s"
      by (simp_all add: block_there_def)
    from fs_read_block [OF inv ind(2,3) r] obtain j s1 s2 where
      rd: "bread 1 (i_addrs ?i ! NDIRECT) s = Inr (j, s1)" "b_data (buf_at s1 j) = content s (i_addrs ?i ! NDIRECT)"
        "brelse j s1 = Inr s2" "same_view s s2" by blast
    have "bn - NDIRECT < NINDIRECT" using bn \<open>nblk \<le> MAXFILE\<close> False by (simp add: MAXFILE_def)
    then show ?thesis using rd ind(1) there False dev
      by (simp add: bmap_def u addr_of_def block_there_def Let_def)
  qed
qed

text \<open>The part of a transfer that lies in its first block.\<close>

lemma chunk:
  assumes m: "m = min n (BSIZE - off mod BSIZE)"
  shows "m \<le> n" "off mod BSIZE + m \<le> BSIZE" "0 < n \<Longrightarrow> 0 < m"
    "k < m \<Longrightarrow> (off + k) div BSIZE = off div BSIZE" "k < m \<Longrightarrow> (off + k) mod BSIZE = off mod BSIZE + k"
proof -
  have B: "off mod BSIZE < BSIZE" by (simp add: BSIZE_def)
  then show "m \<le> n" "off mod BSIZE + m \<le> BSIZE" "0 < n \<Longrightarrow> 0 < m" unfolding m by linarith+
  assume "k < m"
  then have k: "off mod BSIZE + k < BSIZE" using B unfolding m by linarith
  then have kB: "k < BSIZE" by simp
  show "(off + k) div BSIZE = off div BSIZE" using k kB by (subst div_add1_eq) simp
  show "(off + k) mod BSIZE = off mod BSIZE + k" using k by (subst mod_add_left_eq [symmetric]) simp
qed

lemma chunk_block: "off + n \<le> BSIZE * nblk \<Longrightarrow> 0 < n \<Longrightarrow> off div BSIZE < nblk"
  by (simp add: BSIZE_def div_less_iff_less_mult mult.commute)

lemma readi_loop_law:
  assumes "file_ok s ip nblk" "bc_inv s" "0 < room s" "off + n \<le> BSIZE * nblk"
  shows "\<exists>s'. readi_loop ip off n s = Inr (map (fbyte s ip) [off..<off + n], s') \<and> same_view s s'"
  using assms
proof (induction n arbitrary: off s rule: less_induct)
  case (less n)
  show ?case
  proof (cases "n = 0")
    case True
    then show ?thesis using less(3) by (simp add: readi_loop.simps same_view_refl)
  next
    case False
    define m where "m = min n (BSIZE - off mod BSIZE)"
    define a where "a = addr_of (content s) (inode_at s ip) (off div BSIZE)"
    note m = chunk [OF m_def] and bn = chunk_block [OF less(5)] 
    from bmap_law [OF less(2) _ less(3,4), of "off div BSIZE"] bn False obtain s1 where
      s1: "bmap ip (of_nat (off div BSIZE)) s = Inr (a, s1)" "same_view s s1" by (auto simp: a_def)
    have ok1: "file_ok s1 ip nblk" "fbyte s1 ip = fbyte s ip" using file_ok_view [OF s1(2)] less(2) by simp_all
    have v1: "bc_inv s1" "content s1 = content s" "opened s1 = opened s" "disksize s1 = disksize s" "0 < room s1" "inodes s1 = inodes s"
      using s1(2) less(4) more_fs(1) [of s1 s] by (simp_all add: same_view_def)
    have a: "block_there s a" "i_dev (inode_at s1 ip) = 1" using less(2) bn False v1(6) by (simp_all add: file_ok_def a_def)
    from fs_read_block [of s1 a] v1 a obtain i s2 s3 where
      s3: "bread 1 a s1 = Inr (i, s2)" "b_data (buf_at s2 i) = content s a" "brelse i s2 = Inr s3" "same_view s1 s3"
      by (auto simp: block_there_def)
    have v3: "file_ok s3 ip nblk" "fbyte s3 ip = fbyte s ip" using file_ok_view [OF s3(4)] ok1 by simp_all
    have "bc_inv s3" "0 < room s3" using s3(4) v1 by (simp_all add: same_view_def)
    with less(1) [of "n - m" s3 "off + m"] v3 m less(5) False obtain s4 where
      s4: "readi_loop ip (off + m) (n - m) s3 = Inr (map (fbyte s ip) [off + m..<off + n], s4)" "same_view s3 s4"
      by auto
    have "bytes_at (content s a) (off mod BSIZE) m = map (fbyte s ip) [off..<off + m]"
      using m by (intro nth_equalityI) (simp_all add: bytes_at_def fbyte_def a_def)
    moreover have "[off..<off + n] = [off..<off + m] @ [off + m..<off + n]"
      using m(1) upt_add_eq_append [of off "off + m" "n - m"] by simp
    moreover have "same_view s s4" using s1(2) s3(4) s4(2) same_view_trans by blast
    ultimately show ?thesis using s1(1) s3(1-3) s4(1) a(2) False
      by (subst readi_loop.simps) (simp add: Let_def m_def [symmetric])
  qed
qed

section \<open>Writing within a file\<close>

text \<open>\<open>wrote s s' c\<close>: inside a transaction, the contents of the blocks have become \<open>c\<close>.\<close>

definition wrote :: "'a fs_st_scheme \<Rightarrow> 'a fs_st_scheme \<Rightarrow> (u32 \<Rightarrow> bytes) \<Rightarrow> bool" where
  "wrote s s' c \<longleftrightarrow> bc_inv s' \<and> content s' = c \<and> opened s' = opened s \<and> disk s' = disk s \<and> dwrites s' = dwrites s \<and>
     disksize s' = disksize s \<and> inodes s' = inodes s \<and> fs_sb s' = fs_sb s"

lemma wrote_trans: "wrote s s' c \<Longrightarrow> wrote s' s'' c' \<Longrightarrow> wrote s s'' c'"
  by (simp add: wrote_def)

lemma same_view_wrote: "same_view s s' \<Longrightarrow> wrote s s' (content s)"
  using more_fs(1,2) [of s' s] by (simp add: wrote_def same_view_def)

lemma same_view_log_room: "same_view s s' \<Longrightarrow> log_room k s' = log_room k s"
  using more_fs [of s' s] by (simp add: same_view_def log_room_def)

lemma fs_write_block:
  assumes "bc_inv s" "b < disksize s" "b \<notin> snd ` opened s" "Suc r \<le> room s" "log_room (Suc k) s"
  shows "\<exists>i s1. bread 1 b s = Inr (i, s1) \<and> b_data (buf_at s1 i) = content s b \<and> inodes s1 = inodes s \<and>
     (\<forall>d. \<exists>s2. bnd (log_write i (set_data i d s1)) (brelse i) = Inr s2 \<and> wrote s s2 ((content s)(b := d)) \<and>
       r \<le> room s2 \<and> log_room k s2)"
proof -
  have "dirtyb s b \<or> 0 < room s" using assms(4) by simp
  from log_update_law [OF assms(1-3) this assms(5)] obtain i s1 where
    s1: "bread 1 b s = Inr (i, s1)" "b_data (buf_at s1 i) = content s b" "bcache_st.more s1 = bcache_st.more s" and
    s2: "\<And>d. \<exists>s2 x bl. bnd (log_write i (set_data i d s1)) (brelse i) = Inr s2 \<and> bc_inv s2 \<and> opened s2 = opened s \<and>
       content s2 = (content s)(b := d) \<and> disk s2 = disk s \<and> dwrites s2 = dwrites s \<and>
       dirtyb s2 = (dirtyb s)(b := True) \<and> disksize s2 = disksize s \<and>
       bcache_st.more s2 = bcache_st.more (s\<lparr>lh_block := bl, lh_n := x\<rparr>) \<and>
       room s = room s2 + (if dirtyb s b then 0 else 1) \<and> log_room k s2 \<and> x \<le> lh_n s + 1 \<and>
       lhb bl ` {..<nat x} = insert b (lhb (lh_block s) ` {..<nat (lh_n s)})" by blast
  have "\<exists>s2. bnd (log_write i (set_data i d s1)) (brelse i) = Inr s2 \<and> wrote s s2 ((content s)(b := d)) \<and>
       r \<le> room s2 \<and> log_room k s2" for d
  proof -
    from s2 [of d] obtain s2 x bl where
      "bnd (log_write i (set_data i d s1)) (brelse i) = Inr s2" "bc_inv s2" "opened s2 = opened s"
      "content s2 = (content s)(b := d)" "disk s2 = disk s" "dwrites s2 = dwrites s" "disksize s2 = disksize s"
      "bcache_st.more s2 = bcache_st.more (s\<lparr>lh_block := bl, lh_n := x\<rparr>)"
      "room s = room s2 + (if dirtyb s b then 0 else 1)" "log_room k s2" by blast
    then show ?thesis using more_fs(1,2) [of s2 "s\<lparr>lh_block := bl, lh_n := x\<rparr>"] assms(4)
      by (intro exI [of _ s2]) (auto simp: wrote_def split: if_splits)
  qed
  with s1 more_fs(1) show ?thesis by blast
qed

definition steps :: "nat \<Rightarrow> nat \<Rightarrow> nat" where
  "steps off n = (if n = 0 then 0 else (off mod BSIZE + n - 1) div BSIZE + 1)"

lemma steps_chunk:
  assumes "m = min n (BSIZE - off mod BSIZE)" "0 < n"
  shows "steps off n = Suc (steps (off + m) (n - m))"
proof (cases "n \<le> BSIZE - off mod BSIZE")
  case True
  then have "off mod BSIZE + n - 1 < BSIZE" using assms(2) mod_less_divisor [of BSIZE off] by (simp add: BSIZE_def)
  then show ?thesis using assms True by (simp add: steps_def)
next
  case False
  have B: "off mod BSIZE < BSIZE" by (simp add: BSIZE_def)
  have m: "m = BSIZE - off mod BSIZE" using False assms(1) by simp
  have z: "(off + m) mod BSIZE = 0" using B m by (subst mod_add_left_eq [symmetric]) simp
  have e: "off mod BSIZE + n - 1 = (n - m - 1) + BSIZE" using False B m by simp
  have dv: "((n - m - 1) + BSIZE) div BSIZE = (n - m - 1) div BSIZE + 1"
    by (rule div_add_self2) (simp add: BSIZE_def)
  have "n - m \<noteq> 0" using False m by simp
  then show ?thesis unfolding steps_def e dv z using assms(2) by simp
qed

lemma write_chunk:
  assumes ok: "file_ok s ip nblk" and bn: "off div BSIZE < nblk" and a: "a = addr_of (content s) (inode_at s ip) (off div BSIZE)"
    and w: "wrote s s' ((content s)(a := put_bytes (off mod BSIZE) xs (content s a)))" and xs: "off mod BSIZE + length xs \<le> BSIZE"
  shows "file_ok s' ip nblk" "x < BSIZE * nblk \<Longrightarrow>
     fbyte s' ip x = (if off \<le> x \<and> x < off + length xs then xs ! (x - off) else fbyte s ip x)"
proof -
  let ?i = "inode_at s ip"
  have i: "inodes s' = inodes s" and c: "content s' = (content s)(a := put_bytes (off mod BSIZE) xs (content s a))"
    using w by (simp_all add: wrote_def)
  have "a \<noteq> i_addrs ?i ! NDIRECT" using ok bn by (simp add: file_ok_def a)
  then have addr: "addr_of (content s') ?i = addr_of (content s) ?i" by (simp add: addr_of_def c fun_eq_iff)
  have e: "opened s' = opened s" "disksize s' = disksize s" using w by (simp_all add: wrote_def)
  show "file_ok s' ip nblk" using ok unfolding file_ok_def block_there_def i addr e .
  assume x: "x < BSIZE * nblk"
  then have xb: "x div BSIZE < nblk" by (simp add: BSIZE_def div_less_iff_less_mult mult.commute)
  have inj: "inj_on (addr_of (content s) ?i) {..<nblk}" using ok by (simp add: file_ok_def)
  have fb: "fbyte s' ip x = content s' (addr_of (content s) ?i (x div BSIZE)) (x mod BSIZE)"
    by (simp only: fbyte_def i addr)
  show "fbyte s' ip x = (if off \<le> x \<and> x < off + length xs then xs ! (x - off) else fbyte s ip x)"
  proof (cases "x div BSIZE = off div BSIZE")
    case True
    then have "x = off div BSIZE * BSIZE + x mod BSIZE" "off = off div BSIZE * BSIZE + off mod BSIZE"
      by (metis div_mult_mod_eq, metis div_mult_mod_eq)
    then have le: "off \<le> x \<longleftrightarrow> off mod BSIZE \<le> x mod BSIZE" "x - off = x mod BSIZE - off mod BSIZE"
      "x < off + length xs \<longleftrightarrow> x mod BSIZE < off mod BSIZE + length xs" by linarith+
    then show ?thesis using True unfolding fb c by (simp add: fbyte_def a put_bytes_def)
  next
    case False
    then have "addr_of (content s) ?i (x div BSIZE) \<noteq> a" using inj_onD [OF inj] xb bn by (auto simp: a)
    moreover have "\<not> (off \<le> x \<and> x < off + length xs)"
    proof
      assume "off \<le> x \<and> x < off + length xs"
      then obtain k where k: "x = off + k" "k < length xs" by (metis add_less_cancel_left le_add_diff_inverse)
      then have "x div BSIZE = off div BSIZE" using chunk(4) [of "length xs" "length xs" off k] xs by auto
      with False show False by simp
    qed
    ultimately show ?thesis unfolding fb c by (auto simp: fbyte_def)
  qed
qed

lemma writei_loop_law:
  assumes "file_ok s ip nblk" "bc_inv s" "off + length src \<le> BSIZE * nblk"
    and "steps off (length src) + e \<le> room s" "log_room (steps off (length src)) s"
  shows "\<exists>s'. writei_loop ip src off s = Inr (off + length src, s') \<and> wrote s s' (content s') \<and> file_ok s' ip nblk \<and> e \<le> room s' \<and>
     (\<forall>x < BSIZE * nblk. fbyte s' ip x = (if off \<le> x \<and> x < off + length src then src ! (x - off) else fbyte s ip x))"
  using assms
proof (induction "length src" arbitrary: src off s rule: less_induct)
  case less
  show ?case
  proof (cases "src = []")
    case True
    then show ?thesis using less.prems by (auto simp: writei_loop.simps wrote_def)
  next
    case False
    define m where "m = min (length src) (BSIZE - off mod BSIZE)"
    define a where "a = addr_of (content s) (inode_at s ip) (off div BSIZE)"
    define k where "k = steps (off + m) (length src - m)"
    note m = chunk [OF m_def] and bn = chunk_block [OF less.prems(3)]
    have k: "steps off (length src) = Suc k" using steps_chunk [OF m_def] False by (simp add: k_def)
    have r: "Suc (k + e) \<le> room s" "log_room (Suc k) s" using less.prems(4,5) k by simp_all
    from bmap_law [OF less.prems(1) _ less.prems(2), of "off div BSIZE"] bn False r(1) obtain s1 where
      s1: "bmap ip (of_nat (off div BSIZE)) s = Inr (a, s1)" "same_view s s1" by (auto simp: a_def)
    have v1: "bc_inv s1" "content s1 = content s" "opened s1 = opened s" "disksize s1 = disksize s" "room s1 = room s" "inodes s1 = inodes s"
      using s1(2) more_fs(1) [of s1 s] by (simp_all add: same_view_def)
    have a: "block_there s a" "i_dev (inode_at s1 ip) = 1" using less.prems(1) bn False v1(6) by (simp_all add: file_ok_def a_def)
    have lr: "log_room (Suc k) s1" using same_view_log_room [OF s1(2)] r(2) by simp
    let ?d = "put_bytes (off mod BSIZE) (take m src) (content s a)"
    from fs_write_block [OF v1(1) _ _ _ lr, of a] v1 a r(1) obtain i s2 s3 where
      s3: "bread 1 a s1 = Inr (i, s2)" "b_data (buf_at s2 i) = content s a"
        "bnd (log_write i (set_data i ?d s2)) (brelse i) = Inr s3" "wrote s1 s3 ((content s)(a := ?d))"
        "k + e \<le> room s3" "log_room k s3"
      by (force simp: block_there_def)
    have w: "wrote s s3 ((content s)(a := ?d))" using wrote_trans [OF same_view_wrote [OF s1(2)] s3(4)] .
    have tk: "length (take m src) = m" "off mod BSIZE + length (take m src) \<le> BSIZE" using m by simp_all
    have bn: "off div BSIZE < nblk" using bn False by simp
    note ch = write_chunk [OF less.prems(1) bn a_def w tk(2), unfolded tk(1)]
    have "bc_inv s3" using w by (simp add: wrote_def)
    moreover have "length (drop m src) < length src" "off + m + length (drop m src) \<le> BSIZE * nblk"
      using m(1,3) less.prems(3) False by auto
    ultimately obtain s4 where
      s4: "writei_loop ip (drop m src) (off + m) s3 = Inr (off + length src, s4)" "wrote s3 s4 (content s4)" "file_ok s4 ip nblk" "e \<le> room s4"
      and f4: "\<And>x. x < BSIZE * nblk \<Longrightarrow> fbyte s4 ip x =
        (if off + m \<le> x \<and> x < off + length src then drop m src ! (x - (off + m)) else fbyte s3 ip x)"
      using less.hyps [of "drop m src" s3 "off + m"] ch(1) s3(5,6) m(1) by (auto simp: k_def)
    have "fbyte s4 ip x = (if off \<le> x \<and> x < off + length src then src ! (x - off) else fbyte s ip x)" if "x < BSIZE * nblk" for x
      using f4 [OF that] ch(2) [OF that] m(1) by (cases "x < off + m") auto
    moreover have "writei_loop ip src off s = Inr (off + length src, s4)"
      using s1(1) s3(1-3) s4(1) a(2) False
      by (subst writei_loop.simps) (simp add: Let_def m_def [symmetric] bnd_assoc [symmetric])
    ultimately show ?thesis using wrote_trans [OF w s4(2)] s4(3,4) by blast
  qed
qed

section \<open>The inode cache holds an inode once\<close>

definition in_use_for :: "u32 \<Rightarrow> u32 \<Rightarrow> inode \<Rightarrow> bool" where
  "in_use_for dev inum i \<longleftrightarrow> i_ref i > 0 \<and> i_dev i = dev \<and> i_inum i = inum"

definition icache_inv :: "'a fs_st_scheme \<Rightarrow> bool" where
  "icache_inv s \<longleftrightarrow> (\<forall>dev inum. \<forall>i < length (inodes s). \<forall>j < length (inodes s).
     in_use_for dev inum (inode_at s i) \<longrightarrow> in_use_for dev inum (inode_at s j) \<longrightarrow> i = j) \<and>
     (\<forall>i < length (inodes s). 0 \<le> i_ref (inode_at s i))"

lemma modi_sel [simp]:
  "inodes (modi ip f s) = (inodes s)[ip := f (inode_at s ip)]"
  by (simp add: modi_def)

lemma icache_inv_modi:
  assumes inv: "icache_inv s" and ip: "ip < length (inodes s)" and "0 \<le> i_ref (f (inode_at s ip))"
    and u: "\<And>j. j < length (inodes s) \<Longrightarrow> j \<noteq> ip \<Longrightarrow> 0 < i_ref (f (inode_at s ip)) \<Longrightarrow>
      \<not> in_use_for (i_dev (f (inode_at s ip))) (i_inum (f (inode_at s ip))) (inode_at s j)"
  shows "icache_inv (modi ip f s)"
proof -
  have at: "inode_at (modi ip f s) j = (if j = ip then f (inode_at s ip) else inode_at s j)" for j using ip by simp
  have "i = j" if "i < length (inodes s)" "j < length (inodes s)"
    "in_use_for dev inum (inode_at (modi ip f s) i)" "in_use_for dev inum (inode_at (modi ip f s) j)" for dev inum i j
  proof (cases "i = ip \<or> j = ip")
    case True
    then show ?thesis using that u [of i] u [of j] unfolding at in_use_for_def by (auto split: if_splits)
  next
    case False
    then show ?thesis using that inv unfolding at icache_inv_def by simp
  qed
  moreover have "0 \<le> i_ref (inode_at (modi ip f s) i)" if "i < length (inodes s)" for i
    using that inv assms(3) unfolding at icache_inv_def by simp
  moreover have "length (inodes (modi ip f s)) = length (inodes s)" by simp
  ultimately show ?thesis unfolding icache_inv_def by metis
qed

lemma iget_cases:
  assumes "iget dev inum s = Inr (ip, s')"
  obtains (hit) "ip < length (inodes s)" "in_use_for dev inum (inode_at s ip)"
      "s' = modi ip (\<lambda>i. i\<lparr>i_ref := i_ref i + 1\<rparr>) s"
  | (miss) "ip < length (inodes s)" "i_ref (inode_at s ip) = 0" "\<forall>j < length (inodes s). \<not> in_use_for dev inum (inode_at s j)"
      "s' = modi ip (\<lambda>i. i\<lparr>i_dev := dev, i_inum := inum, i_ref := 1, i_valid := 0\<rparr>) s"
proof (cases "first_idx (\<lambda>ip. i_ref ip > 0 \<and> i_dev ip = dev \<and> i_inum ip = inum) (inodes s)")
  case (Some j)
  with assms have "j = ip" "s' = modi ip (\<lambda>i. i\<lparr>i_ref := i_ref i + 1\<rparr>) s" by (auto simp: iget_def)
  with first_idx_SomeD(1,2) [OF Some] show ?thesis by (intro hit) (simp_all add: in_use_for_def)
next
  case None
  with assms obtain "first_idx (\<lambda>ip. i_ref ip = 0) (inodes s) = Some ip"
    "s' = modi ip (\<lambda>i. i\<lparr>i_dev := dev, i_inum := inum, i_ref := 1, i_valid := 0\<rparr>) s"
    by (auto simp: iget_def split: option.splits)
  moreover have "\<not> in_use_for dev inum (inode_at s j)" if "j < length (inodes s)" for j
    using None nth_mem [OF that] unfolding first_idx_None in_use_for_def by blast
  ultimately show ?thesis using first_idx_SomeD(1,2) by (intro miss) blast+
qed

section \<open>Allocating blocks\<close>

lemma bit_clear_iff: "bit_clear d bi \<longleftrightarrow> \<not> bit (d (bi div 8)) (bi mod 8)"
  using and_exp_eq_0_iff_not_bit [of "d (bi div 8)" "bi mod 8"] by (simp add: bit_clear_def bmask_def push_bit_of_1)

lemma bit_clear_set: "bit_clear (set_bit_at bi d) bj \<longleftrightarrow> bit_clear d bj \<and> bj \<noteq> bi"
proof -
  have "bit (d (bi div 8) OR bmask bi) (bj mod 8) \<longleftrightarrow> bit (d (bi div 8)) (bj mod 8) \<or> bj mod 8 = bi mod 8"
    by (auto simp: bmask_def bit_or_iff push_bit_of_1 bit_exp_iff)
  moreover have "bi = bj \<longleftrightarrow> bi div 8 = bj div 8 \<and> bi mod 8 = bj mod 8" by (metis div_mult_mod_eq)
  ultimately show ?thesis by (auto simp: bit_clear_iff set_bit_at_def)
qed

text \<open>Block \<open>b\<close> is marked in the bitmap.\<close>

definition bmap_block :: "'a fs_st_scheme \<Rightarrow> nat \<Rightarrow> u32" where
  "bmap_block s b = BBLOCK (of_nat b) (fs_sb s)"

definition used :: "'a fs_st_scheme \<Rightarrow> nat \<Rightarrow> bool" where
  "used s b \<longleftrightarrow> \<not> bit_clear (content s (bmap_block s b)) (b mod BPB)"

text \<open>
  The bitmap and the blocks it describes are on the disk and not open, its own blocks are
  marked, and no two of its blocks are the same.
\<close>

definition bitmap_ok :: "'a fs_st_scheme \<Rightarrow> bool" where
  "bitmap_ok s \<longleftrightarrow> (let sz = unat (sb_size (fs_sb s)) in
     sz \<le> unat (disksize s) \<and>
     (\<forall>b < sz. unat (bmap_block s b) < sz \<and> bmap_block s b \<notin> snd ` opened s \<and> used s (unat (bmap_block s b)) \<and>
        (\<not> used s b \<longrightarrow> of_nat b \<notin> snd ` opened s)) \<and>
     (\<forall>b < sz. \<forall>b' < sz. bmap_block s b = bmap_block s b' \<longleftrightarrow> b div BPB = b' div BPB))"

definition allocated :: "'a fs_st_scheme \<Rightarrow> nat \<Rightarrow> u32 \<Rightarrow> bytes" where
  "allocated s f = (content s)(bmap_block s f := set_bit_at (f mod BPB) (content s (bmap_block s f)),
     of_nat f := kmemset 0 0 BSIZE (content s (of_nat f)))"

lemma bitmap_view:
  assumes "same_view s s'"
  shows "used s' = used s" "bmap_block s' = bmap_block s" "bitmap_ok s' = bitmap_ok s" "allocated s' f = allocated s f"
proof -
  have e: "content s' = content s" "opened s' = opened s" "disksize s' = disksize s" "fs_sb s' = fs_sb s"
    using assms more_fs(2) [of s' s] by (simp_all add: same_view_def)
  show m: "bmap_block s' = bmap_block s" by (simp add: bmap_block_def e fun_eq_iff)
  show u: "used s' = used s" by (rule ext) (simp only: used_def m e)
  show "bitmap_ok s' = bitmap_ok s" by (simp only: bitmap_ok_def u m e)
  show "allocated s' f = allocated s f" by (simp only: allocated_def m e)
qed

lemma zeroed: "kmemset 0 0 BSIZE d = (\<lambda>a. if a < BSIZE then 0 else d a)"
  by (rule ext) (simp add: memset_byte uint_of_int_def)

lemma bitmap_okD:
  assumes "bitmap_ok s" "b < unat (sb_size (fs_sb s))"
  shows "bmap_block s b < disksize s" "bmap_block s b \<notin> snd ` opened s" "used s (unat (bmap_block s b))"
    "unat (of_nat b :: u32) = b" "(of_nat b :: u32) < disksize s" "\<not> used s b \<Longrightarrow> of_nat b \<notin> snd ` opened s"
    "b' < unat (sb_size (fs_sb s)) \<Longrightarrow> bmap_block s b = bmap_block s b' \<longleftrightarrow> b div BPB = b' div BPB"
proof -
  have o: "unat (sb_size (fs_sb s)) \<le> unat (disksize s)" "unat (bmap_block s b) < unat (sb_size (fs_sb s))"
    using assms by (simp_all add: bitmap_ok_def Let_def)
  show u: "unat (of_nat b :: u32) = b"
    using assms(2) unsigned_less [of "sb_size (fs_sb s)", where 'a = nat] by (simp add: unat_of_nat)
  show "bmap_block s b < disksize s" "(of_nat b :: u32) < disksize s"
    using o assms(2) u by (simp_all add: word_less_nat_alt)
  show "bmap_block s b \<notin> snd ` opened s" "used s (unat (bmap_block s b))" "\<not> used s b \<Longrightarrow> of_nat b \<notin> snd ` opened s"
    "b' < unat (sb_size (fs_sb s)) \<Longrightarrow> bmap_block s b = bmap_block s b' \<longleftrightarrow> b div BPB = b' div BPB"
    using assms by (simp_all add: bitmap_ok_def Let_def)
qed

lemma bzero_law:
  assumes "bc_inv s" "b < disksize s" "b \<notin> snd ` opened s" "Suc r \<le> room s" "log_room (Suc k) s"
  shows "\<exists>s'. bzero 1 b s = Inr s' \<and> wrote s s' ((content s)(b := kmemset 0 0 BSIZE (content s b)))"
proof -
  from fs_write_block [OF assms] obtain i s1 where
    s1: "bread 1 b s = Inr (i, s1)" "b_data (buf_at s1 i) = content s b" and
    w: "\<And>d. \<exists>s2. bnd (log_write i (set_data i d s1)) (brelse i) = Inr s2 \<and> wrote s s2 ((content s)(b := d)) \<and>
       r \<le> room s2 \<and> log_room k s2" by blast
  from w [of "kmemset 0 0 BSIZE (content s b)"] s1 show ?thesis by (auto simp: bzero_def)
qed

lemma find_upt: "i < n \<Longrightarrow> P i \<Longrightarrow> \<forall>j<i. \<not> P j \<Longrightarrow> find P [0..<n] = Some i"
  by (auto simp: find_Some_iff intro!: exI [of _ i])

lemma balloc_here:
  assumes ok: "bitmap_ok s" and inv: "bc_inv s" and r: "2 \<le> room s" "log_room 2 s" and k: "b = BPB * k"
    and f: "b \<le> f" "f < b + BPB" "f < unat (sb_size (fs_sb s))" "\<not> used s f" "\<forall>x<f. used s x"
  shows "\<exists>s'. balloc_loop b (unat (sb_size (fs_sb s))) 1 s = Inr (of_nat f, s') \<and> wrote s s' (allocated s f)"
proof -
  let ?sz = "unat (sb_size (fs_sb s))" and ?B = "bmap_block s f"
  have pos: "0 < BPB" by (simp add: BPB_def BSIZE_def)
  have fd: "f div BPB = k" "f mod BPB = f - b" using f(1,2) k pos
    by (simp_all add: div_nat_eqI mult.commute mod_nat_eqI)
  have bB: "bmap_block s b = ?B" using bitmap_okD(7) [OF ok, of b f] f k fd pos by simp
  have cl: "bit_clear (content s ?B) x \<longleftrightarrow> \<not> used s (b + x)" if "x < BPB" "b + x < ?sz" for x
  proof -
    have "(b + x) div BPB = k" "(b + x) mod BPB = x" using that k pos by simp_all
    moreover from this have "bmap_block s (b + x) = ?B" using bitmap_okD(7) [OF ok that(2) f(3)] fd by simp
    ultimately show ?thesis by (simp add: used_def)
  qed
  have fnd: "find (bit_clear (content s ?B)) [0..<min BPB (?sz - b)] = Some (f - b)"
  proof (rule find_upt)
    show "f - b < min BPB (?sz - b)" using f by auto
    show "bit_clear (content s ?B) (f - b)" using cl [of "f - b"] f by simp
    show "\<forall>j<f - b. \<not> bit_clear (content s ?B) j" using cl f by auto
  qed
  note D = bitmap_okD [OF ok f(3)]
  have r2: "Suc 1 \<le> room s" "log_room (Suc 1) s" using r by (simp_all add: numeral_2_eq_2)
  from fs_write_block [OF inv D(1,2) r2] obtain i s1 s2 where
    s1: "bread 1 ?B s = Inr (i, s1)" "b_data (buf_at s1 i) = content s ?B" and
    s2: "bnd (log_write i (set_data i (set_bit_at (f - b) (content s ?B)) s1)) (brelse i) = Inr s2"
      "wrote s s2 ((content s)(?B := set_bit_at (f - b) (content s ?B)))" "1 \<le> room s2" "log_room 1 s2" by blast
  have "?B \<noteq> of_nat f" using D(3,4) f(4) by auto
  moreover from this obtain s3 where "bzero 1 (of_nat f) s2 = Inr s3"
    "wrote s2 s3 ((content s2)(of_nat f := kmemset 0 0 BSIZE (content s (of_nat f))))"
    using bzero_law [of s2 "of_nat f" 0 0] s2 D f(4) by (auto simp: wrote_def)
  ultimately show ?thesis using s1 s2 fnd bB f(1,2,3) fd
    by (subst balloc_loop.simps)
      (auto simp: bmap_block_def [symmetric] bnd_assoc [symmetric] allocated_def wrote_def)
qed

lemma balloc_loop_law:
  assumes "bitmap_ok s" "bc_inv s" "2 \<le> room s" "log_room 2 s" "b = BPB * k" "b \<le> f"
    and f: "f < unat (sb_size (fs_sb s))" "\<not> used s f" "\<forall>x<f. used s x"
  shows "\<exists>s'. balloc_loop b (unat (sb_size (fs_sb s))) 1 s = Inr (of_nat f, s') \<and> wrote s s' (allocated s f)"
  using assms
proof (induction "f - b" arbitrary: b k s rule: less_induct)
  case less
  note ok = less.prems(1) and inv = less.prems(2) and f = less.prems(6-9)
  let ?sz = "unat (sb_size (fs_sb s))"
  have pos: "0 < BPB" by (simp add: BPB_def BSIZE_def)
  show ?case
  proof (cases "f < b + BPB")
    case True
    then show ?thesis using less.prems by (intro balloc_here) simp_all
  next
    case False
    let ?B = "bmap_block s b"
    have b: "b < ?sz" using f by simp
    note D = bitmap_okD [OF ok b]
    have "\<not> bit_clear (content s ?B) x" if "x < min BPB (?sz - b)" for x
    proof -
      have x: "b + x < ?sz" "b + x < f" using that False by linarith+
      then have "(b + x) div BPB = b div BPB" "(b + x) mod BPB = x" using that less.prems(5) pos by simp_all
      moreover from this have "bmap_block s (b + x) = ?B" using bitmap_okD(7) [OF ok x(1) b] by simp
      ultimately show ?thesis using f(4) x(2) by (auto simp: used_def)
    qed
    then have nf: "find (bit_clear (content s ?B)) [0..<min BPB (?sz - b)] = None" by (auto simp: find_None_iff)
    from fs_read_block [OF inv D(1,2)] less.prems(3) obtain i s1 s2 where
      rd: "bread 1 ?B s = Inr (i, s1)" "b_data (buf_at s1 i) = content s ?B" "brelse i s1 = Inr s2" "same_view s s2" by auto
    note v = bitmap_view [OF rd(4)]
    have e: "fs_sb s2 = fs_sb s" "bc_inv s2" "room s2 = room s" using rd(4) more_fs(2) [of s2 s] by (simp_all add: same_view_def)
    have "f - (b + BPB) < f - b" using False pos by linarith
    then obtain s3 where "balloc_loop (b + BPB) ?sz 1 s2 = Inr (of_nat f, s3)" "wrote s2 s3 (allocated s2 f)"
      using less.hyps [of "b + BPB" s2 "Suc k"] less.prems False pos v e same_view_log_room [OF rd(4)] by auto
    moreover from this have "wrote s s3 (allocated s f)"
      using wrote_trans [OF same_view_wrote [OF rd(4)]] v(4) by simp
    ultimately show ?thesis using rd nf b
      by (subst balloc_loop.simps) (simp add: bmap_block_def [symmetric])
  qed
qed

section \<open>Properties\<close>

text \<open>
  (C6) Overwriting a part of a file and reading it back. If the file's blocks are allocated
  and distinct, no buffer with one of them is held, and the transaction has room for the
  blocks that the write touches, \<open>writei\<close> of bytes that lie within the file's size returns
  their number; \<open>readi\<close> then returns exactly these bytes, and every other byte of the file
  is as it was.
\<close>

theorem writei_readi_roundtrip:
  assumes ok: "file_ok s ip nblk" and inv: "bc_inv s" and sz: "unat (i_size (inode_at s ip)) \<le> BSIZE * nblk"
    and src: "unat off + length src \<le> unat (i_size (inode_at s ip))"
    and r: "steps (unat off) (length src) < room s" "log_room (steps (unat off) (length src)) s"
  shows "\<exists>s1 s2. writei_file ip src off s = Inr (int (length src), s1) \<and>
     readi_file ip off (of_nat (length src)) s1 = Inr (int (length src), src, s2) \<and>
     (\<forall>x < unat (i_size (inode_at s ip)). x < unat off \<or> unat off + length src \<le> x \<longrightarrow> fbyte s1 ip x = fbyte s ip x)"
proof -
  define n :: u32 where "n = of_nat (length src)"
  let ?size = "i_size (inode_at s ip)"
  have max: "BSIZE * nblk \<le> MAXFILE * BSIZE" using ok by (simp add: file_ok_def)
  then have small: "unat ?size \<le> 71680" using sz by (simp add: MAXFILE_def NDIRECT_def NINDIRECT_def BSIZE_def)
  then have un: "unat n = length src" using src by (simp add: n_def unat_of_nat)
  have sum: "unat (off + n) = unat off + length src" using src small un by (simp add: unat_word_ariths)
  have int: "int_of_uint n = int (length src)"
    using src small int_of_uint_of_nat [of "length src"] by (simp add: n_def uint_of_int_def)
  have guards: "\<not> off > ?size" "\<not> off + n < off" "\<not> off + n > ?size"
    using src sum by (simp_all add: word_less_nat_alt not_less)
  have max: "\<not> unat (off + n) > MAXFILE * BSIZE" using src sum sz max by linarith
  from writei_loop_law [OF ok inv, of "unat off" src 1] src sz r obtain s1 where
    s1: "writei_loop ip src (unat off) s = Inr (unat off + length src, s1)" "wrote s s1 (content s1)" "file_ok s1 ip nblk" "1 \<le> room s1"
    and f1: "\<And>x. x < BSIZE * nblk \<Longrightarrow> fbyte s1 ip x =
      (if unat off \<le> x \<and> x < unat off + length src then src ! (x - unat off) else fbyte s ip x)" by auto
  have i1: "inodes s1 = inodes s" "bc_inv s1" using s1(2) by (simp_all add: wrote_def)
  have "of_nat (unat off + length src) = off + n" by (simp add: n_def)
  then have w: "writei_file ip src off s = Inr (int (length src), s1)"
    using guards max s1(1) i1 int unfolding writei_file_def n_def [symmetric] Let_def by simp
  from readi_loop_law [OF s1(3) i1(2), of "unat off" "length src"] s1(4) src sz obtain s2 where
    s2: "readi_loop ip (unat off) (length src) s1 = Inr (map (fbyte s1 ip) [unat off..<unat off + length src], s2)" by auto
  have "map (fbyte s1 ip) [unat off..<unat off + length src] = src"
    using f1 src sz by (intro nth_equalityI) auto
  then have "readi_file ip off n s1 = Inr (int (length src), src, s2)"
    using guards s2 i1 int un by (simp add: readi_file_def Let_def)
  with w f1 sz show ?thesis unfolding n_def by (intro exI [of _ s1] exI [of _ s2]) auto
qed

text \<open>
  A file in block 60, in a transaction, and a disk whose bitmap in block 20 has
  the blocks 0 to 20 marked.
\<close>

definition small_disk :: "u32 \<Rightarrow> bytes" where
  "small_disk b a = (if b = 20 \<and> a \<le> 1 then 255 else if b = 20 \<and> a = 2 then 31 else 0)"

definition small_fs :: "(u32 \<Rightarrow> bytes) \<Rightarrow> u16 \<Rightarrow> u32 \<Rightarrow> fs_st" where
  "small_fs d ty n = log_st.extend ((small_log d)\<lparr>log_outstanding := 1\<rparr>)
     \<lparr>fs_sb = \<lparr>sb_size = 100, sb_nblocks = 79, sb_ninodes = 8, sb_nlog = 12, sb_logstart = 2, sb_inodestart = 16, sb_bmapstart = 20\<rparr>,
      inodes = [\<lparr>i_dev = 1, i_inum = 1, i_ref = 1, i_lock = initsleeplock, i_valid = 1, i_type = ty, i_major = 0,
        i_minor = 0, i_nlink = 1, i_size = n, i_addrs = 60 # replicate 12 0\<rparr>]\<rparr>"

lemma small_fs_cache: "same_cache (small_bcache 11 d) (small_fs d ty n)"
  using small_log_cache [of d] by (simp add: same_cache_def small_fs_def log_st.defs mypid_def getp_def)

lemma small_fs:
  "opened (small_fs d ty n) = {}" "disksize (small_fs d ty n) = 100" "bc_inv (small_fs d ty n)"
  "room (small_fs d ty n) = 11" "content (small_fs d ty n) = d"
  unfolding same_cache_eqs [OF small_fs_cache] by (simp_all add: opened_def small_bcache)

lemma small_fs_log_room: "k \<le> 11 \<Longrightarrow> log_room k (small_fs d ty n)"
  by (simp add: log_room_def small_fs_def log_st.defs small_log_def bcache_st.defs LOGSIZE_def MAXOPBLOCKS_def)

lemma small_fs_file: "file_ok (small_fs d ty n) 0 1"
proof -
  have "inodes (small_fs d ty n) ! 0 = \<lparr>i_dev = 1, i_inum = 1, i_ref = 1, i_lock = initsleeplock, i_valid = 1, i_type = ty,
      i_major = 0, i_minor = 0, i_nlink = 1, i_size = n, i_addrs = 60 # replicate 12 0\<rparr>" "length (inodes (small_fs d ty n)) = 1"
    by (simp_all add: small_fs_def log_st.defs)
  then show ?thesis using small_fs
    by (simp add: file_ok_def block_there_def addr_of_def NDIRECT_def MAXFILE_def lessThan_Suc)
qed

definition ten_bytes :: fs_st where
  "ten_bytes = small_fs small_disk T_FILE 10"

lemma ten_bytes:
  "bc_inv ten_bytes" "room ten_bytes = 11" "content ten_bytes = small_disk" "opened ten_bytes = {}" "disksize ten_bytes = 100"
  "file_ok ten_bytes 0 1" "k \<le> 11 \<Longrightarrow> log_room k ten_bytes" "sb_size (fs_sb ten_bytes) = 100" "i_size (inode_at ten_bytes 0) = 10"
  unfolding ten_bytes_def by (simp_all add: small_fs small_fs_file [unfolded One_nat_def] small_fs_log_room) (simp_all add: small_fs_def log_st.defs)

theorem writei_readi_roundtrip_witness:
  "\<exists>s1 s2. writei_file 0 [1, 2, 3] 4 ten_bytes = Inr (3, s1) \<and> readi_file 0 4 3 s1 = Inr (3, [1, 2, 3], s2)"
proof -
  have st: "steps (unat (4 :: u32)) (length [1 :: u8, 2, 3]) = 1" by (simp add: steps_def BSIZE_def)
  show ?thesis
    using writei_readi_roundtrip [OF ten_bytes(6,1), of 4 "[1, 2, 3]"] st ten_bytes by (auto simp: BSIZE_def)
qed

text \<open>
  (C7) \<open>balloc\<close> never hands out a block that is in use. On a well-formed bitmap with a free
  block it returns the first block whose bit is clear, sets that bit and no other, fills
  the block with zeros, and changes the content of no other block.
\<close>

theorem balloc_allocates:
  assumes ok: "bitmap_ok s" and inv: "bc_inv s" and r: "2 \<le> room s" "log_room 2 s"
    and free: "\<exists>b < unat (sb_size (fs_sb s)). \<not> used s b"
  shows "\<exists>f s'. balloc 1 s = Inr (of_nat f, s') \<and> f < unat (sb_size (fs_sb s)) \<and> \<not> used s f \<and> (\<forall>x<f. used s x) \<and>
     used s' f \<and> (\<forall>x < unat (sb_size (fs_sb s)). x \<noteq> f \<longrightarrow> used s' x = used s x) \<and>
     (\<forall>a<BSIZE. content s' (of_nat f) a = 0) \<and>
     (\<forall>x. x \<noteq> of_nat f \<longrightarrow> x \<noteq> bmap_block s f \<longrightarrow> content s' x = content s x)"
proof -
  define f where "f = (LEAST b. \<not> used s b)"
  from free obtain b where b: "b < unat (sb_size (fs_sb s))" "\<not> used s b" by blast
  have f: "f < unat (sb_size (fs_sb s))" "\<not> used s f" "\<forall>x<f. used s x"
    using b(1) Least_le [of "\<lambda>b. \<not> used s b", OF b(2)] LeastI [of "\<lambda>b. \<not> used s b", OF b(2)]
    by (auto simp: f_def dest: not_less_Least)
  from balloc_loop_law [OF ok inv r, of 0 0 f] f obtain s' where
    s': "balloc 1 s = Inr (of_nat f, s')" "wrote s s' (allocated s f)" by (auto simp: balloc_def)
  have m: "bmap_block s' = bmap_block s" using s'(2) by (simp add: wrote_def bmap_block_def fun_eq_iff)
  have c: "content s' = allocated s f" using s'(2) by (simp add: wrote_def)
  have nf: "bmap_block s x \<noteq> of_nat f" if "x < unat (sb_size (fs_sb s))" for x
    using bitmap_okD(3) [OF ok that] bitmap_okD(4) [OF ok f(1)] f(2) by auto
  have u: "used s' x \<longleftrightarrow> used s x \<or> x = f" if "x < unat (sb_size (fs_sb s))" for x
  proof -
    have "x = f \<longleftrightarrow> x div BPB = f div BPB \<and> x mod BPB = f mod BPB" by (metis div_mult_mod_eq)
    then show ?thesis using nf [OF that] bitmap_okD(7) [OF ok that f(1)]
      by (auto simp: used_def m c allocated_def bit_clear_set)
  qed
  have "content s' (of_nat f) a = 0" if "a < BSIZE" for a using that by (simp add: c allocated_def zeroed)
  moreover have "content s' x = content s x" if "x \<noteq> of_nat f" "x \<noteq> bmap_block s f" for x using that by (simp add: c allocated_def)
  ultimately show ?thesis using s'(1) f u by blast
qed

lemma ten_bytes_bitmap: "bitmap_ok ten_bytes" "\<not> used ten_bytes 21"
proof -
  have b20: "bmap_block ten_bytes b = 20" if "b < 100" for b
  proof -
    have "(of_nat b :: u32) < 4096" using that by (simp add: word_less_nat_alt unat_of_nat)
    then have "(of_nat b :: u32) div 4096 = 0" by (rule div_word_less)
    then show ?thesis by (simp add: ten_bytes_def small_fs_def log_st.defs bmap_block_def BBLOCK_def BPB_def BSIZE_def)
  qed
  have u: "used ten_bytes 20" "\<not> used ten_bytes 21"
    by (simp_all add: used_def b20 ten_bytes bit_clear_def small_disk_def bmask_def BPB_def BSIZE_def)
  then show "\<not> used ten_bytes 21" by simp
  show "bitmap_ok ten_bytes" using u(1)
    by (auto simp: bitmap_ok_def Let_def ten_bytes b20 BPB_def BSIZE_def)
qed

theorem balloc_allocates_witness:
  "\<exists>f s'. balloc 1 ten_bytes = Inr (of_nat f, s') \<and> \<not> used ten_bytes f \<and> used s' f"
  using balloc_allocates [OF ten_bytes_bitmap(1) ten_bytes(1)] ten_bytes(2,8) ten_bytes(7) [of 2] ten_bytes_bitmap(2)
  by (force intro: exI [of _ 21])

text \<open>
  (C36) The inode cache never has two entries in use for the same inode. \<open>iget\<close> keeps this:
  it returns an entry for the inode asked for, the one that was in use for it if there was
  one, with one reference more, and no other entry changes.
\<close>

theorem iget_unique:
  assumes inv: "icache_inv s" and g: "iget dev inum s = Inr (ip, s')"
  shows "icache_inv s' \<and> ip < length (inodes s) \<and> i_dev (inode_at s' ip) = dev \<and> i_inum (inode_at s' ip) = inum \<and>
     i_ref (inode_at s' ip) = i_ref (inode_at s ip) + 1 \<and> (\<forall>j. j \<noteq> ip \<longrightarrow> inode_at s' j = inode_at s j)"
  using g
proof (cases rule: iget_cases)
  case hit
  have "\<not> in_use_for dev inum (inode_at s j)" if "j < length (inodes s)" "j \<noteq> ip" for j
    using inv hit(1,2) that unfolding icache_inv_def by blast
  then have "icache_inv s'" unfolding hit(3)
    by (intro icache_inv_modi [OF inv hit(1)]) (use hit(2) in \<open>simp_all add: in_use_for_def\<close>)
  then show ?thesis using hit by (simp add: in_use_for_def)
next
  case miss
  have "icache_inv s'" unfolding miss(4)
    by (rule icache_inv_modi [OF inv miss(1)]) (use miss(3) in auto)
  then show ?thesis using miss by simp
qed

theorem iget_unique_witness:
  "\<exists>s'. iget 1 1 ten_bytes = Inr (0, s') \<and> icache_inv s' \<and> i_ref (inode_at s' 0) = 2"
proof -
  have i: "length (inodes ten_bytes) = 1" "in_use_for 1 1 (inode_at ten_bytes 0)" "i_ref (inode_at ten_bytes 0) = 1"
    by (simp_all add: ten_bytes_def small_fs_def log_st.defs in_use_for_def)
  have g: "iget 1 1 ten_bytes = Inr (0, modi 0 (\<lambda>i. i\<lparr>i_ref := i_ref i + 1\<rparr>) ten_bytes)"
    by (simp add: iget_def ten_bytes_def small_fs_def log_st.defs)
  have "icache_inv ten_bytes" using i by (simp add: icache_inv_def)
  from iget_unique [OF this g] g i(3) show ?thesis by auto
qed

end
