(* ===== verification/Dir.thy ===== *)
theory Dir
  imports Fs
begin

text \<open>
  Directories and path names of \<open>fs.c\<close>. A path and a name are the bytes before the
  terminating zero; \<open>name\<close>, an array of \<open>DIRSIZ\<close> bytes without a terminator when it is full,
  is at most that long. A directory's inode is not a device, so \<open>readi\<close> and \<open>writei\<close> of it
  are \<open>readi_file\<close> and \<open>writei_file\<close>.
\<close>

section \<open>Directories\<close>

definition DIRSIZ :: nat where "DIRSIZ = 14"

record dirent =
  de_inum :: u16
  de_name :: "u8 list"

definition dirent_of :: "u8 list \<Rightarrow> dirent" where
  "dirent_of bs = \<lparr>de_inum = get16 (mem_of bs) 0, de_name = take DIRSIZ (drop 2 bs)\<rparr>"

text \<open>Two arrays of at most \<open>DIRSIZ\<close> bytes in one memory.\<close>

definition two_names :: "u8 list \<Rightarrow> u8 list \<Rightarrow> bytes" where
  "two_names s t a = (if a < 16 then mem_of s a else mem_of t (a - 16))"

definition namecmp :: "u8 list \<Rightarrow> u8 list \<Rightarrow> int" where
  "namecmp s t = strncmp (two_names s t) 0 16 DIRSIZ"

function dirlookup_loop :: "nat \<Rightarrow> u8 list \<Rightarrow> nat \<Rightarrow> nat \<Rightarrow> 'a fs_st_scheme \<Rightarrow>
    ((nat \<times> u32) option \<times> 'a fs_st_scheme) res" where
  "dirlookup_loop dp name off sz s =
     (if \<not> off < sz then Inr (None, s)
      else bnd (readi_file dp (of_nat off) 16 s) (\<lambda>(n, bs, s).
        if n \<noteq> 16 then Inl (Panic ''dirlookup read'')
        else let de = dirent_of bs in
          if de_inum de = 0 then dirlookup_loop dp name (off + 16) sz s
          else if namecmp name (de_name de) = 0
          then bnd (iget (i_dev (inode_at s dp)) (ucast (de_inum de)) s) (\<lambda>(ip, s). Inr (Some (ip, of_nat off), s))
          else dirlookup_loop dp name (off + 16) sz s))"
  by pat_completeness auto

termination
  by (relation "measure (\<lambda>(dp, name, off, sz, s). sz - off)") auto

declare dirlookup_loop.simps [simp del]

text \<open>\<open>dirlookup\<close> returns the inode and the offset of the entry, \<open>*poff\<close>.\<close>

definition dirlookup :: "nat \<Rightarrow> u8 list \<Rightarrow> 'a fs_st_scheme \<Rightarrow> ((nat \<times> u32) option \<times> 'a fs_st_scheme) res" where
  "dirlookup dp name s =
     (if i_type (inode_at s dp) \<noteq> T_DIR then Inl (Panic ''dirlookup not DIR'')
      else dirlookup_loop dp name 0 (unat (i_size (inode_at s dp))) s)"

text \<open>The search for an empty entry in \<open>dirlink\<close>.\<close>

function empty_slot :: "nat \<Rightarrow> nat \<Rightarrow> nat \<Rightarrow> 'a fs_st_scheme \<Rightarrow> (nat \<times> 'a fs_st_scheme) res" where
  "empty_slot dp off sz s =
     (if \<not> off < sz then Inr (off, s)
      else bnd (readi_file dp (of_nat off) 16 s) (\<lambda>(n, bs, s).
        if n \<noteq> 16 then Inl (Panic ''dirlink read'')
        else if de_inum (dirent_of bs) = 0 then Inr (off, s) else empty_slot dp (off + 16) sz s))"
  by pat_completeness auto

termination
  by (relation "measure (\<lambda>(dp, off, sz, s). sz - off)") auto

declare empty_slot.simps [simp del]

definition dirent_bytes :: "u16 \<Rightarrow> u8 list \<Rightarrow> u8 list" where
  "dirent_bytes inum name = bytes_at (put16 0 inum (\<lambda>_. 0)) 0 2 @ bytes_at (strncpy 0 16 DIRSIZ (two_names [] name)) 0 DIRSIZ"

definition dirlink :: "nat \<Rightarrow> u8 list \<Rightarrow> u32 \<Rightarrow> 'a fs_st_scheme \<Rightarrow> (int \<times> 'a fs_st_scheme) res" where
  "dirlink dp name inum s =
     bnd (dirlookup dp name s) (\<lambda>(r, s). case r of
       Some (ip, _) \<Rightarrow> bnd (iput ip s) (\<lambda>s. Inr (-1, s))
     | None \<Rightarrow>
         bnd (empty_slot dp 0 (unat (i_size (inode_at s dp))) s) (\<lambda>(off, s).
         bnd (writei_file dp (dirent_bytes (ucast inum) name) (of_nat off) s) (\<lambda>(n, s).
         if n \<noteq> 16 then Inl (Panic ''dirlink'') else Inr (0, s))))"

section \<open>Paths\<close>

definition SLASH :: u8 where "SLASH = 47"

definition skipelem :: "u8 list \<Rightarrow> (u8 list \<times> u8 list) option" where
  "skipelem path =
     (let path = dropWhile (\<lambda>c. c = SLASH) path in
      if path = [] then None
      else let s = takeWhile (\<lambda>c. c \<noteq> SLASH) path in
        Some (take DIRSIZ s, dropWhile (\<lambda>c. c = SLASH) (dropWhile (\<lambda>c. c \<noteq> SLASH) path)))"

lemma skipelem_shorter: "skipelem path = Some (name, rest) \<Longrightarrow> length rest < length path"
proof -
  assume a: "skipelem path = Some (name, rest)"
  define p where "p = dropWhile (\<lambda>c. c = SLASH) path"
  have p: "p \<noteq> []" "rest = dropWhile (\<lambda>c. c = SLASH) (dropWhile (\<lambda>c. c \<noteq> SLASH) p)"
    using a by (auto simp: skipelem_def Let_def p_def split: if_splits)
  then have "hd p \<noteq> SLASH" using hd_dropWhile [of "\<lambda>c. c = SLASH" path] by (simp add: p_def)
  with p(1) have "length (dropWhile (\<lambda>c. c \<noteq> SLASH) p) < length p"
    by (cases p) (simp_all add: le_imp_less_Suc length_dropWhile_le)
  moreover have "length p \<le> length path" by (simp add: p_def length_dropWhile_le)
  ultimately show ?thesis unfolding p(2) using length_dropWhile_le [of "\<lambda>c. c = SLASH" "dropWhile (\<lambda>c. c \<noteq> SLASH) p"] by linarith
qed

function namex_loop :: "nat \<Rightarrow> u8 list \<Rightarrow> bool \<Rightarrow> u8 list \<Rightarrow> 'a fs_st_scheme \<Rightarrow>
    (nat option \<times> u8 list \<times> 'a fs_st_scheme) res" where
  "namex_loop ip path nameiparent name s =
     (case skipelem path of
        None \<Rightarrow> if nameiparent then bnd (iput ip s) (\<lambda>s. Inr (None, name, s)) else Inr (Some ip, name, s)
      | Some (name, path) \<Rightarrow>
          bnd (ilock (Some ip) s) (\<lambda>s.
          if i_type (inode_at s ip) \<noteq> T_DIR then bnd (iunlockput ip s) (\<lambda>s. Inr (None, name, s))
          else if nameiparent \<and> path = [] then bnd (iunlock (Some ip) s) (\<lambda>s. Inr (Some ip, name, s))
          else bnd (dirlookup ip name s) (\<lambda>(r, s). case r of
              None \<Rightarrow> bnd (iunlockput ip s) (\<lambda>s. Inr (None, name, s))
            | Some (nxt, _) \<Rightarrow> bnd (iunlockput ip s) (namex_loop nxt path nameiparent name))))"
  by pat_completeness auto

termination
  by (relation "measure (\<lambda>(ip, path, np, name, s). length path)") (auto dest: skipelem_shorter)

declare namex_loop.simps [simp del]

definition namex :: "u8 list \<Rightarrow> bool \<Rightarrow> 'a fs_st_scheme \<Rightarrow> (nat option \<times> u8 list \<times> 'a fs_st_scheme) res" where
  "namex path nameiparent s =
     bnd (if path \<noteq> [] \<and> hd path = SLASH then iget ROOTDEV ROOTINO s
          else bnd (getp (cpu_proc s) s) (\<lambda>p. bnd (deref (p_cwd p)) (\<lambda>ip. Inr (ip, idup ip s)))) (\<lambda>(ip, s).
     namex_loop ip path nameiparent [] s)"

definition namei :: "u8 list \<Rightarrow> 'a fs_st_scheme \<Rightarrow> (nat option \<times> 'a fs_st_scheme) res" where
  "namei path s = bnd (namex path False s) (\<lambda>(ip, _, s). Inr (ip, s))"

definition nameiparent :: "u8 list \<Rightarrow> 'a fs_st_scheme \<Rightarrow> (nat option \<times> u8 list \<times> 'a fs_st_scheme) res" where
  "nameiparent path s = namex path True s"

section \<open>Names and elements of a path\<close>

lemma namecmp_eq:
  assumes "0 \<notin> set s" "0 \<notin> set t" "length s \<le> DIRSIZ" "length t \<le> DIRSIZ"
  shows "namecmp s t = 0 \<longleftrightarrow> s = t"
proof -
  have "cstr (two_names s t) 0 s" "cstr (two_names s t) 16 t"
    using assms by (auto simp: cstr_def bytes_at_def two_names_def mem_of_nth DIRSIZ_def intro!: nth_equalityI)
  then show ?thesis using strncmp_cstr assms(3,4) by (simp add: namecmp_def)
qed

function path_names :: "u8 list \<Rightarrow> u8 list list" where
  "path_names path = (case skipelem path of None \<Rightarrow> [] | Some (name, path) \<Rightarrow> name # path_names path)"
  by pat_completeness auto

termination
  by (relation "measure length") (auto dest: skipelem_shorter)

declare path_names.simps [simp del]

fun split_path :: "u8 list \<Rightarrow> u8 list list" where
  "split_path [] = [[]]"
| "split_path (c # cs) = (if c = SLASH then [] # split_path cs else (c # hd (split_path cs)) # tl (split_path cs))"

lemma split_path_ne [simp]: "split_path p \<noteq> []"
  by (cases p) simp_all

lemma split_path_hd: "split_path p = takeWhile (\<lambda>c. c \<noteq> SLASH) p #
    (case dropWhile (\<lambda>c. c \<noteq> SLASH) p of [] \<Rightarrow> [] | c # cs \<Rightarrow> split_path cs)"
  by (induction p) (auto split: list.splits)

lemma split_path_slashes: "filter (\<lambda>x. x \<noteq> []) (split_path (dropWhile (\<lambda>c. c = SLASH) p)) = filter (\<lambda>x. x \<noteq> []) (split_path p)"
  by (induction p) auto

text \<open>
  (C38) The elements that \<open>skipelem\<close> takes off a path one after the other are the parts of
  the path between its slashes, without the empty ones, each cut to \<open>DIRSIZ\<close> bytes.
\<close>

theorem skipelem_splits:
  "path_names path = map (take DIRSIZ) (filter (\<lambda>x. x \<noteq> []) (split_path path))"
proof (induction path rule: path_names.induct)
  case (1 path)
  define p where "p = dropWhile (\<lambda>c. c = SLASH) path"
  have eq: "filter (\<lambda>x. x \<noteq> []) (split_path path) = filter (\<lambda>x. x \<noteq> []) (split_path p)"
    by (simp add: p_def split_path_slashes)
  show ?case
  proof (cases "p = []")
    case True
    then have "skipelem path = None" by (simp add: skipelem_def p_def)
    then show ?thesis using eq True by (simp add: path_names.simps [of path])
  next
    case False
    have hd: "hd p \<noteq> SLASH" using hd_dropWhile [of "\<lambda>c. c = SLASH" path] False by (simp add: p_def)
    define e r where "e = takeWhile (\<lambda>c. c \<noteq> SLASH) p" and "r = dropWhile (\<lambda>c. c \<noteq> SLASH) p"
    define q where "q = dropWhile (\<lambda>c. c = SLASH) r"
    have sk: "skipelem path = Some (take DIRSIZ e, q)"
      using False by (simp add: skipelem_def Let_def p_def e_def r_def q_def)
    have "e \<noteq> []" using hd False by (cases p) (simp_all add: e_def)
    moreover have "filter (\<lambda>x. x \<noteq> []) (case r of [] \<Rightarrow> [] | c # cs \<Rightarrow> split_path cs) = filter (\<lambda>x. x \<noteq> []) (split_path q)"
    proof (cases r)
      case (Cons c cs)
      then have "c = SLASH" using hd_dropWhile [of "\<lambda>c. c \<noteq> SLASH" p] by (auto simp: r_def)
      then show ?thesis using Cons split_path_slashes [of r] by (simp add: q_def)
    qed (simp add: q_def)
    ultimately have "filter (\<lambda>x. x \<noteq> []) (split_path p) = e # filter (\<lambda>x. x \<noteq> []) (split_path q)"
      by (subst split_path_hd) (simp add: e_def [symmetric] r_def [symmetric])
    then show ?thesis using eq 1 [OF sk refl] by (simp add: path_names.simps [of path] sk)
  qed
qed

section \<open>Looking a name up\<close>

text \<open>Entry \<open>j\<close> of a directory, and whether it is one for \<open>name\<close>.\<close>

definition dent :: "'a fs_st_scheme \<Rightarrow> nat \<Rightarrow> nat \<Rightarrow> dirent" where
  "dent s dp j = dirent_of (map (fbyte s dp) [16 * j..<16 * j + 16])"

definition dent_for :: "u8 list \<Rightarrow> dirent \<Rightarrow> bool" where
  "dent_for name de \<longleftrightarrow> de_inum de \<noteq> 0 \<and> namecmp name (de_name de) = 0"

lemma read_dirent:
  assumes ok: "file_ok s dp nblk" and inv: "bc_inv s" "0 < room s" and off: "off + 16 \<le> unat (i_size (inode_at s dp))"
    and sz: "unat (i_size (inode_at s dp)) \<le> BSIZE * nblk"
  shows "\<exists>s'. readi_file dp (of_nat off) 16 s = Inr (16, map (fbyte s dp) [off..<off + 16], s') \<and> same_view s s'"
proof -
  let ?size = "i_size (inode_at s dp)"
  have u: "unat (of_nat off :: u32) = off"
    using off unsigned_less [of ?size, where 'a = nat] by (simp add: unat_of_nat)
  have "BSIZE * nblk \<le> BSIZE * MAXFILE" using ok by (simp add: file_ok_def)
  then have "unat ?size \<le> 71680" using sz by (simp add: MAXFILE_def NDIRECT_def NINDIRECT_def BSIZE_def)
  then have sum: "unat (of_nat off + 16 :: u32) = off + 16" using off u by (simp add: unat_word_ariths)
  then have "\<not> of_nat off > ?size" "\<not> of_nat off + 16 < (of_nat off :: u32)" "\<not> of_nat off + 16 > ?size"
    using off u by (simp_all add: word_less_nat_alt)
  moreover from readi_loop_law [OF ok inv, of off 16] off sz obtain s' where
    "readi_loop dp off 16 s = Inr (map (fbyte s dp) [off..<off + 16], s')" "same_view s s'" by auto
  ultimately show ?thesis using u by (simp add: readi_file_def Let_def int_of_uint_def)
qed

lemma dirlookup_loop_law:
  assumes "file_ok s dp nblk" "bc_inv s" "0 < room s" "unat (i_size (inode_at s dp)) = 16 * n" "16 * n \<le> BSIZE * nblk"
  shows "case find (\<lambda>j. dent_for name (dent s dp j)) [k..<n] of
      None \<Rightarrow> \<exists>s'. dirlookup_loop dp name (16 * k) (16 * n) s = Inr (None, s') \<and> same_view s s'
    | Some j \<Rightarrow> \<exists>s'. same_view s s' \<and> dirlookup_loop dp name (16 * k) (16 * n) s =
        bnd (iget 1 (ucast (de_inum (dent s dp j))) s') (\<lambda>(ip, s). Inr (Some (ip, of_nat (16 * j)), s))"
  using assms
proof (induction "n - k" arbitrary: k s)
  case 0
  then show ?case by (simp add: dirlookup_loop.simps same_view_refl)
next
  case (Suc d)
  then have k: "k < n" by simp
  then have upt: "[k..<n] = k # [Suc k..<n]" by (rule upt_conv_Cons)
  from read_dirent [OF Suc.prems(1-3), of "16 * k"] Suc.prems(4,5) k obtain s1 where
    s1: "readi_file dp (of_nat (16 * k)) 16 s = Inr (16, map (fbyte s dp) [16 * k..<16 * k + 16], s1)" "same_view s s1" by auto
  note v = file_ok_view [OF s1(2)]
  have i: "inodes s1 = inodes s" "bc_inv s1" "0 < room s1" "i_dev (inode_at s dp) = 1"
    using s1(2) Suc.prems(1,3) more_fs(1) [of s1 s] by (simp_all add: same_view_def file_ok_def)
  have dent: "dent s1 dp = dent s dp" by (rule ext) (simp only: dent_def v(2))
  have step: "dirlookup_loop dp name (16 * k) (16 * n) s =
      (if dent_for name (dent s dp k)
       then bnd (iget 1 (ucast (de_inum (dent s dp k))) s1) (\<lambda>(ip, s). Inr (Some (ip, of_nat (16 * k)), s))
       else dirlookup_loop dp name (16 * Suc k) (16 * n) s1)"
    using k s1(1) i by (subst dirlookup_loop.simps) (simp add: dent_for_def dent_def Let_def add.commute)
  show ?case
  proof (cases "dent_for name (dent s dp k)")
    case True
    then show ?thesis using s1(2) by (auto simp: upt step)
  next
    case False
    have "case find (\<lambda>j. dent_for name (dent s1 dp j)) [Suc k..<n] of
        None \<Rightarrow> \<exists>s'. dirlookup_loop dp name (16 * Suc k) (16 * n) s1 = Inr (None, s') \<and> same_view s1 s'
      | Some j \<Rightarrow> \<exists>s'. same_view s1 s' \<and> dirlookup_loop dp name (16 * Suc k) (16 * n) s1 =
        bnd (iget 1 (ucast (de_inum (dent s1 dp j))) s') (\<lambda>(ip, s). Inr (Some (ip, of_nat (16 * j)), s))"
      using Suc.hyps Suc.prems v i by (intro Suc.hyps(1)) auto
    then show ?thesis using False same_view_trans [OF s1(2)]
      by (auto simp: upt step dent simp del: mult_Suc_right split: option.splits)
  qed
qed

text \<open>
  (C37) \<open>dirlookup\<close> finds the first entry of a directory that is in use and whose name is the
  one asked for: it returns the entry's inode from the inode cache and the entry's offset,
  and nothing if there is no such entry. Only the arrangement of the buffers and the inode
  cache change.
\<close>

theorem dirlookup_first:
  assumes "file_ok s dp nblk" "bc_inv s" "0 < room s" "i_type (inode_at s dp) = T_DIR"
    and "unat (i_size (inode_at s dp)) = 16 * n" "16 * n \<le> BSIZE * nblk"
  shows "case find (\<lambda>j. dent_for name (dent s dp j)) [0..<n] of
      None \<Rightarrow> \<exists>s'. dirlookup dp name s = Inr (None, s') \<and> same_view s s'
    | Some j \<Rightarrow> \<exists>s'. same_view s s' \<and> dirlookup dp name s =
        bnd (iget 1 (ucast (de_inum (dent s dp j))) s') (\<lambda>(ip, s). Inr (Some (ip, of_nat (16 * j)), s))"
proof -
  have eq: "dirlookup dp name s = dirlookup_loop dp name (16 * 0) (16 * n) s" using assms(4,5) by (simp add: dirlookup_def)
  show ?thesis unfolding eq by (rule dirlookup_loop_law [OF assms(1-3,5,6)])
qed

text \<open>A directory with one entry, the name \<open>a\<close> for inode 1.\<close>

definition dir_disk :: "u32 \<Rightarrow> bytes" where
  "dir_disk b a = (if b = 60 \<and> a = 0 then 1 else if b = 60 \<and> a = 2 then 97 else 0)"

theorem dirlookup_first_witness:
  "\<exists>ip s'. dirlookup 0 [97] (small_fs dir_disk T_DIR 16) = Inr (Some (ip, 0), s')"
proof -
  let ?s = "small_fs dir_disk T_DIR 16"
  have i: "i_size (inode_at ?s 0) = 16" "i_type (inode_at ?s 0) = T_DIR" "i_addrs (inode_at ?s 0) = 60 # replicate 12 0"
    by (simp_all add: small_fs_def log_st.defs)
  have fb: "fbyte ?s 0 x = dir_disk 60 x" if "x < 16" for x
    using that by (simp add: fbyte_def i addr_of_def small_fs BSIZE_def NDIRECT_def)
  have "map (fbyte ?s 0) [0..<16] = [1, 0, 97, 0, 0, 0, 0, 0, 0, 0, 0, 0, 0, 0, 0, 0]"
    by (simp add: upt_rec fb dir_disk_def)
  then have "dent ?s 0 0 = \<lparr>de_inum = 1, de_name = [97, 0, 0, 0, 0, 0, 0, 0, 0, 0, 0, 0, 0, 0]\<rparr>"
    by (simp add: dent_def dirent_of_def DIRSIZ_def get16_def mem_of_nth)
  then have "dent_for [97] (dent ?s 0 0)" "de_inum (dent ?s 0 0) = 1"
    by (simp_all add: dent_for_def namecmp_def two_names_def mem_of_nth DIRSIZ_def numeral_eq_Suc)
  then have fnd: "find (\<lambda>j. dent_for [97] (dent ?s 0 j)) [0..<1] = Some 0" "ucast (de_inum (dent ?s 0 0)) = (1 :: u32)"
    by simp_all
  from dirlookup_first [OF small_fs_file small_fs(3) _ i(2), of 1 "[97]"] i fnd small_fs(4) obtain s' where
    s': "same_view ?s s'" "dirlookup 0 [97] ?s = bnd (iget 1 1 s') (\<lambda>(ip, s). Inr (Some (ip, 0), s))"
    by (auto simp: BSIZE_def)
  have "inodes s' = inodes ?s" using s'(1) more_fs(1) [of s' ?s] by (simp add: same_view_def)
  then have "iget 1 1 s' = Inr (0, modi 0 (\<lambda>i. i\<lparr>i_ref := i_ref i + 1\<rparr>) s')"
    by (simp add: iget_def small_fs_def log_st.defs)
  with s'(2) show ?thesis by simp
qed

end
