(* ===== verification/Ring.thy ===== *)
theory Ring
  imports Prelude
begin

text \<open>
  Ring buffers as \<open>pipe.c\<close> and \<open>console.c\<close> use them: an array of \<open>N\<close> entries and two free-running
  32-bit counters, reduced modulo \<open>N\<close> when the array is indexed. \<open>ring_list\<close> is the queue that such
  a buffer holds. The locale collects what makes it one: \<open>N\<close> divides the range of the counters,
  so the queue survives their wrap-around.
\<close>

definition ring_list :: "nat \<Rightarrow> (nat \<Rightarrow> 'a) \<Rightarrow> u32 \<Rightarrow> u32 \<Rightarrow> 'a list" where
  "ring_list N buf r w = map (\<lambda>k. buf (unat (r + of_nat k) mod N)) [0..<unat (w - r)]"

lemma length_ring_list [simp]: "length (ring_list N buf r w) = unat (w - r)"
  by (simp add: ring_list_def)

lemma ring_list_empty [simp]: "ring_list N buf r r = []"
  by (simp add: ring_list_def)

lemma ring_list_Nil: "ring_list N buf r w = [] \<longleftrightarrow> r = w"
  using length_0_conv [of "ring_list N buf r w"] by (auto simp: unat_eq_0 simp del: length_0_conv)

lemma ring_split:
  assumes "unat (e - r) = unat (w - r) + unat (e - w)"
  shows "ring_list N buf r e = ring_list N buf r w @ ring_list N buf w e"
proof -
  have *: "map f [0..<a + b] = map f [0..<a] @ map (\<lambda>k. f (a + k)) [0..<b]" for f :: "nat \<Rightarrow> 'a" and a b
    by (induction b) simp_all
  have w: "r + of_nat (unat (w - r) + k) = w + of_nat k" for k by simp
  show ?thesis unfolding ring_list_def assms * by (simp only: w)
qed

locale ring_buffer =
  fixes N :: nat
  assumes pos: "0 < N" and small: "N < 2 ^ 32" and dvd: "N dvd 2 ^ 32"
begin

lemma slot: "unat (r + of_nat k :: u32) mod N = (unat r + k) mod N"
proof -
  have "unat (r + of_nat k :: u32) = (unat r + k) mod 2 ^ 32"
    by (simp add: unat_word_ariths unsigned_of_nat take_bit_eq_mod mod_simps)
  with dvd show ?thesis by (simp add: mod_mod_cancel)
qed

lemma slot_inj:
  assumes "j < N" "k < N" "unat (r + of_nat j :: u32) mod N = unat (r + of_nat k :: u32) mod N"
  shows "j = k"
proof -
  have *: "j = k" if "j \<le> k" "k < N" "(unat r + j) mod N = (unat r + k) mod N" for j k
  proof -
    from that have "N dvd (unat r + k) - (unat r + j)"
      using mod_eq_dvd_iff_nat [of "unat r + j" "unat r + k" N] by simp
    then have "N dvd k - j" by simp
    with that(1,2) show ?thesis by (auto dest: dvd_imp_le)
  qed
  from assms(3) have "(unat r + j) mod N = (unat r + k) mod N" by (simp only: slot)
  with * [of j k] * [of k j] assms(1,2) show ?thesis by (cases "j \<le> k") auto
qed

lemma grow: "unat (w - r :: u32) < N \<Longrightarrow> unat (w + 1 - r) = Suc (unat (w - r))"
proof -
  assume "unat (w - r) < N"
  with small have "unat ((w - r) + 1) = Suc (unat (w - r))"
    by (simp add: unat_word_ariths)
  then show ?thesis by (simp add: algebra_simps)
qed

lemma push:
  assumes "unat (w - r :: u32) < N"
  shows "ring_list N (buf(unat w mod N := c)) r (w + 1) = ring_list N buf r w @ [c]"
proof -
  let ?n = "unat (w - r)"
  have w: "r + of_nat ?n = w" by simp
  have old: "(buf(unat w mod N := c)) (unat (r + of_nat k :: u32) mod N) = buf (unat (r + of_nat k :: u32) mod N)"
    if "k < ?n" for k using slot_inj [of k ?n r] that assms w by auto
  have "map (\<lambda>k. (buf(unat w mod N := c)) (unat (r + of_nat k :: u32) mod N)) [0..<?n] = ring_list N buf r w"
    unfolding ring_list_def by (rule map_cong [OF refl]) (simp only: old atLeastLessThan_iff set_upt)
  then show ?thesis by (simp add: ring_list_def [of N _ r "w + 1"] grow [OF assms])
qed

lemma shrink: "r \<noteq> w \<Longrightarrow> unat (w - r) = Suc (unat (w - r - 1))" for r w :: u32
proof -
  assume "r \<noteq> w"
  then have "w - r \<noteq> 0" by simp
  then have "0 < unat (w - r)" "unat (w - r - 1) = unat (w - r) - 1"
    by (simp_all only: unat_gt_0 unat_minus_one not_False_eq_True)
  then show ?thesis by simp
qed

lemma pop:
  assumes "r \<noteq> w"
  shows "ring_list N buf r w = buf (unat r mod N) # ring_list N buf (r + 1) w"
proof -
  have n: "unat (w - r) = Suc (unat (w - (r + 1)))"
    using shrink [OF assms] by (simp only: diff_diff_add)
  have "map (\<lambda>k. buf (unat (r + of_nat k) mod N)) [0..<Suc m] =
      buf (unat r mod N) # map (\<lambda>k. buf (unat (r + 1 + of_nat k) mod N)) [0..<m]" for m
    by (induction m) (simp_all add: add.assoc)
  then show ?thesis unfolding ring_list_def n .
qed

lemma unpush: "r \<noteq> w \<Longrightarrow> ring_list N buf r (w - 1) = butlast (ring_list N buf r w)"
proof -
  assume "r \<noteq> w"
  from shrink [OF this] have n: "unat (w - r) = Suc (unat (w - 1 - r))"
    by (simp add: diff_diff_add add.commute)
  show ?thesis unfolding ring_list_def n by simp
qed

lemma full: "w = r + of_nat N \<longleftrightarrow> unat (w - r :: u32) = N"
proof
  assume "w = r + of_nat N"
  then show "unat (w - r) = N" using small by (simp add: unsigned_of_nat take_bit_eq_mod)
next
  assume "unat (w - r) = N"
  then have "r + of_nat N = r + of_nat (unat (w - r))" by simp
  then show "w = r + of_nat N" by simp
qed

end

end
