(* ===== verification/Pipe.thy ===== *)
theory Pipe
  imports Fs Ring
begin

text \<open>
  Pipes, \<open>pipe.c\<close>, and the open-file table of \<open>file.c\<close> that they share their state with. A pipe
  lives in a page from \<open>kalloc\<close>; the model keeps the structs in a table indexed by the page's
  address. A read or a write that has to wait is cut at the call of \<open>sleep\<close>: \<open>piperead_run\<close> and
  \<open>pipewrite_run\<close> run up to there and say what is left to do, so that threads can be interleaved,
  and \<open>piperead\<close> and \<open>pipewrite\<close> are the calls as one thread sees them.

  The main result is that a pipe is a first-in first-out channel: whatever readers, writers and
  closers do, the bytes written are the bytes read followed by at most 512 bytes in the buffer.
\<close>

section \<open>State\<close>

datatype fd_type = FD_NONE | FD_PIPE | FD_INODE

record kfile =
  f_type :: fd_type
  f_ref :: int
  f_readable :: int
  f_writable :: int
  f_pipe :: u32
  f_ip :: "nat option"
  f_off :: u32

definition PIPESIZE :: nat where "PIPESIZE = 512"

record pipe =
  pi_data :: "nat \<Rightarrow> u8"
  pi_nread :: u32
  pi_nwrite :: u32
  pi_readopen :: int
  pi_writeopen :: int

record file_st = fs_st +
  ftable :: "kfile list"
  pipes :: "u32 \<Rightarrow> pipe"

definition setpipe :: "u32 \<Rightarrow> (pipe \<Rightarrow> pipe) \<Rightarrow> 'a file_st_scheme \<Rightarrow> 'a file_st_scheme" where
  "setpipe p f s = s\<lparr>pipes := (pipes s)(p := f (pipes s p))\<rparr>"

text \<open>\<open>myproc()->killed\<close>\<close>

definition killed :: "'a ptable_st_scheme \<Rightarrow> bool res" where
  "killed s = bnd (getp (cpu_proc s) s) (\<lambda>p. Inr (p_killed p \<noteq> 0))"

section \<open>Operations\<close>

definition pipeclose :: "u32 \<Rightarrow> int \<Rightarrow> 'a file_st_scheme \<Rightarrow> 'a file_st_scheme res" where
  "pipeclose p writable s =
     (let s = (if writable \<noteq> 0
               then wakeup (ChPipeRead p) (setpipe p (\<lambda>q. q\<lparr>pi_writeopen := 0\<rparr>) s)
               else wakeup (ChPipeWrite p) (setpipe p (\<lambda>q. q\<lparr>pi_readopen := 0\<rparr>) s)) in
      if pi_readopen (pipes s p) = 0 \<and> pi_writeopen (pipes s p) = 0 then kfree p s else Inr s)"

text \<open>How a run ends: the call returns a value, or it sleeps with something left to do.\<close>

datatype 'k io = Ret int | Sleeps 'k

text \<open>The loop of \<open>pipewrite\<close> over the bytes still to write; it ends with 0 when all are written.\<close>

fun pipewrite_loop :: "u32 \<Rightarrow> u8 list \<Rightarrow> 'a file_st_scheme \<Rightarrow> (u8 list io \<times> 'a file_st_scheme) res" where
  "pipewrite_loop p [] s = Inr (Ret 0, s)"
| "pipewrite_loop p (c # cs) s =
     (let q = pipes s p in
      if pi_nwrite q = pi_nread q + of_nat PIPESIZE
      then if pi_readopen q = 0 then Inr (Ret (-1), s)
           else bnd (killed s) (\<lambda>k. if k then Inr (Ret (-1), s)
                  else Inr (Sleeps (c # cs), wakeup (ChPipeRead p) s))
      else pipewrite_loop p cs (setpipe p (\<lambda>q. q\<lparr>pi_data := (pi_data q)(unat (pi_nwrite q) mod PIPESIZE := c),
                                                  pi_nwrite := pi_nwrite q + 1\<rparr>) s))"

text \<open>A run of \<open>pipewrite\<close> of \<open>n\<close> bytes, \<open>src\<close> of which are left.\<close>

definition pipewrite_run :: "u32 \<Rightarrow> int \<Rightarrow> u8 list \<Rightarrow> 'a file_st_scheme \<Rightarrow> (u8 list io \<times> 'a file_st_scheme) res" where
  "pipewrite_run p n src s =
     bnd (pipewrite_loop p src s) (\<lambda>(r, s). case r of
        Ret v \<Rightarrow> if v < 0 then Inr (Ret (-1), s) else Inr (Ret n, wakeup (ChPipeRead p) s)
      | Sleeps rest \<Rightarrow> Inr (Sleeps rest, s))"

definition pipewrite :: "u32 \<Rightarrow> u8 list \<Rightarrow> 'a file_st_scheme \<Rightarrow> (int \<times> 'a file_st_scheme) res" where
  "pipewrite p src s =
     bnd (pipewrite_run p (int (length src)) src s) (\<lambda>(r, s). case r of
        Ret v \<Rightarrow> Inr (v, s) | Sleeps rest \<Rightarrow> Inl (Asleep (ChPipeWrite p)))"

fun piperead_loop :: "u32 \<Rightarrow> nat \<Rightarrow> 'a file_st_scheme \<Rightarrow> u8 list \<times> 'a file_st_scheme" where
  "piperead_loop p 0 s = ([], s)"
| "piperead_loop p (Suc n) s =
     (let q = pipes s p in
      if pi_nread q = pi_nwrite q then ([], s)
      else case piperead_loop p n (setpipe p (\<lambda>q. q\<lparr>pi_nread := pi_nread q + 1\<rparr>) s) of
             (bs, s) \<Rightarrow> (pi_data q (unat (pi_nread q) mod PIPESIZE) # bs, s))"

definition piperead_run :: "u32 \<Rightarrow> int \<Rightarrow> 'a file_st_scheme \<Rightarrow> (unit io \<times> u8 list \<times> 'a file_st_scheme) res" where
  "piperead_run p n s =
     (let q = pipes s p in
      if pi_nread q = pi_nwrite q \<and> pi_writeopen q \<noteq> 0
      then bnd (killed s) (\<lambda>k. Inr (if k then Ret (-1) else Sleeps (), [], s))
      else case piperead_loop p (nat n) s of
             (bs, s) \<Rightarrow> Inr (Ret (int (length bs)), bs, wakeup (ChPipeWrite p) s))"

definition piperead :: "u32 \<Rightarrow> int \<Rightarrow> 'a file_st_scheme \<Rightarrow> (int \<times> u8 list \<times> 'a file_st_scheme) res" where
  "piperead p n s =
     bnd (piperead_run p n s) (\<lambda>(r, bs, s). case r of
        Ret v \<Rightarrow> Inr (v, bs, s) | Sleeps _ \<Rightarrow> Inl (Asleep (ChPipeRead p)))"

section \<open>A pipe as a queue\<close>

interpretation pipe_ring: ring_buffer PIPESIZE
  by unfold_locales (simp_all add: PIPESIZE_def)

definition pipe_bytes :: "pipe \<Rightarrow> u8 list" where
  "pipe_bytes q = ring_list PIPESIZE (pi_data q) (pi_nread q) (pi_nwrite q)"

definition pipe_inv :: "pipe \<Rightarrow> bool" where
  "pipe_inv q \<longleftrightarrow> length (pipe_bytes q) \<le> PIPESIZE"

lemma pipes_wakeup [simp]: "pipes (wakeup ch s) = pipes s"
  by (simp add: wakeup_def wakeup1_def)

lemma pipes_setpipe [simp]: "pipes (setpipe p f s) = (pipes s)(p := f (pipes s p))"
  by (simp add: setpipe_def)

lemma pipe_bytes_open [simp]: "pipe_bytes (q\<lparr>pi_readopen := a\<rparr>) = pipe_bytes q" "pipe_bytes (q\<lparr>pi_writeopen := a\<rparr>) = pipe_bytes q"
  by (simp_all add: pipe_bytes_def)

lemma full_iff: "pi_nwrite q = pi_nread q + of_nat PIPESIZE \<longleftrightarrow> length (pipe_bytes q) = PIPESIZE"
  by (simp add: pipe_bytes_def pipe_ring.full)

lemma pipe_bytes_Nil: "pipe_bytes q = [] \<longleftrightarrow> pi_nread q = pi_nwrite q"
  by (simp add: pipe_bytes_def ring_list_Nil)

lemma pipe_bytes_push:
  assumes "pipe_inv q" "length (pipe_bytes q) \<noteq> PIPESIZE"
  shows "pipe_bytes (q\<lparr>pi_data := (pi_data q)(unat (pi_nwrite q) mod PIPESIZE := c), pi_nwrite := pi_nwrite q + 1\<rparr>) = pipe_bytes q @ [c]"
  using assms by (simp add: pipe_bytes_def pipe_inv_def pipe_ring.push)

lemma pipe_bytes_pop:
  "pipe_bytes q \<noteq> [] \<Longrightarrow> pipe_bytes q = pi_data q (unat (pi_nread q) mod PIPESIZE) # pipe_bytes (q\<lparr>pi_nread := pi_nread q + 1\<rparr>)"
  using pipe_ring.pop [of "pi_nread q" "pi_nwrite q" "pi_data q"] by (simp add: pipe_bytes_def ring_list_Nil)

section \<open>What the loops do to the queue\<close>

text \<open>The pipe that is the argument, and the parts of the state a pipe operation can change.\<close>

lemma pipewrite_loop_law:
  assumes "pipewrite_loop p src s = Inr (r, s')" "pipe_inv (pipes s p)"
  shows "\<exists>k \<le> length src. pipe_bytes (pipes s' p) = pipe_bytes (pipes s p) @ take k src \<and> pipe_inv (pipes s' p) \<and>
    pi_readopen (pipes s' p) = pi_readopen (pipes s p) \<and> pi_writeopen (pipes s' p) = pi_writeopen (pipes s p) \<and>
    (\<forall>q. q \<noteq> p \<longrightarrow> pipes s' q = pipes s q) \<and>
    (r = Ret 0 \<and> k = length src \<or>
     k < length src \<and> length (pipe_bytes (pipes s' p)) = PIPESIZE \<and> (r = Ret (-1) \<or> r = Sleeps (drop k src)))"
  using assms
proof (induction p src s rule: pipewrite_loop.induct)
  case (2 p c cs s)
  show ?case
  proof (cases "length (pipe_bytes (pipes s p)) = PIPESIZE")
    case True
    with 2 show ?thesis
      by (intro exI [of _ 0]) (auto simp: Let_def full_iff res_iff split: if_splits)
  next
    case False
    let ?s = "setpipe p (\<lambda>q. q\<lparr>pi_data := (pi_data q)(unat (pi_nwrite q) mod PIPESIZE := c), pi_nwrite := pi_nwrite q + 1\<rparr>) s"
    have q: "pipe_bytes (pipes ?s p) = pipe_bytes (pipes s p) @ [c]"
      using pipe_bytes_push [OF 2(3) False] by simp
    with False 2(3) have "pipe_inv (pipes ?s p)" by (auto simp: pipe_inv_def)
    moreover have "pipewrite_loop p cs ?s = Inr (r, s')" using 2(2) False by (simp add: Let_def full_iff)
    ultimately obtain k where "k \<le> length cs" "pipe_bytes (pipes s' p) = pipe_bytes (pipes ?s p) @ take k cs"
      "pipe_inv (pipes s' p)" "pi_readopen (pipes s' p) = pi_readopen (pipes ?s p)"
      "pi_writeopen (pipes s' p) = pi_writeopen (pipes ?s p)" "\<forall>q. q \<noteq> p \<longrightarrow> pipes s' q = pipes ?s q"
      "r = Ret 0 \<and> k = length cs \<or> k < length cs \<and> length (pipe_bytes (pipes s' p)) = PIPESIZE \<and> (r = Ret (-1) \<or> r = Sleeps (drop k cs))"
      using 2(1) [OF refl] False by (auto simp: full_iff)
    then show ?thesis by (intro exI [of _ "Suc k"]) (auto simp: pipe_bytes_push [OF 2(3) False])
  qed
qed auto

lemma piperead_loop_law:
  assumes "piperead_loop p n s = (bs, s')"
  shows "bs = take n (pipe_bytes (pipes s p)) \<and> pipe_bytes (pipes s' p) = drop n (pipe_bytes (pipes s p)) \<and>
    pi_readopen (pipes s' p) = pi_readopen (pipes s p) \<and> pi_writeopen (pipes s' p) = pi_writeopen (pipes s p) \<and>
    (\<forall>q. q \<noteq> p \<longrightarrow> pipes s' q = pipes s q)"
  using assms
proof (induction p n s arbitrary: bs rule: piperead_loop.induct)
  case (2 p n s)
  show ?case
  proof (cases "pipe_bytes (pipes s p) = []")
    case True
    moreover from this have "pi_nread (pipes s p) = pi_nwrite (pipes s p)" by (simp add: pipe_bytes_Nil)
    with 2(2) have "bs = []" "s' = s" by (simp_all add: Let_def)
    ultimately show ?thesis by simp
  next
    case False
    then have ne: "pi_nread (pipes s p) \<noteq> pi_nwrite (pipes s p)" by (simp add: pipe_bytes_Nil)
    let ?s = "setpipe p (\<lambda>q. q\<lparr>pi_nread := pi_nread q + 1\<rparr>) s"
    obtain bs' where bs': "piperead_loop p n ?s = (bs', s')"
      "bs = pi_data (pipes s p) (unat (pi_nread (pipes s p)) mod PIPESIZE) # bs'"
      using 2(2) ne by (auto simp: Let_def split: prod.splits)
    show ?thesis using 2(1) [OF refl ne bs'(1)] bs'(2) pipe_bytes_pop [OF False] by simp
  qed
qed simp

lemma pipewrite_run_law:
  assumes "pipewrite_run p n src s = Inr (r, s')" "pipe_inv (pipes s p)" "0 \<le> n"
  shows "\<exists>k \<le> length src. pipe_bytes (pipes s' p) = pipe_bytes (pipes s p) @ take k src \<and> pipe_inv (pipes s' p) \<and>
    (r = Ret n \<and> k = length src \<or>
     k < length src \<and> length (pipe_bytes (pipes s' p)) = PIPESIZE \<and> (r = Ret (-1) \<or> r = Sleeps (drop k src)))"
proof -
  from assms(1) obtain v t where l: "pipewrite_loop p src s = Inr (v, t)" and e:
    "(case v of Ret v \<Rightarrow> if v < 0 then Inr (Ret (-1), t) else Inr (Ret n, wakeup (ChPipeRead p) t)
      | Sleeps rest \<Rightarrow> Inr (Sleeps rest, t)) = (Inr (r, s') :: (u8 list io \<times> 'a file_st_scheme) res)"
    by (auto simp: pipewrite_run_def res_iff)
  from pipewrite_loop_law [OF l assms(2)] obtain k where k: "k \<le> length src"
    "pipe_bytes (pipes t p) = pipe_bytes (pipes s p) @ take k src" "pipe_inv (pipes t p)"
    "v = Ret 0 \<and> k = length src \<or>
     k < length src \<and> length (pipe_bytes (pipes t p)) = PIPESIZE \<and> (v = Ret (-1) \<or> v = Sleeps (drop k src))" by blast
  with e have "pipes s' = pipes t" by (auto split: io.splits if_splits)
  with k e show ?thesis by (intro exI [of _ k]) auto
qed

lemma piperead_run_law:
  assumes "piperead_run p n s = Inr (r, bs, s')"
  shows "pipe_bytes (pipes s p) = bs @ pipe_bytes (pipes s' p)"
  using assms piperead_loop_law [of p "nat n" s]
  by (auto simp: piperead_run_def Let_def res_iff split: if_splits prod.splits)

lemma pipes_kfree: "kfree p s = Inr s' \<Longrightarrow> pipes s' = pipes s"
  by (auto simp: kfree_def set_page_def Let_def split: if_splits)

lemma pipeclose_law: "pipeclose p w s = Inr s' \<Longrightarrow> pipe_bytes (pipes s' p) = pipe_bytes (pipes s p)"
  by (auto simp: pipeclose_def Let_def dest!: pipes_kfree split: if_splits)

section \<open>Histories of a pipe\<close>

text \<open>
  A history of the pipe \<open>p\<close>: the bytes that writers have put in and the bytes that readers have
  taken out, in the order of the runs. A writer's run that sleeps contributes what it wrote
  before sleeping; the same thread resumes with the rest. Steps of the rest of the kernel leave
  the struct alone.
\<close>

definition wrote_of :: "u8 list io \<Rightarrow> u8 list \<Rightarrow> nat \<Rightarrow> u8 list" where
  "wrote_of r src free = (case r of Sleeps rest \<Rightarrow> take (length src - length rest) src
     | Ret v \<Rightarrow> if v < 0 then take free src else src)"

inductive history :: "u32 \<Rightarrow> 'a file_st_scheme \<Rightarrow> u8 list \<Rightarrow> u8 list \<Rightarrow> 'a file_st_scheme \<Rightarrow> bool" for p s0 where
  start: "history p s0 [] [] s0"
| wr: "history p s0 sent got s \<Longrightarrow> 0 \<le> n \<Longrightarrow> pipewrite_run p n src s = Inr (r, s') \<Longrightarrow>
    history p s0 (sent @ wrote_of r src (PIPESIZE - length (pipe_bytes (pipes s p)))) got s'"
| rd: "history p s0 sent got s \<Longrightarrow> piperead_run p n s = Inr (r, bs, s') \<Longrightarrow> history p s0 sent (got @ bs) s'"
| cl: "history p s0 sent got s \<Longrightarrow> pipeclose p w s = Inr s' \<Longrightarrow> history p s0 sent got s'"
| other: "history p s0 sent got s \<Longrightarrow> pipes s' p = pipes s p \<Longrightarrow> history p s0 sent got s'"

lemma wrote_of_law:
  assumes "pipewrite_run p n src s = Inr (r, s')" "pipe_inv (pipes s p)" "0 \<le> n"
  shows "pipe_bytes (pipes s' p) = pipe_bytes (pipes s p) @ wrote_of r src (PIPESIZE - length (pipe_bytes (pipes s p)))"
proof -
  obtain k where k: "k \<le> length src" "pipe_bytes (pipes s' p) = pipe_bytes (pipes s p) @ take k src"
    "r = Ret n \<and> k = length src \<or>
     k < length src \<and> length (pipe_bytes (pipes s' p)) = PIPESIZE \<and> (r = Ret (-1) \<or> r = Sleeps (drop k src))"
    using pipewrite_run_law [OF assms] by blast
  from k(3) show ?thesis
  proof (elim disjE conjE)
    assume r: "r = Ret (-1)" "length (pipe_bytes (pipes s' p)) = PIPESIZE" "k < length src"
    then have "PIPESIZE - length (pipe_bytes (pipes s p)) = k" using k(2) by simp
    with r show ?thesis using k(2) by (simp add: wrote_of_def)
  qed (use k assms(3) in \<open>auto simp: wrote_of_def\<close>)
qed

lemma history_queue:
  assumes "history p s0 sent got s" "pipe_bytes (pipes s0 p) = []"
  shows "sent = got @ pipe_bytes (pipes s p) \<and> pipe_inv (pipes s p)"
  using assms
proof (induction rule: history.induct)
  case (wr sent got s n src r s')
  then show ?case using wrote_of_law [OF wr(3)] pipewrite_run_law [OF wr(3)] by auto
next
  case (rd sent got s n r bs s')
  then show ?case using piperead_run_law [OF rd(2)] by (auto simp: pipe_inv_def)
next
  case (cl sent got s w s')
  then show ?case using pipeclose_law [OF cl(2)] by (auto simp: pipe_inv_def)
qed (auto simp: pipe_inv_def)

section \<open>Sleeping and waking\<close>

definition sleepers :: "chan \<Rightarrow> 'a ptable_st_scheme \<Rightarrow> proc list" where
  "sleepers ch s = [p \<leftarrow> procs s. p_state p = SLEEPING \<and> p_chan p = Some ch]"

lemma sleepers_wakeup [simp]: "sleepers ch (wakeup ch s) = []"
  by (auto simp: sleepers_def wakeup_def wake_proc_def filter_empty_conv)

lemma killed_setpipe [simp]: "killed (setpipe p f s) = killed s"
  by (simp add: killed_def setpipe_def getp_def)

lemma procs_setpipe: "procs (setpipe p f s) = procs s"
  by (simp add: setpipe_def)

lemma pipewrite_loop_ends:
  "pipewrite_loop p src s = Inr (r, s') \<Longrightarrow>
     (case r of Sleeps rest \<Rightarrow> pi_readopen (pipes s' p) \<noteq> 0 \<and> killed s = Inr False \<and> sleepers (ChPipeRead p) s' = []
      | Ret v \<Rightarrow> procs s' = procs s \<and> (v = 0 \<or> v = -1 \<and> (pi_readopen (pipes s' p) = 0 \<or> killed s = Inr True)))"
proof (induction p src s rule: pipewrite_loop.induct)
  case (2 p c cs s)
  then show ?case by (auto simp: Let_def res_iff procs_setpipe split: if_splits io.splits)
qed auto

lemma pipewrite_run_ends:
  assumes "pipewrite_run p n src s = Inr (r, s')"
  shows "case r of Sleeps rest \<Rightarrow> pi_readopen (pipes s' p) \<noteq> 0 \<and> killed s = Inr False \<and> sleepers (ChPipeRead p) s' = []
      | Ret v \<Rightarrow> v = n \<and> sleepers (ChPipeRead p) s' = [] \<or>
          v = -1 \<and> (pi_readopen (pipes s' p) = 0 \<or> killed s = Inr True) \<and> procs s' = procs s"
proof (cases "pipewrite_loop p src s")
  case (Inr x)
  then show ?thesis using assms pipewrite_loop_ends [of p src s "fst x" "snd x"]
    by (cases x; cases "fst x") (auto simp: pipewrite_run_def split: if_splits)
qed (use assms in \<open>simp add: pipewrite_run_def\<close>)

lemma piperead_loop_numeral [simp]:
  "piperead_loop p (numeral k) s = (let q = pipes s p in
     if pi_nread q = pi_nwrite q then ([], s)
     else case piperead_loop p (pred_numeral k) (setpipe p (\<lambda>q. q\<lparr>pi_nread := pi_nread q + 1\<rparr>) s) of
            (bs, s) \<Rightarrow> (pi_data q (unat (pi_nread q) mod PIPESIZE) # bs, s))"
  by (simp add: numeral_eq_Suc)

section \<open>Properties\<close>

text \<open>A state with one open file on the pipe in page 4096 and the counters about to wrap around.\<close>

definition wrap_pipe :: pipe where
  "wrap_pipe = \<lparr>pi_data = (\<lambda>_. 0), pi_nread = 0xFFFFFFFF, pi_nwrite = 0xFFFFFFFF, pi_readopen = 1, pi_writeopen = 1\<rparr>"

definition small_files :: "pipe \<Rightarrow> file_st" where
  "small_files q = fs_st.extend ten_bytes (file_st.fields
     (\<lparr>f_type = FD_PIPE, f_ref = 1, f_readable = 1, f_writable = 0, f_pipe = 4096, f_ip = None, f_off = 0\<rparr> #
      replicate 3 \<lparr>f_type = FD_NONE, f_ref = 0, f_readable = 0, f_writable = 0, f_pipe = 0, f_ip = None, f_off = 0\<rparr>)
     (\<lambda>_. q))"

lemma pipes_small_files [simp]: "pipes (small_files q) = (\<lambda>_. q)"
  by (simp add: small_files_def fs_st.defs file_st.defs)

text \<open>
  (C8) A pipe is a first-in first-out channel. In every interleaving of runs of \<open>pipewrite\<close> and
  \<open>piperead\<close>, cut where they sleep, of \<open>pipeclose\<close> and of steps that leave the pipe alone, that
  starts with an empty pipe, the bytes written are the bytes read followed by the bytes in the
  buffer, and these are at most 512. The counters may wrap around.
\<close>

theorem pipe_fifo:
  assumes "history p s0 sent got s" "pipe_bytes (pipes s0 p) = []"
  shows "sent = got @ pipe_bytes (pipes s p) \<and> length (pipe_bytes (pipes s p)) \<le> 512"
  using history_queue [OF assms] by (simp add: pipe_inv_def PIPESIZE_def)

theorem pipe_fifo_witness:
  "\<exists>s. history 4096 (small_files wrap_pipe) [7, 8, 9] [7, 8] s \<and>
     [7, 8, 9] = [7, 8] @ pipe_bytes (pipes s 4096) \<and> length (pipe_bytes (pipes s 4096)) \<le> 512"
proof -
  let ?p = "4096 :: u32" and ?s = "small_files wrap_pipe"
  obtain s1 where w: "pipewrite_run ?p 3 [7, 8, 9] ?s = Inr (Ret 3, s1)"
    and q: "pipes s1 ?p = wrap_pipe\<lparr>pi_data := (\<lambda>_. 0)(511 := 7, 0 := 8, 1 := 9), pi_nwrite := 2\<rparr>"
    by (simp add: pipewrite_run_def Let_def wrap_pipe_def PIPESIZE_def)
  have h1: "history ?p ?s [7, 8, 9] [] s1"
    using history.wr [OF history.start _ w] by (simp add: wrote_of_def)
  obtain s2 where r: "piperead_run ?p 2 s1 = Inr (Ret 2, [7, 8], s2)"
    using q by (simp add: piperead_run_def Let_def wrap_pipe_def PIPESIZE_def)
  have h2: "history ?p ?s [7, 8, 9] [7, 8] s2" using history.rd [OF h1 r] by simp
  have "pipe_bytes (pipes ?s ?p) = []" by (simp add: pipe_bytes_Nil wrap_pipe_def)
  from pipe_fifo [OF h2 this] h2 show ?thesis by blast
qed

text \<open>
  (C39) When the two ends of a pipe sleep and when they wake each other, for every outcome of a run of \<open>pipewrite\<close>
  and \<open>piperead\<close>. A write that sleeps does so with the buffer full, a reader's end open and the
  writer not killed, and leaves no reader asleep; a write that completes leaves no reader asleep. The
  other outcome of a write is -1, with the buffer full and either no reader's end open or the writer
  killed: then nobody is woken, although the run may have put bytes into the buffer. A read sleeps, or returns -1 when it
  was killed, only with the buffer empty and a writer's end open, and changes nothing; any other
  read returns the number of its bytes and leaves no writer asleep.
\<close>

theorem pipe_wakeups:
  assumes "pipe_inv (pipes s p)" "0 \<le> n"
  shows "(pipewrite_run p n src s = Inr (r, s') \<longrightarrow>
      (case r of
         Sleeps rest \<Rightarrow> length (pipe_bytes (pipes s' p)) = 512 \<and> pi_readopen (pipes s' p) \<noteq> 0 \<and>
           killed s = Inr False \<and> sleepers (ChPipeRead p) s' = []
       | Ret v \<Rightarrow> v = n \<and> sleepers (ChPipeRead p) s' = [] \<or>
           v = -1 \<and> length (pipe_bytes (pipes s' p)) = 512 \<and>
             (pi_readopen (pipes s' p) = 0 \<or> killed s = Inr True) \<and> procs s' = procs s)) \<and>
    (piperead_run p m s = Inr (u, bs, t) \<longrightarrow>
      (case u of
         Sleeps _ \<Rightarrow> pipe_bytes (pipes s p) = [] \<and> pi_writeopen (pipes s p) \<noteq> 0 \<and> killed s = Inr False \<and> t = s \<and> bs = []
       | Ret v \<Rightarrow> v = int (length bs) \<and> sleepers (ChPipeWrite p) t = [] \<or>
           v = -1 \<and> pipe_bytes (pipes s p) = [] \<and> pi_writeopen (pipes s p) \<noteq> 0 \<and> killed s = Inr True \<and> t = s \<and> bs = []))"
proof (intro conjI impI)
  assume w: "pipewrite_run p n src s = Inr (r, s')"
  from pipewrite_run_ends [OF w] pipewrite_run_law [OF w assms]
  show "case r of
         Sleeps rest \<Rightarrow> length (pipe_bytes (pipes s' p)) = 512 \<and> pi_readopen (pipes s' p) \<noteq> 0 \<and>
           killed s = Inr False \<and> sleepers (ChPipeRead p) s' = []
       | Ret v \<Rightarrow> v = n \<and> sleepers (ChPipeRead p) s' = [] \<or>
           v = -1 \<and> length (pipe_bytes (pipes s' p)) = 512 \<and>
             (pi_readopen (pipes s' p) = 0 \<or> killed s = Inr True) \<and> procs s' = procs s"
    using assms(2) by (cases r) (auto simp: PIPESIZE_def)
qed (auto simp: piperead_run_def Let_def res_iff pipe_bytes_Nil split: if_splits prod.splits io.splits)

theorem pipe_wakeups_witness:
  "pipe_inv (pipes (small_files wrap_pipe) 4096) \<and>
   (\<exists>s'. pipewrite_run 4096 1 [7] (small_files wrap_pipe) = Inr (Ret 1, s') \<and> sleepers (ChPipeRead 4096) s' = [])"
proof -
  have i: "pipe_inv (pipes (small_files wrap_pipe) 4096)" by (simp add: pipe_inv_def pipe_bytes_def wrap_pipe_def)
  obtain s' where w: "pipewrite_run 4096 1 [7] (small_files wrap_pipe) = Inr (Ret 1, s')"
    by (simp add: pipewrite_run_def Let_def wrap_pipe_def PIPESIZE_def)
  show ?thesis using pipe_wakeups [OF i, of 1 "[7]" "Ret 1" s' 1] i w by auto
qed

end
