(* ===== verification/File.thy ===== *)
theory File
  imports Pipe
begin

text \<open>
  Open files, \<open>file.c\<close>, and \<open>pipealloc\<close> of \<open>pipe.c\<close>. A \<open>struct file *\<close> is an index into \<open>ftable\<close>.
  The buffer that \<open>fileread\<close> fills is returned as a list, the one that \<open>filewrite\<close> takes is given
  as a list; the device switch is an argument, as in theory \<open>Fs\<close>.
\<close>

definition NFILE :: nat where "NFILE = 100"

definition modf :: "nat \<Rightarrow> (kfile \<Rightarrow> kfile) \<Rightarrow> 'a file_st_scheme \<Rightarrow> 'a file_st_scheme" where
  "modf f g s = s\<lparr>ftable := (ftable s)[f := g (ftable s ! f)]\<rparr>"

abbreviation file_at :: "'a file_st_scheme \<Rightarrow> nat \<Rightarrow> kfile" where
  "file_at s f \<equiv> ftable s ! f"

section \<open>Operations\<close>

definition filealloc :: "'a file_st_scheme \<Rightarrow> nat option \<times> 'a file_st_scheme" where
  "filealloc s =
     (case first_idx (\<lambda>f. f_ref f = 0) (ftable s) of
        Some f \<Rightarrow> (Some f, modf f (\<lambda>x. x\<lparr>f_ref := 1\<rparr>) s)
      | None \<Rightarrow> (None, s))"

definition filedup :: "nat \<Rightarrow> 'a file_st_scheme \<Rightarrow> (nat \<times> 'a file_st_scheme) res" where
  "filedup f s =
     (if f_ref (file_at s f) < 1 then Inl (Panic ''filedup'')
      else Inr (f, modf f (\<lambda>x. x\<lparr>f_ref := f_ref x + 1\<rparr>) s))"

definition fileclose :: "nat \<Rightarrow> 'a file_st_scheme \<Rightarrow> 'a file_st_scheme res" where
  "fileclose f s =
     (if f_ref (file_at s f) < 1 then Inl (Panic ''fileclose'')
      else let s = modf f (\<lambda>x. x\<lparr>f_ref := f_ref x - 1\<rparr>) s in
        if f_ref (file_at s f) > 0 then Inr s
        else let ff = file_at s f; s = modf f (\<lambda>x. x\<lparr>f_ref := 0, f_type := FD_NONE\<rparr>) s in
          case f_type ff of
            FD_PIPE \<Rightarrow> pipeclose (f_pipe ff) (f_writable ff) s
          | FD_INODE \<Rightarrow> bnd (begin_op s) (\<lambda>s. bnd (deref (f_ip ff)) (\<lambda>ip. bnd (iput ip s) end_op))
          | FD_NONE \<Rightarrow> Inr s)"

definition filestat :: "nat \<Rightarrow> 'a file_st_scheme \<Rightarrow> (int \<times> fstat option \<times> 'a file_st_scheme) res" where
  "filestat f s =
     (if f_type (file_at s f) = FD_INODE
      then bnd (ilock (f_ip (file_at s f)) s) (\<lambda>s.
           bnd (deref (f_ip (file_at s f))) (\<lambda>ip.
           let st = stati ip s in
           bnd (iunlock (Some ip) s) (\<lambda>s. Inr (0, Some st, s))))
      else Inr (-1, None, s))"

definition fileread :: "(int \<Rightarrow> 'a file_st_scheme devops) \<Rightarrow> nat \<Rightarrow> int \<Rightarrow> 'a file_st_scheme \<Rightarrow>
    (int \<times> u8 list \<times> 'a file_st_scheme) res" where
  "fileread devsw f n s =
     (if f_readable (file_at s f) = 0 then Inr (-1, [], s)
      else case f_type (file_at s f) of
        FD_PIPE \<Rightarrow> piperead (f_pipe (file_at s f)) n s
      | FD_INODE \<Rightarrow>
          bnd (ilock (f_ip (file_at s f)) s) (\<lambda>s.
          bnd (deref (f_ip (file_at s f))) (\<lambda>ip.
          bnd (readi devsw ip (f_off (file_at s f)) (uint_of_int n) s) (\<lambda>(r, bs, s).
          let s = (if r > 0 then modf f (\<lambda>x. x\<lparr>f_off := f_off x + uint_of_int r\<rparr>) s else s) in
          bnd (iunlock (f_ip (file_at s f)) s) (\<lambda>s. Inr (r, bs, s)))))
      | FD_NONE \<Rightarrow> Inl (Panic ''fileread''))"

text \<open>
  The most that one transaction of \<open>filewrite\<close> writes, and its loop: the result is the number of
  bytes written when the loop ends. A write that returns fewer bytes than asked panics, so each
  further round has fewer bytes left.
\<close>

definition filewrite_max :: nat where
  "filewrite_max = (nat MAXOPBLOCKS - 1 - 1 - 2) div 2 * 512"

function filewrite_loop :: "(int \<Rightarrow> 'a file_st_scheme devops) \<Rightarrow> nat \<Rightarrow> u8 list \<Rightarrow> int \<Rightarrow> 'a file_st_scheme \<Rightarrow>
    (int \<times> 'a file_st_scheme) res" where
  "filewrite_loop devsw f src i s =
     (if src = [] then Inr (i, s)
      else let n1 = min (length src) filewrite_max in
        bnd (begin_op s) (\<lambda>s.
        bnd (ilock (f_ip (file_at s f)) s) (\<lambda>s.
        bnd (deref (f_ip (file_at s f))) (\<lambda>ip.
        bnd (writei devsw ip (take n1 src) (f_off (file_at s f)) s) (\<lambda>(r, s).
        let s = (if r > 0 then modf f (\<lambda>x. x\<lparr>f_off := f_off x + uint_of_int r\<rparr>) s else s) in
        bnd (iunlock (f_ip (file_at s f)) s) (\<lambda>s.
        bnd (end_op s) (\<lambda>s.
          if r < 0 then Inr (i, s)
          else if r \<noteq> int n1 then Inl (Panic ''short filewrite'')
          else filewrite_loop devsw f (drop n1 src) (i + r) s)))))))"
  by pat_completeness auto

termination
  by (relation "measure (\<lambda>(devsw, f, src, i, s). length src)") (auto simp: filewrite_max_def MAXOPBLOCKS_def)

declare filewrite_loop.simps [simp del]

definition filewrite :: "(int \<Rightarrow> 'a file_st_scheme devops) \<Rightarrow> nat \<Rightarrow> u8 list \<Rightarrow> 'a file_st_scheme \<Rightarrow>
    (int \<times> 'a file_st_scheme) res" where
  "filewrite devsw f src s =
     (if f_writable (file_at s f) = 0 then Inr (-1, s)
      else case f_type (file_at s f) of
        FD_PIPE \<Rightarrow> pipewrite (f_pipe (file_at s f)) src s
      | FD_INODE \<Rightarrow> bnd (filewrite_loop devsw f src 0 s) (\<lambda>(i, s).
          Inr (if i = int (length src) then int (length src) else -1, s))
      | FD_NONE \<Rightarrow> Inl (Panic ''filewrite''))"

text \<open>
  \<open>pipealloc\<close>. At the label \<open>bad\<close> the page pointer is always null, so there is no page to free.
\<close>

definition close_opt :: "nat option \<Rightarrow> 'a file_st_scheme \<Rightarrow> 'a file_st_scheme res" where
  "close_opt f s = (case f of None \<Rightarrow> Inr s | Some f \<Rightarrow> fileclose f s)"

definition pipealloc_bad :: "u32 \<Rightarrow> nat option \<Rightarrow> nat option \<Rightarrow> 'a file_st_scheme \<Rightarrow>
    (int \<times> nat option \<times> nat option \<times> 'a file_st_scheme) res" where
  "pipealloc_bad p f0 f1 s =
     bnd (if p \<noteq> 0 then kfree p s else Inr s) (\<lambda>s.
     bnd (close_opt f0 s) (\<lambda>s. bnd (close_opt f1 s) (\<lambda>s. Inr (-1, f0, f1, s))))"

definition pipealloc :: "'a file_st_scheme \<Rightarrow> (int \<times> nat option \<times> nat option \<times> 'a file_st_scheme) res" where
  "pipealloc s =
     (case filealloc s of
        (None, s) \<Rightarrow> pipealloc_bad 0 None None s
      | (Some f0, s) \<Rightarrow>
          (case filealloc s of
             (None, s) \<Rightarrow> pipealloc_bad 0 (Some f0) None s
           | (Some f1, s) \<Rightarrow>
               (case kalloc s of (p, s) \<Rightarrow>
                  if p = 0 then pipealloc_bad 0 (Some f0) (Some f1) s
                  else let s = setpipe p (\<lambda>q. q\<lparr>pi_readopen := 1, pi_writeopen := 1, pi_nwrite := 0, pi_nread := 0\<rparr>) s;
                           s = modf f0 (\<lambda>x. x\<lparr>f_type := FD_PIPE, f_readable := 1, f_writable := 0, f_pipe := p\<rparr>) s;
                           s = modf f1 (\<lambda>x. x\<lparr>f_type := FD_PIPE, f_readable := 0, f_writable := 1, f_pipe := p\<rparr>) s
                       in Inr (0, Some f0, Some f1, s))))"

end
