(* ===== verification/Proc_Life.thy ===== *)
theory Proc_Life
  imports Scheduler Spinlock Syscall_Args Dir File
begin

text \<open>
  The life of a process, \<open>proc.c\<close>: creation (\<open>allocproc\<close>, \<open>userinit\<close>, \<open>fork\<close>), growth, exit,
  \<open>wait\<close> and \<open>waitx\<close>, giving up the CPU (\<open>sched\<close>, \<open>yield\<close>, \<open>sleep\<close>, \<open>forkret\<close>), and the
  listings \<open>procdump\<close> and \<open>display_queues\<close>. A call that ends in \<open>sched\<close> is cut there: the model
  gives the state in which the scheduler takes over. The addresses of \<open>forkret\<close> and \<open>trapret\<close> and the
  bytes of the initial user program come from the linker; they are arguments. Whether the kernel is
  built with \<open>MLFQ\<close> is an argument of \<open>wait\<close>, the one function that tests it.
\<close>

section \<open>The current CPU and process\<close>

definition mycpu :: "bool \<Rightarrow> u8 list \<Rightarrow> u8 \<Rightarrow> nat res" where
  "mycpu ifl apicids apicid =
     (if ifl then Inl (Panic ''mycpu called with interrupts enabled'')
      else case first_idx (\<lambda>a. a = apicid) apicids of
             Some i \<Rightarrow> Inr i | None \<Rightarrow> Inl (Panic ''unknown apicid''))"

definition cpuid :: "bool \<Rightarrow> u8 list \<Rightarrow> u8 \<Rightarrow> int res" where
  "cpuid ifl apicids apicid = bnd (mycpu ifl apicids apicid) (\<lambda>c. Inr (int c))"

definition myproc :: "u8 list \<Rightarrow> u8 \<Rightarrow> nat option list \<Rightarrow> core \<Rightarrow> (nat option \<times> core) res" where
  "myproc apicids apicid cpu_procs c =
     (let c = pushcli c in
      bnd (mycpu (c_if c) apicids apicid) (\<lambda>i.
      bnd (aget cpu_procs (int i)) (\<lambda>p.
      bnd (popcli c) (\<lambda>c. Inr (p, c)))))"

section \<open>Creation\<close>

record linked =
  forkret_pc :: u32
  trapret_pc :: u32
  initcode :: "u8 list"

text \<open>
  \<open>nextpid++\<close> is written without a bound; what rests on the numbers growing is stated for the runs in which
  they stay within an \<open>int\<close> (\<open>krun\<close> in theory \<open>Kernel_Steps\<close>).
\<close>

definition new_pid :: "nat \<Rightarrow> 'a ptable_st_scheme \<Rightarrow> 'a ptable_st_scheme" where
  "new_pid i s =
     (let s = modp i (\<lambda>p. p\<lparr>p_state := EMBRYO, p_pid := nextpid s, p_current_queue := 0,
                p_ticks := [0, 0, 0, 0, 0], p_waittime := 5\<rparr>) s
      in s\<lparr>nextpid := nextpid s + 1\<rparr>)"

text \<open>\<open>sizeof(struct trapframe)\<close> is 76: the return address to \<open>trapret\<close> lies right below it.\<close>

definition alloc_stack :: "linked \<Rightarrow> nat \<Rightarrow> 'a kmem_st_scheme \<Rightarrow> nat option \<times> 'a kmem_st_scheme" where
  "alloc_stack lnk i s =
     (case kalloc s of (k, s) \<Rightarrow>
        if k = 0 then (None, modp i (\<lambda>p. p\<lparr>p_kstack := 0, p_state := UNUSED\<rparr>) s)
        else let s = set_page k (put32 (4096 - 76 - 4) (trapret_pc lnk) (pmem s k)) s;
                 s = modp i (\<lambda>p. p\<lparr>p_kstack := k, p_context := zero_context\<lparr>cx_eip := forkret_pc lnk\<rparr>,
                   p_ctime := int_of_uint (ticks s), p_etime := 0, p_rtime := 0, p_iotime := 0, p_num_run := 0\<rparr>) s;
                 s = modp i (\<lambda>p. p\<lparr>p_priority := (if p_pid p = 1 \<or> p_pid p = 2 then 1 else 60)\<rparr>) s
             in (Some i, s))"

definition allocproc :: "linked \<Rightarrow> 'a kmem_st_scheme \<Rightarrow> (nat option \<times> 'a kmem_st_scheme) res" where
  "allocproc lnk s =
     (case first_idx (\<lambda>p. p_state p = UNUSED) (procs s) of
        None \<Rightarrow> Inr (None, s)
      | Some i \<Rightarrow>
          let s = new_pid i s in
          bnd (getq 0 s) (\<lambda>q. bnd (q_push i q) (\<lambda>q. Inr (alloc_stack lnk i (setq 0 q s)))))"

definition SEG_UCODE :: u16 where "SEG_UCODE = 3"
definition SEG_UDATA :: u16 where "SEG_UDATA = 4"
definition DPL_USER :: u16 where "DPL_USER = 3"
definition FL_IF :: u32 where "FL_IF = 0x200"

definition init_tf :: trapframe where
  "init_tf = (let d = push_bit 3 SEG_UDATA OR DPL_USER in
     zero_tf\<lparr>tf_cs := push_bit 3 SEG_UCODE OR DPL_USER, tf_ds := d, tf_es := d, tf_ss := d,
       tf_eflags := FL_IF, tf_esp := PGSIZE, tf_eip := 0\<rparr>)"

definition userinit :: "linked \<Rightarrow> 'a file_st_scheme \<Rightarrow> 'a file_st_scheme res" where
  "userinit lnk s =
     bnd (allocproc lnk s) (\<lambda>(p, s).
     let s = s\<lparr>initproc := p\<rparr> in
     bnd (setupkvm s) (\<lambda>(pgdir, s).
     bnd (deref p) (\<lambda>i.
     let s = modp i (\<lambda>x. x\<lparr>p_pgdir := pgdir\<rparr>) s in
     if pgdir = 0 then Inl (Panic ''userinit: out of memory?'')
     else bnd (inituvm pgdir (initcode lnk) s) (\<lambda>s.
       let s = modp i (\<lambda>x. x\<lparr>p_sz := PGSIZE, p_tf := init_tf, p_name := ''initcode''\<rparr>) s in
       bnd (namei [SLASH] s) (\<lambda>(cwd, s).
       Inr (modp i (\<lambda>x. x\<lparr>p_cwd := cwd, p_state := RUNNABLE, p_start := int_of_uint (ticks s)\<rparr>) s))))))"

definition growproc :: "int \<Rightarrow> 'a kmem_st_scheme \<Rightarrow> (int \<times> 'a kmem_st_scheme) res" where
  "growproc n s =
     bnd (deref (cpu_proc s)) (\<lambda>cur.
     let pgdir = p_pgdir (proc_at s cur); sz = p_sz (proc_at s cur) in
     bnd (if n > 0 then allocuvm pgdir sz (sz + uint_of_int n) s
          else if n < 0 then deallocuvm pgdir sz (sz + uint_of_int n) s
          else Inr (sz, s)) (\<lambda>(sz', s).
     if n \<noteq> 0 \<and> sz' = 0 then Inr (-1, s)
     else let s = modp cur (\<lambda>p. p\<lparr>p_sz := sz'\<rparr>) s in
       bnd (switchuvm (Some cur) s) (\<lambda>s. Inr (0, s))))"

text \<open>The copies of the parent's open files that \<open>fork\<close> makes.\<close>

definition dup_fd :: "nat \<Rightarrow> nat \<Rightarrow> nat \<Rightarrow> 'a file_st_scheme \<Rightarrow> 'a file_st_scheme res" where
  "dup_fd cur np fd s =
     (case p_ofile (proc_at s cur) ! fd of
        None \<Rightarrow> Inr s
      | Some f \<Rightarrow> bnd (filedup f s) (\<lambda>(f, s). Inr (modp np (\<lambda>p. p\<lparr>p_ofile := (p_ofile p)[fd := Some f]\<rparr>) s)))"

text \<open>The end of \<open>fork\<close>, when the child \<open>np\<close> has its copy of the memory.\<close>

definition fork_child :: "nat \<Rightarrow> nat \<Rightarrow> 'a file_st_scheme \<Rightarrow> (int \<times> 'a file_st_scheme) res" where
  "fork_child cur np s =
     (let c = proc_at s cur;
          s = modp np (\<lambda>p. p\<lparr>p_sz := p_sz c, p_parent := Some cur, p_tf := (p_tf c)\<lparr>tf_eax := 0\<rparr>\<rparr>) s in
      bnd (foreach (dup_fd cur np) 0 NOFILE s) (\<lambda>s.
      bnd (deref (p_cwd (proc_at s cur))) (\<lambda>cwd.
      let s = idup cwd s;
          s = modp np (\<lambda>p. p\<lparr>p_cwd := Some cwd, p_name := p_name (proc_at s cur),
                p_state := RUNNABLE, p_start := int_of_uint (ticks s)\<rparr>) s
      in Inr (p_pid (proc_at s np), s))))"

definition fork :: "linked \<Rightarrow> 'a file_st_scheme \<Rightarrow> (int \<times> 'a file_st_scheme) res" where
  "fork lnk s =
     bnd (deref (cpu_proc s)) (\<lambda>cur.
     bnd (allocproc lnk s) (\<lambda>(r, s). case r of
       None \<Rightarrow> Inr (-1, s)
     | Some np \<Rightarrow>
       bnd (copyuvm (p_pgdir (proc_at s cur)) (p_sz (proc_at s cur)) s) (\<lambda>(pgdir, s).
       let s = modp np (\<lambda>p. p\<lparr>p_pgdir := pgdir\<rparr>) s in
       if pgdir = 0
       then bnd (kfree (p_kstack (proc_at s np)) s) (\<lambda>s.
              Inr (-1, modp np (\<lambda>p. p\<lparr>p_kstack := 0, p_state := UNUSED\<rparr>) s))
       else fork_child cur np s)))"

section \<open>Exit and wait\<close>

definition close_fd :: "nat \<Rightarrow> nat \<Rightarrow> 'a file_st_scheme \<Rightarrow> 'a file_st_scheme res" where
  "close_fd cur fd s =
     (case p_ofile (proc_at s cur) ! fd of
        None \<Rightarrow> Inr s
      | Some f \<Rightarrow> bnd (fileclose f s) (\<lambda>s. Inr (modp cur (\<lambda>p. p\<lparr>p_ofile := (p_ofile p)[fd := None]\<rparr>) s)))"

text \<open>The loop that passes the children of \<open>cur\<close> to the init process, and its body for slot \<open>k\<close>.\<close>

definition pass_child :: "nat \<Rightarrow> nat \<Rightarrow> 'a ptable_st_scheme \<Rightarrow> 'a ptable_st_scheme" where
  "pass_child cur k s =
     (if p_parent (proc_at s k) = Some cur
      then let s = modp k (\<lambda>p. p\<lparr>p_parent := initproc s\<rparr>) s in
           if p_state (proc_at s k) = ZOMBIE then wakeup1 (map_option ChProc (initproc s)) s else s
      else s)"

definition pass_children :: "nat \<Rightarrow> 'a ptable_st_scheme \<Rightarrow> 'a ptable_st_scheme" where
  "pass_children cur s = fold (pass_child cur) [0..<length (procs s)] s"

text \<open>\<open>exit\<close> up to its call of \<open>sched\<close>, which does not return.\<close>

definition exit :: "'a file_st_scheme \<Rightarrow> 'a file_st_scheme res" where
  "exit s =
     bnd (deref (cpu_proc s)) (\<lambda>cur.
     if Some cur = initproc s then Inl (Panic ''init exiting'')
     else bnd (foreach (close_fd cur) 0 NOFILE s) (\<lambda>s.
       bnd (begin_op s) (\<lambda>s.
       bnd (deref (p_cwd (proc_at s cur))) (\<lambda>cwd.
       bnd (iput cwd s) (\<lambda>s.
       bnd (end_op s) (\<lambda>s.
       let s = modp cur (\<lambda>p. p\<lparr>p_cwd := None\<rparr>) s;
           s = wakeup1 (map_option ChProc (p_parent (proc_at s cur))) s;
           s = pass_children cur s
       in Inr (modp cur (\<lambda>p. p\<lparr>p_state := ZOMBIE, p_etime := int_of_uint (ticks s)\<rparr>) s)))))))"

text \<open>What \<open>wait\<close> and \<open>waitx\<close> do with the zombie in slot \<open>i\<close>; only \<open>wait\<close> of an MLFQ kernel unqueues it.\<close>

definition reap :: "bool \<Rightarrow> nat \<Rightarrow> 'a kmem_st_scheme \<Rightarrow> (int \<times> 'a kmem_st_scheme) res" where
  "reap unqueue i s =
     (let pid = p_pid (proc_at s i) in
      bnd (kfree (p_kstack (proc_at s i)) s) (\<lambda>s.
      let s = modp i (\<lambda>p. p\<lparr>p_kstack := 0\<rparr>) s in
      bnd (freevm (p_pgdir (proc_at s i)) s) (\<lambda>s.
      bnd (if unqueue then rem_process (p_pid (proc_at s i)) (p_current_queue (proc_at s i)) s else Inr s) (\<lambda>s.
      Inr (pid, modp i (\<lambda>p. p\<lparr>p_pid := 0, p_parent := None, p_name := [], p_killed := 0, p_state := UNUSED\<rparr>) s)))))"

definition is_child :: "nat \<Rightarrow> proc \<Rightarrow> bool" where
  "is_child cur p \<longleftrightarrow> p_parent p = Some cur"

definition wait :: "bool \<Rightarrow> 'a kmem_st_scheme \<Rightarrow> (int \<times> 'a kmem_st_scheme) res" where
  "wait mlfq s =
     bnd (deref (cpu_proc s)) (\<lambda>cur.
     case first_idx (\<lambda>p. is_child cur p \<and> p_state p = ZOMBIE) (procs s) of
       Some i \<Rightarrow> reap mlfq i s
     | None \<Rightarrow>
         if \<not> list_ex (is_child cur) (procs s) \<or> p_killed (proc_at s cur) \<noteq> 0 then Inr (-1, s)
         else Inl (Asleep (ChProc cur)))"

text \<open>
  \<open>waitx\<close> stores the waiting and the running time of the child at the two user addresses.
\<close>

definition waitx :: "u32 \<Rightarrow> u32 \<Rightarrow> 'a kmem_st_scheme \<Rightarrow> (int \<times> 'a kmem_st_scheme) res" where
  "waitx wtime rtime s =
     bnd (deref (cpu_proc s)) (\<lambda>cur.
     case first_idx (\<lambda>p. is_child cur p \<and> p_state p = ZOMBIE) (procs s) of
       Some i \<Rightarrow>
         let p = proc_at s i in
         bnd (ustore32 wtime (uint_of_int (p_etime p - p_ctime p - p_rtime p - p_iotime p)) s) (\<lambda>s.
         bnd (ustore32 rtime (uint_of_int (p_rtime p)) s) (reap False i))
     | None \<Rightarrow>
         if \<not> list_ex (is_child cur) (procs s) \<or> p_killed (proc_at s cur) \<noteq> 0 then Inr (-1, s)
         else Inl (Asleep (ChProc cur)))"

section \<open>Giving up the CPU\<close>

text \<open>
  \<open>sched\<close> on the CPU \<open>me\<close>, for the process \<open>p\<close>. \<open>swtch\<close>, what the CPU does until this thread runs
  again, is assembly code and an argument.
\<close>

definition sched :: "(core \<Rightarrow> core) \<Rightarrow> nat \<Rightarrow> spinlock \<Rightarrow> proc \<Rightarrow> core \<Rightarrow> core res" where
  "sched swtch me ptable_lock p c =
     bnd (holding me ptable_lock c) (\<lambda>(h, c).
     if \<not> h then Inl (Panic ''sched ptable.lock'')
     else if c_ncli c \<noteq> 1 then Inl (Panic ''sched locks'')
     else if p_state p = RUNNING then Inl (Panic ''sched running'')
     else if c_if c then Inl (Panic ''sched interruptible'')
     else Inr ((swtch c)\<lparr>c_intena := c_intena c\<rparr>))"

text \<open>The process's side of \<open>yield\<close> and \<open>sleep\<close>: what is stored before \<open>sched\<close> and after it returns.\<close>

definition yield_enter :: "'a ptable_st_scheme \<Rightarrow> 'a ptable_st_scheme res" where
  "yield_enter s = bnd (deref (cpu_proc s)) (\<lambda>cur.
     Inr (modp cur (\<lambda>p. p\<lparr>p_state := RUNNABLE, p_start := int_of_uint (ticks s)\<rparr>) s))"

definition sleep_enter :: "chan option \<Rightarrow> bool \<Rightarrow> 'a ptable_st_scheme \<Rightarrow> 'a ptable_st_scheme res" where
  "sleep_enter ch has_lk s =
     (case cpu_proc s of None \<Rightarrow> Inl (Panic ''sleep'')
      | Some cur \<Rightarrow>
          if \<not> has_lk then Inl (Panic ''sleep without lk'')
          else Inr (modp cur (\<lambda>p. p\<lparr>p_chan := ch, p_state := SLEEPING\<rparr>) s))"

definition sleep_leave :: "nat \<Rightarrow> 'a ptable_st_scheme \<Rightarrow> 'a ptable_st_scheme" where
  "sleep_leave p s = modp p (\<lambda>p. p\<lparr>p_chan := None\<rparr>) s"

text \<open>\<open>forkret\<close>, with its static variable \<open>first\<close>.\<close>

definition forkret :: "bool \<Rightarrow> 'a fs_st_scheme \<Rightarrow> (bool \<times> 'a fs_st_scheme) res" where
  "forkret first s =
     (if first then bnd (iinit (uint ROOTDEV) s) (\<lambda>s. bnd (initlog (uint ROOTDEV) s) (\<lambda>s. Inr (False, s)))
      else Inr (first, s))"

section \<open>Listings\<close>

definition kload32 :: "u32 \<Rightarrow> 'a kmem_st_scheme \<Rightarrow> u32" where
  "kload32 a s = get32 (pmem s (PGROUNDDOWN a)) (unat (a mod PGSIZE))"

text \<open>The loop of \<open>getcallerpcs\<close> that follows the frame pointers, for \<open>n\<close> more entries.\<close>

fun caller_loop :: "nat \<Rightarrow> u32 \<Rightarrow> 'a kmem_st_scheme \<Rightarrow> u32 list" where
  "caller_loop 0 ebp s = []"
| "caller_loop (Suc n) ebp s =
     (if ebp = 0 \<or> ebp < KERNBASE \<or> ebp = 0xFFFFFFFF then replicate (Suc n) 0
      else kload32 (ebp + 4) s # caller_loop n (kload32 ebp s) s)"

definition getcallerpcs :: "u32 \<Rightarrow> 'a kmem_st_scheme \<Rightarrow> u32 list" where
  "getcallerpcs v s = caller_loop 10 (v - 8) s"

fun state_name :: "procstate \<Rightarrow> string" where
  "state_name UNUSED = ''unused''"
| "state_name EMBRYO = ''embryo''"
| "state_name SLEEPING = ''sleep ''"
| "state_name RUNNABLE = ''runble''"
| "state_name RUNNING = ''run   ''"
| "state_name ZOMBIE = ''zombie''"

text \<open>One line of \<open>procdump\<close>: the values it prints.\<close>

datatype dump_line = Dump_line int string string "u32 list"

definition procdump :: "'a kmem_st_scheme \<Rightarrow> dump_line list" where
  "procdump s =
     [Dump_line (p_pid p) (state_name (p_state p)) (p_name p)
        (if p_state p = SLEEPING then takeWhile (\<lambda>pc. pc \<noteq> 0) (getcallerpcs (cx_ebp (p_context p) + 8) s) else []).
      p \<leftarrow> procs s, p_state p \<noteq> UNUSED]"

text \<open>What \<open>display_queues\<close> prints of one queue, and of all that are not empty.\<close>

definition queue_line :: "'a ptable_st_scheme \<Rightarrow> queue \<Rightarrow> (int \<times> string \<times> procstate) list res" where
  "queue_line s q =
     foreach (\<lambda>i acc. bnd (aget (q_slot q) (int i)) (\<lambda>p. bnd (getp p s) (\<lambda>p.
         Inr (acc @ [(p_pid p, p_name p, p_state p)])))) 0 (nat (q_cnt q + 1)) []"

definition display_queues :: "'a ptable_st_scheme \<Rightarrow> (nat \<times> (int \<times> string \<times> procstate) list) list res" where
  "display_queues s =
     foreach (\<lambda>k acc. bnd (getq (int k) s) (\<lambda>q.
         if q_cnt q = -1 then Inr acc else bnd (queue_line s q) (\<lambda>l. Inr (acc @ [(k, l)])))) 0 5 []"

end
