(* ===== verification/Exec.thy ===== *)
theory Exec
  imports Proc_Life
begin

text \<open>
  Loading a program, \<open>exec.c\<close>, with the file formats of \<open>elf.h\<close> and \<open>loaduvm\<close> of \<open>vm.c\<close>. The path
  and the arguments are lists of bytes without their terminators. The executable may be a device
  inode, so the device switch is an argument here too.
\<close>

section \<open>ELF files\<close>

definition ELF_MAGIC :: u32 where "ELF_MAGIC = 0x464C457F"
definition ELF_PROG_LOAD :: u32 where "ELF_PROG_LOAD = 1"
definition MAXARG :: nat where "MAXARG = 32"

text \<open>The members of the 52-byte file header and the 32-byte section header that \<open>exec\<close> reads.\<close>

record elfhdr =
  e_magic :: u32
  e_entry :: u32
  e_phoff :: u32
  e_phnum :: u16

record proghdr =
  ph_type :: u32
  ph_off :: u32
  ph_vaddr :: u32
  ph_filesz :: u32
  ph_memsz :: u32

definition elfhdr_of :: "u8 list \<Rightarrow> elfhdr" where
  "elfhdr_of bs = (let m = mem_of bs in
     \<lparr>e_magic = get32 m 0, e_entry = get32 m 24, e_phoff = get32 m 28, e_phnum = get16 m 44\<rparr>)"

definition proghdr_of :: "u8 list \<Rightarrow> proghdr" where
  "proghdr_of bs = (let m = mem_of bs in
     \<lparr>ph_type = get32 m 0, ph_off = get32 m 4, ph_vaddr = get32 m 8, ph_filesz = get32 m 16, ph_memsz = get32 m 20\<rparr>)"

section \<open>Loading\<close>

text \<open>
  The loop of \<open>loaduvm\<close> from offset \<open>i\<close> on. A segment is below \<open>KERNBASE\<close> here, because
  \<open>allocuvm\<close> has accepted it, so \<open>i\<close> does not wrap around.
\<close>

function loaduvm_loop :: "(int \<Rightarrow> 'a file_st_scheme devops) \<Rightarrow> u32 \<Rightarrow> u32 \<Rightarrow> nat \<Rightarrow> u32 \<Rightarrow> nat \<Rightarrow> nat \<Rightarrow>
    'a file_st_scheme \<Rightarrow> (int \<times> 'a file_st_scheme) res" where
  "loaduvm_loop devsw pgdir addr ip off i sz s =
     (if \<not> i < sz then Inr (0, s)
      else case walkpgdir pgdir (addr + of_nat i) False s of
        (None, _) \<Rightarrow> Inl (Panic ''loaduvm: address should exist'')
      | (Some pte, s) \<Rightarrow>
          let pa = PTE_ADDR (entry pte s); n = min (sz - i) 4096 in
          bnd (readi devsw ip (off + of_nat i) (of_nat n) s) (\<lambda>(r, bs, s).
            let s = set_page (P2V pa) (put_bytes 0 bs (pmem s (P2V pa))) s in
            if r \<noteq> int n then Inr (-1, s)
            else loaduvm_loop devsw pgdir addr ip off (i + 4096) sz s))"
  by pat_completeness auto

termination
  by (relation "measure (\<lambda>(devsw, pgdir, addr, ip, off, i, sz, s). sz - i)") auto

declare loaduvm_loop.simps [simp del]

definition loaduvm :: "(int \<Rightarrow> 'a file_st_scheme devops) \<Rightarrow> u32 \<Rightarrow> u32 \<Rightarrow> nat \<Rightarrow> u32 \<Rightarrow> u32 \<Rightarrow>
    'a file_st_scheme \<Rightarrow> (int \<times> 'a file_st_scheme) res" where
  "loaduvm devsw pgdir addr ip off sz s =
     (if addr mod PGSIZE \<noteq> 0 then Inl (Panic ''loaduvm: addr must be page aligned'')
      else loaduvm_loop devsw pgdir addr ip off 0 (unat sz) s)"

text \<open>
  The loop over the section headers, \<open>n\<close> of them from offset \<open>off\<close>: the size so far, or
  \<^term>\<open>None\<close> for a jump to the label \<open>bad\<close>.
\<close>

fun exec_load :: "(int \<Rightarrow> 'a file_st_scheme devops) \<Rightarrow> nat \<Rightarrow> u32 \<Rightarrow> nat \<Rightarrow> u32 \<Rightarrow> u32 \<Rightarrow> 'a file_st_scheme \<Rightarrow>
    (u32 option \<times> 'a file_st_scheme) res" where
  "exec_load devsw ip pgdir 0 off sz s = Inr (Some sz, s)"
| "exec_load devsw ip pgdir (Suc n) off sz s =
     bnd (readi devsw ip off 32 s) (\<lambda>(r, bs, s).
       let ph = proghdr_of bs in
       if r \<noteq> 32 then Inr (None, s)
       else if ph_type ph \<noteq> ELF_PROG_LOAD then exec_load devsw ip pgdir n (off + 32) sz s
       else if ph_memsz ph < ph_filesz ph then Inr (None, s)
       else if ph_vaddr ph + ph_memsz ph < ph_vaddr ph then Inr (None, s)
       else bnd (allocuvm pgdir sz (ph_vaddr ph + ph_memsz ph) s) (\<lambda>(sz, s).
         if sz = 0 then Inr (None, s)
         else if ph_vaddr ph mod PGSIZE \<noteq> 0 then Inr (None, s)
         else bnd (loaduvm devsw pgdir (ph_vaddr ph) ip (ph_off ph) (ph_filesz ph) s) (\<lambda>(r, s).
           if r < 0 then Inr (None, s) else exec_load devsw ip pgdir n (off + 32) sz s)))"

text \<open>
  The loop that pushes the argument strings, with \<open>argc\<close> of them pushed and their addresses in
  \<open>ustack\<close>: the final stack pointer and the addresses, or \<^term>\<open>None\<close> for \<open>bad\<close>.
\<close>

fun exec_args :: "u32 \<Rightarrow> u8 list list \<Rightarrow> u32 list \<Rightarrow> u32 \<Rightarrow> 'a kmem_st_scheme \<Rightarrow>
    ((u32 \<times> u32 list) option \<times> 'a kmem_st_scheme) res" where
  "exec_args pgdir [] ustack sp s = Inr (Some (sp, ustack), s)"
| "exec_args pgdir (arg # args) ustack sp s =
     (if length ustack \<ge> MAXARG then Inr (None, s)
      else let sp = (sp - (of_nat (length arg) + 1)) AND NOT 3 in
        bnd (copyout pgdir sp (arg @ [0]) s) (\<lambda>(r, s).
          if r < 0 then Inr (None, s) else exec_args pgdir args (ustack @ [sp]) sp s))"

text \<open>The frame \<open>exec\<close> builds for \<open>main\<close>.\<close>

definition exec_frame :: "u32 list \<Rightarrow> u32 \<Rightarrow> u32 list" where
  "exec_frame ustack sp =
     (let argc = of_nat (length ustack) in [0xFFFFFFFF, argc, sp - (argc + 1) * 4] @ ustack @ [0])"

text \<open>The last element of the path, cut to the 16 bytes of \<open>p->name\<close>.\<close>

definition last_elem :: "u8 list \<Rightarrow> u8 list" where
  "last_elem path = rev (takeWhile (\<lambda>c. c \<noteq> SLASH) (rev path))"

definition prog_name :: "u8 list \<Rightarrow> string" where
  "prog_name path = map (\<lambda>b. char_of (unat b)) (take 15 (last_elem path))"

definition exec_bad :: "u32 \<Rightarrow> nat option \<Rightarrow> 'a file_st_scheme \<Rightarrow> (int \<times> 'a file_st_scheme) res" where
  "exec_bad pgdir ip s =
     bnd (if pgdir \<noteq> 0 then freevm pgdir s else Inr s) (\<lambda>s.
     bnd (case ip of None \<Rightarrow> Inr s | Some ip \<Rightarrow> bnd (iunlockput ip s) end_op) (\<lambda>s. Inr (-1, s)))"

text \<open>The part of \<open>exec\<close> after the file is closed: the stack, the arguments and the switch.\<close>

definition exec_commit :: "nat \<Rightarrow> u32 \<Rightarrow> u32 \<Rightarrow> u32 \<Rightarrow> u32 \<Rightarrow> u8 list \<Rightarrow> 'a file_st_scheme \<Rightarrow> (int \<times> 'a file_st_scheme) res" where
  "exec_commit cur pgdir sz main sp path s =
     (let oldpgdir = p_pgdir (proc_at s cur);
          s = modp cur (\<lambda>p. p\<lparr>p_name := prog_name path, p_pgdir := pgdir, p_sz := sz,
                p_tf := (p_tf p)\<lparr>tf_eip := main, tf_esp := sp\<rparr>\<rparr>) s in
      bnd (switchuvm (Some cur) s) (\<lambda>s. bnd (freevm oldpgdir s) (\<lambda>s. Inr (0, s))))"

definition exec_stack :: "nat \<Rightarrow> u32 \<Rightarrow> u32 \<Rightarrow> u32 \<Rightarrow> u8 list \<Rightarrow> u8 list list \<Rightarrow> 'a file_st_scheme \<Rightarrow>
    (int \<times> 'a file_st_scheme) res" where
  "exec_stack cur pgdir sz main path argv s =
     (let sz = PGROUNDUP sz in
      bnd (allocuvm pgdir sz (sz + 2 * PGSIZE) s) (\<lambda>(sz, s).
      if sz = 0 then exec_bad pgdir None s
      else bnd (clearpteu pgdir (sz - 2 * PGSIZE) s) (\<lambda>s.
        bnd (exec_args pgdir argv [] sz s) (\<lambda>(r, s). case r of
          None \<Rightarrow> exec_bad pgdir None s
        | Some (sp, ustack) \<Rightarrow>
            let frame = words_bytes (exec_frame ustack sp); sp = sp - (3 + of_nat (length ustack) + 1) * 4 in
            bnd (copyout pgdir sp frame s) (\<lambda>(r, s).
              if r < 0 then exec_bad pgdir None s else exec_commit cur pgdir sz main sp path s)))))"

definition exec :: "(int \<Rightarrow> 'a file_st_scheme devops) \<Rightarrow> u8 list \<Rightarrow> u8 list list \<Rightarrow> 'a file_st_scheme \<Rightarrow>
    (int \<times> 'a file_st_scheme) res" where
  "exec devsw path argv s =
     bnd (deref (cpu_proc s)) (\<lambda>cur.
     bnd (begin_op s) (\<lambda>s.
     bnd (namei path s) (\<lambda>(r, s). case r of
       None \<Rightarrow> bnd (end_op s) (\<lambda>s. Inr (-1, s))
     | Some ip \<Rightarrow>
         bnd (ilock (Some ip) s) (\<lambda>s.
         bnd (readi devsw ip 0 52 s) (\<lambda>(r, bs, s).
         let elf = elfhdr_of bs in
         if r \<noteq> 52 \<or> e_magic elf \<noteq> ELF_MAGIC then exec_bad 0 (Some ip) s
         else bnd (setupkvm s) (\<lambda>(pgdir, s).
           if pgdir = 0 then exec_bad 0 (Some ip) s
           else bnd (exec_load devsw ip pgdir (unat (e_phnum elf)) (e_phoff elf) 0 s) (\<lambda>(r, s). case r of
               None \<Rightarrow> exec_bad pgdir (Some ip) s
             | Some sz \<Rightarrow>
                 bnd (iunlockput ip s) (\<lambda>s. bnd (end_op s) (exec_stack cur pgdir sz (e_entry elf) path argv)))))))))"

end
