(* ===== verification/Sysproc.thy ===== *)
theory Sysproc
  imports Exec
begin

text \<open>
  The system calls on processes, \<open>sysproc.c\<close>: each checks its arguments and calls into
  \<open>proc.c\<close>. The number of bytes a user structure takes is that of the 32-bit layout.
\<close>

definition sys_fork :: "linked \<Rightarrow> 'a file_st_scheme \<Rightarrow> (int \<times> 'a file_st_scheme) res" where
  "sys_fork lnk s = fork lnk s"

definition sys_exit :: "'a file_st_scheme \<Rightarrow> (int \<times> 'a file_st_scheme) res" where
  "sys_exit s = bnd (exit s) (\<lambda>s. Inr (0, s))"

definition sys_wait :: "bool \<Rightarrow> 'a kmem_st_scheme \<Rightarrow> (int \<times> 'a kmem_st_scheme) res" where
  "sys_wait mlfq s = wait mlfq s"

definition sys_waitx :: "'a kmem_st_scheme \<Rightarrow> (int \<times> 'a kmem_st_scheme) res" where
  "sys_waitx s = with_arg (argptr 0 4 s) s (\<lambda>wtime. with_arg (argptr 1 4 s) s (\<lambda>rtime. waitx wtime rtime s))"

definition sys_kill :: "'a kmem_st_scheme \<Rightarrow> (int \<times> 'a kmem_st_scheme) res" where
  "sys_kill s = with_arg (argint 0 s) s (\<lambda>pid. Inr (kill pid s))"

definition sys_getpid :: "'a kmem_st_scheme \<Rightarrow> (int \<times> 'a kmem_st_scheme) res" where
  "sys_getpid s = bnd (getp (cpu_proc s) s) (\<lambda>p. Inr (p_pid p, s))"

definition sys_sbrk :: "'a kmem_st_scheme \<Rightarrow> (int \<times> 'a kmem_st_scheme) res" where
  "sys_sbrk s = with_arg (argint 0 s) s (\<lambda>n.
     bnd (getp (cpu_proc s) s) (\<lambda>p.
     let addr = int_of_uint (p_sz p) in
     bnd (growproc n s) (\<lambda>(r, s). Inr (if r < 0 then -1 else addr, s))))"

text \<open>
  The loop of \<open>sys_sleep\<close> up to the next call of \<open>sleep\<close>. The comparison is unsigned: a negative
  \<open>n\<close> is a large one.
\<close>

definition sleep_loop :: "u32 \<Rightarrow> int \<Rightarrow> 'a ptable_st_scheme \<Rightarrow> (unit io \<times> 'a ptable_st_scheme) res" where
  "sleep_loop ticks0 n s =
     (if ticks s - ticks0 < uint_of_int n
      then bnd (killed s) (\<lambda>k. Inr (if k then Ret (-1) else Sleeps (), s))
      else Inr (Ret 0, s))"

definition sys_sleep :: "'a kmem_st_scheme \<Rightarrow> (int \<times> 'a kmem_st_scheme) res" where
  "sys_sleep s = with_arg (argint 0 s) s (\<lambda>n.
     bnd (sleep_loop (ticks s) n s) (\<lambda>(r, s). case r of
       Ret v \<Rightarrow> Inr (v, s) | Sleeps _ \<Rightarrow> Inl (Asleep ChTicks)))"

definition sys_uptime :: "'a kmem_st_scheme \<Rightarrow> (int \<times> 'a kmem_st_scheme) res" where
  "sys_uptime s = Inr (int_of_uint (ticks s), s)"

text \<open>\<open>sizeof(struct proc_stat)\<close> is 40; the last member is not stored.\<close>

definition stat_words :: "proc_stat \<Rightarrow> u32 list" where
  "stat_words st = map uint_of_int ([ps_pid st, ps_runtime st, ps_num_run st, ps_current_queue st] @ ps_ticks st)"

definition sys_getpinfo :: "'a kmem_st_scheme \<Rightarrow> (int \<times> 'a kmem_st_scheme) res" where
  "sys_getpinfo s = with_arg (argptr 0 40 s) s (\<lambda>proc. with_arg (argint 1 s) s (\<lambda>pid.
     case getpinfo pid s of
       (r, None) \<Rightarrow> Inr (r, s)
     | (r, Some st) \<Rightarrow> bnd (ustore_bytes proc (words_bytes (stat_words st)) s) (\<lambda>s. Inr (r, s))))"

definition sys_ps :: "'a kmem_st_scheme \<Rightarrow> (int \<times> 'a kmem_st_scheme) res" where
  "sys_ps s = Inr (fst (ps s), s)"

definition sys_set_priority :: "'a kmem_st_scheme \<Rightarrow> (int \<times> 'a kmem_st_scheme) res" where
  "sys_set_priority s = with_arg (argint 0 s) s (\<lambda>pid. with_arg (argint 1 s) s (\<lambda>priority.
     Inr (set_priority pid priority s)))"

end
