(* ===== verification/Sysfile.thy ===== *)
theory Sysfile
  imports Sysproc
begin

text \<open>
  The system calls on files, \<open>sysfile.c\<close>: descriptors, reading and writing, links, directories,
  \<open>open\<close>, \<open>exec\<close> and \<open>pipe\<close>. Every path that the C code takes through its \<open>goto\<close>s is here,
  with the locks and references it gives back on the way out. User buffers are copied from or to
  the process's memory at the point of the call into \<open>file.c\<close>.
\<close>

section \<open>Descriptors\<close>

definition O_RDONLY :: int where "O_RDONLY = 0"
definition O_WRONLY :: u32 where "O_WRONLY = 1"
definition O_RDWR :: u32 where "O_RDWR = 2"
definition O_CREATE :: u32 where "O_CREATE = 0x200"

text \<open>The descriptor and the file it stands for.\<close>

definition argfd :: "int \<Rightarrow> 'a file_st_scheme \<Rightarrow> (nat \<times> nat) option res" where
  "argfd n s =
     bnd (argint n s) (\<lambda>r. case r of
        None \<Rightarrow> Inr None
      | Some fd \<Rightarrow>
          if fd < 0 \<or> fd \<ge> int NOFILE then Inr None
          else bnd (getp (cpu_proc s) s) (\<lambda>p. Inr (map_option (Pair (nat fd)) (p_ofile p ! nat fd))))"

definition fdalloc :: "nat \<Rightarrow> 'a file_st_scheme \<Rightarrow> (int \<times> 'a file_st_scheme) res" where
  "fdalloc f s =
     bnd (deref (cpu_proc s)) (\<lambda>cur.
     case first_idx (\<lambda>o'. o' = None) (p_ofile (proc_at s cur)) of
       Some fd \<Rightarrow> Inr (int fd, modp cur (\<lambda>p. p\<lparr>p_ofile := (p_ofile p)[fd := Some f]\<rparr>) s)
     | None \<Rightarrow> Inr (-1, s))"

definition clear_fd :: "nat \<Rightarrow> 'a ptable_st_scheme \<Rightarrow> 'a ptable_st_scheme res" where
  "clear_fd fd s = bnd (deref (cpu_proc s)) (\<lambda>cur. Inr (modp cur (\<lambda>p. p\<lparr>p_ofile := (p_ofile p)[fd := None]\<rparr>) s))"

definition sys_dup :: "'a file_st_scheme \<Rightarrow> (int \<times> 'a file_st_scheme) res" where
  "sys_dup s = with_arg (argfd 0 s) s (\<lambda>(_, f).
     bnd (fdalloc f s) (\<lambda>(fd, s).
     if fd < 0 then Inr (-1, s) else bnd (filedup f s) (\<lambda>(_, s). Inr (fd, s))))"

definition sys_read :: "(int \<Rightarrow> 'a file_st_scheme devops) \<Rightarrow> 'a file_st_scheme \<Rightarrow> (int \<times> 'a file_st_scheme) res" where
  "sys_read devsw s = with_arg (argfd 0 s) s (\<lambda>(_, f). with_arg (argint 2 s) s (\<lambda>n. with_arg (argptr 1 n s) s (\<lambda>p.
     bnd (fileread devsw f n s) (\<lambda>(r, bs, s). bnd (ustore_bytes p bs s) (\<lambda>s. Inr (r, s))))))"

definition sys_write :: "(int \<Rightarrow> 'a file_st_scheme devops) \<Rightarrow> 'a file_st_scheme \<Rightarrow> (int \<times> 'a file_st_scheme) res" where
  "sys_write devsw s = with_arg (argfd 0 s) s (\<lambda>(_, f). with_arg (argint 2 s) s (\<lambda>n. with_arg (argptr 1 n s) s (\<lambda>p.
     bnd (uload_bytes p (nat n) s) (\<lambda>bs. filewrite devsw f bs s))))"

definition sys_close :: "'a file_st_scheme \<Rightarrow> (int \<times> 'a file_st_scheme) res" where
  "sys_close s = with_arg (argfd 0 s) s (\<lambda>(fd, f).
     bnd (clear_fd fd s) (\<lambda>s. bnd (fileclose f s) (\<lambda>s. Inr (0, s))))"

text \<open>\<open>struct stat\<close> in user memory: the two 2-byte members are followed by padding.\<close>

definition ustore_stat :: "u32 \<Rightarrow> fstat \<Rightarrow> 'a kmem_st_scheme \<Rightarrow> 'a kmem_st_scheme res" where
  "ustore_stat a st s =
     (let half = (\<lambda>w. bytes_at (put16 0 w (\<lambda>_. 0)) 0 2) in
      bnd (ustore_bytes a (half (st_type st)) s) (\<lambda>s.
      bnd (ustore32 (a + 4) (uint_of_int (st_dev st)) s) (\<lambda>s.
      bnd (ustore32 (a + 8) (st_ino st) s) (\<lambda>s.
      bnd (ustore_bytes (a + 12) (half (st_nlink st)) s) (\<lambda>s.
      ustore32 (a + 16) (st_size st) s)))))"

definition sys_fstat :: "'a file_st_scheme \<Rightarrow> (int \<times> 'a file_st_scheme) res" where
  "sys_fstat s = with_arg (argfd 0 s) s (\<lambda>(_, f). with_arg (argptr 1 20 s) s (\<lambda>p.
     bnd (filestat f s) (\<lambda>(r, st, s). case st of
        None \<Rightarrow> Inr (r, s) | Some st \<Rightarrow> bnd (ustore_stat p st s) (\<lambda>s. Inr (r, s)))))"

section \<open>Links\<close>

definition fail_op :: "'a file_st_scheme \<Rightarrow> (int \<times> 'a file_st_scheme) res" where
  "fail_op s = bnd (end_op s) (\<lambda>s. Inr (-1, s))"

definition link_bad :: "nat \<Rightarrow> 'a file_st_scheme \<Rightarrow> (int \<times> 'a file_st_scheme) res" where
  "link_bad ip s =
     bnd (ilock (Some ip) s) (\<lambda>s.
     bnd (iupdate ip (modi ip (\<lambda>i. i\<lparr>i_nlink := i_nlink i - 1\<rparr>) s)) (\<lambda>s.
     bnd (iunlockput ip s) fail_op))"

definition sys_link :: "'a file_st_scheme \<Rightarrow> (int \<times> 'a file_st_scheme) res" where
  "sys_link s = with_arg (argstr 0 s) s (\<lambda>old. with_arg (argstr 1 s) s (\<lambda>new.
     bnd (begin_op s) (\<lambda>s.
     bnd (namei old s) (\<lambda>(r, s). case r of
       None \<Rightarrow> fail_op s
     | Some ip \<Rightarrow>
         bnd (ilock (Some ip) s) (\<lambda>s.
         if i_type (inode_at s ip) = T_DIR then bnd (iunlockput ip s) fail_op
         else bnd (iupdate ip (modi ip (\<lambda>i. i\<lparr>i_nlink := i_nlink i + 1\<rparr>) s)) (\<lambda>s.
           bnd (iunlock (Some ip) s) (\<lambda>s.
           bnd (nameiparent new s) (\<lambda>(r, name, s). case r of
             None \<Rightarrow> link_bad ip s
           | Some dp \<Rightarrow>
               bnd (ilock (Some dp) s) (\<lambda>s.
               bnd (if i_dev (inode_at s dp) \<noteq> i_dev (inode_at s ip) then Inr (-1, s)
                    else dirlink dp name (i_inum (inode_at s ip)) s) (\<lambda>(r, s).
               if r < 0 then bnd (iunlockput dp s) (link_bad ip)
               else bnd (iunlockput dp s) (\<lambda>s.
                    bnd (iput ip s) (\<lambda>s.
                    bnd (end_op s) (\<lambda>s. Inr (0, s))))))))))))))"

function isdirempty_loop :: "nat \<Rightarrow> nat \<Rightarrow> nat \<Rightarrow> 'a fs_st_scheme \<Rightarrow> (bool \<times> 'a fs_st_scheme) res" where
  "isdirempty_loop dp off sz s =
     (if \<not> off < sz then Inr (True, s)
      else bnd (readi_file dp (of_nat off) 16 s) (\<lambda>(r, bs, s).
        if r \<noteq> 16 then Inl (Panic ''isdirempty: readi'')
        else if de_inum (dirent_of bs) \<noteq> 0 then Inr (False, s)
        else isdirempty_loop dp (off + 16) sz s))"
  by pat_completeness auto

termination
  by (relation "measure (\<lambda>(dp, off, sz, s). sz - off)") auto

declare isdirempty_loop.simps [simp del]

definition isdirempty :: "nat \<Rightarrow> 'a fs_st_scheme \<Rightarrow> (bool \<times> 'a fs_st_scheme) res" where
  "isdirempty dp s = isdirempty_loop dp (2 * 16) (unat (i_size (inode_at s dp))) s"

definition unlink_bad :: "nat \<Rightarrow> 'a file_st_scheme \<Rightarrow> (int \<times> 'a file_st_scheme) res" where
  "unlink_bad dp s = bnd (iunlockput dp s) fail_op"

text \<open>The rest of \<open>sys_unlink\<close> once the entry at \<open>off\<close> of \<open>dp\<close> may be removed.\<close>

definition unlink_entry :: "nat \<Rightarrow> nat \<Rightarrow> u32 \<Rightarrow> 'a file_st_scheme \<Rightarrow> (int \<times> 'a file_st_scheme) res" where
  "unlink_entry dp ip off s =
     bnd (writei_file dp (replicate 16 0) off s) (\<lambda>(r, s).
     if r \<noteq> 16 then Inl (Panic ''unlink: writei'')
     else bnd (if i_type (inode_at s ip) = T_DIR
               then iupdate dp (modi dp (\<lambda>i. i\<lparr>i_nlink := i_nlink i - 1\<rparr>) s) else Inr s) (\<lambda>s.
       bnd (iunlockput dp s) (\<lambda>s.
       bnd (iupdate ip (modi ip (\<lambda>i. i\<lparr>i_nlink := i_nlink i - 1\<rparr>) s)) (\<lambda>s.
       bnd (iunlockput ip s) (\<lambda>s.
       bnd (end_op s) (\<lambda>s. Inr (0, s)))))))"

definition DOT :: u8 where "DOT = 46"

definition sys_unlink :: "'a file_st_scheme \<Rightarrow> (int \<times> 'a file_st_scheme) res" where
  "sys_unlink s = with_arg (argstr 0 s) s (\<lambda>path.
     bnd (begin_op s) (\<lambda>s.
     bnd (nameiparent path s) (\<lambda>(r, name, s). case r of
       None \<Rightarrow> fail_op s
     | Some dp \<Rightarrow>
         bnd (ilock (Some dp) s) (\<lambda>s.
         if namecmp name [DOT] = 0 \<or> namecmp name [DOT, DOT] = 0 then unlink_bad dp s
         else bnd (dirlookup dp name s) (\<lambda>(r, s). case r of
           None \<Rightarrow> unlink_bad dp s
         | Some (ip, off) \<Rightarrow>
             bnd (ilock (Some ip) s) (\<lambda>s.
             if sint (i_nlink (inode_at s ip)) < 1 then Inl (Panic ''unlink: nlink < 1'')
             else bnd (if i_type (inode_at s ip) = T_DIR then isdirempty ip s else Inr (True, s)) (\<lambda>(ok, s).
               if \<not> ok then bnd (iunlockput ip s) (unlink_bad dp) else unlink_entry dp ip off s)))))))"

section \<open>Creating and opening\<close>

text \<open>
  The part of \<open>create\<close> that makes a new inode in \<open>dp\<close>. \<open>ialloc\<close> panics when there is none left, so
  it never returns a null pointer.
\<close>

definition create_new :: "nat \<Rightarrow> u8 list \<Rightarrow> u16 \<Rightarrow> u16 \<Rightarrow> u16 \<Rightarrow> 'a fs_st_scheme \<Rightarrow> (nat \<times> 'a fs_st_scheme) res" where
  "create_new dp name type major minor s =
     bnd (ialloc (i_dev (inode_at s dp)) type s) (\<lambda>(ip, s).
     bnd (ilock (Some ip) s) (\<lambda>s.
     bnd (iupdate ip (modi ip (\<lambda>i. i\<lparr>i_major := major, i_minor := minor, i_nlink := 1\<rparr>) s)) (\<lambda>s.
     bnd (if type = T_DIR
          then bnd (iupdate dp (modi dp (\<lambda>i. i\<lparr>i_nlink := i_nlink i + 1\<rparr>) s)) (\<lambda>s.
               bnd (dirlink ip [DOT] (i_inum (inode_at s ip)) s) (\<lambda>(r, s).
               if r < 0 then Inl (Panic ''create dots'')
               else bnd (dirlink ip [DOT, DOT] (i_inum (inode_at s dp)) s) (\<lambda>(r, s).
                 if r < 0 then Inl (Panic ''create dots'') else Inr s)))
          else Inr s) (\<lambda>s.
     bnd (dirlink dp name (i_inum (inode_at s ip)) s) (\<lambda>(r, s).
     if r < 0 then Inl (Panic ''create: dirlink'')
     else bnd (iunlockput dp s) (\<lambda>s. Inr (ip, s)))))))"

definition create :: "u8 list \<Rightarrow> u16 \<Rightarrow> u16 \<Rightarrow> u16 \<Rightarrow> 'a fs_st_scheme \<Rightarrow> (nat option \<times> 'a fs_st_scheme) res" where
  "create path type major minor s =
     bnd (nameiparent path s) (\<lambda>(r, name, s). case r of
       None \<Rightarrow> Inr (None, s)
     | Some dp \<Rightarrow>
         bnd (ilock (Some dp) s) (\<lambda>s.
         bnd (dirlookup dp name s) (\<lambda>(r, s). case r of
           Some (ip, _) \<Rightarrow>
             bnd (iunlockput dp s) (\<lambda>s.
             bnd (ilock (Some ip) s) (\<lambda>s.
             if type = T_FILE \<and> i_type (inode_at s ip) = T_FILE then Inr (Some ip, s)
             else bnd (iunlockput ip s) (\<lambda>s. Inr (None, s))))
         | None \<Rightarrow> bnd (create_new dp name type major minor s) (\<lambda>(ip, s). Inr (Some ip, s)))))"

text \<open>The inode that \<open>sys_open\<close> opens, locked, or \<^term>\<open>None\<close> after the transaction is closed.\<close>

definition open_inode :: "u8 list \<Rightarrow> int \<Rightarrow> 'a file_st_scheme \<Rightarrow> (nat option \<times> 'a file_st_scheme) res" where
  "open_inode path omode s =
     (if uint_of_int omode AND O_CREATE \<noteq> 0
      then bnd (create path T_FILE 0 0 s) (\<lambda>(r, s). case r of
             None \<Rightarrow> bnd (end_op s) (\<lambda>s. Inr (None, s)) | Some ip \<Rightarrow> Inr (Some ip, s))
      else bnd (namei path s) (\<lambda>(r, s). case r of
             None \<Rightarrow> bnd (end_op s) (\<lambda>s. Inr (None, s))
           | Some ip \<Rightarrow>
               bnd (ilock (Some ip) s) (\<lambda>s.
               if i_type (inode_at s ip) = T_DIR \<and> omode \<noteq> O_RDONLY
               then bnd (iunlockput ip s) (\<lambda>s. bnd (end_op s) (\<lambda>s. Inr (None, s)))
               else Inr (Some ip, s))))"

definition open_fail :: "nat option \<Rightarrow> nat \<Rightarrow> 'a file_st_scheme \<Rightarrow> (int \<times> 'a file_st_scheme) res" where
  "open_fail f ip s = bnd (close_opt f s) (\<lambda>s. bnd (iunlockput ip s) fail_op)"

text \<open>The rest of \<open>sys_open\<close> with the inode \<open>ip\<close> locked.\<close>

definition open_file :: "nat \<Rightarrow> int \<Rightarrow> 'a file_st_scheme \<Rightarrow> (int \<times> 'a file_st_scheme) res" where
  "open_file ip omode s =
     (case filealloc s of
        (None, s) \<Rightarrow> open_fail None ip s
      | (Some f, s) \<Rightarrow>
          bnd (fdalloc f s) (\<lambda>(fd, s).
          if fd < 0 then open_fail (Some f) ip s
          else bnd (iunlock (Some ip) s) (\<lambda>s.
            bnd (end_op s) (\<lambda>s.
            let m = uint_of_int omode in
            Inr (fd, modf f (\<lambda>x. x\<lparr>f_type := FD_INODE, f_ip := Some ip, f_off := 0,
              f_readable := (if m AND O_WRONLY = 0 then 1 else 0),
              f_writable := (if m AND O_WRONLY \<noteq> 0 \<or> m AND O_RDWR \<noteq> 0 then 1 else 0)\<rparr>) s)))))"

definition sys_open :: "'a file_st_scheme \<Rightarrow> (int \<times> 'a file_st_scheme) res" where
  "sys_open s = with_arg (argstr 0 s) s (\<lambda>path. with_arg (argint 1 s) s (\<lambda>omode.
     bnd (begin_op s) (\<lambda>s.
     bnd (open_inode path omode s) (\<lambda>(r, s). case r of None \<Rightarrow> Inr (-1, s) | Some ip \<Rightarrow> open_file ip omode s))))"

definition made :: "nat option \<times> 'a file_st_scheme \<Rightarrow> (int \<times> 'a file_st_scheme) res" where
  "made r = (case r of (None, s) \<Rightarrow> fail_op s
     | (Some ip, s) \<Rightarrow> bnd (iunlockput ip s) (\<lambda>s. bnd (end_op s) (\<lambda>s. Inr (0, s))))"

definition sys_mkdir :: "'a file_st_scheme \<Rightarrow> (int \<times> 'a file_st_scheme) res" where
  "sys_mkdir s =
     bnd (begin_op s) (\<lambda>s.
     bnd (argstr 0 s) (\<lambda>r. case r of
       None \<Rightarrow> fail_op s | Some path \<Rightarrow> bnd (create path T_DIR 0 0 s) made))"

definition sys_mknod :: "'a file_st_scheme \<Rightarrow> (int \<times> 'a file_st_scheme) res" where
  "sys_mknod s =
     bnd (begin_op s) (\<lambda>s.
     bnd (argstr 0 s) (\<lambda>r. case r of None \<Rightarrow> fail_op s | Some path \<Rightarrow>
     bnd (argint 1 s) (\<lambda>r. case r of None \<Rightarrow> fail_op s | Some major \<Rightarrow>
     bnd (argint 2 s) (\<lambda>r. case r of None \<Rightarrow> fail_op s | Some minor \<Rightarrow>
     bnd (create path T_DEV (word_of_int major) (word_of_int minor) s) made))))"

definition sys_chdir :: "'a file_st_scheme \<Rightarrow> (int \<times> 'a file_st_scheme) res" where
  "sys_chdir s =
     bnd (deref (cpu_proc s)) (\<lambda>cur.
     bnd (begin_op s) (\<lambda>s.
     bnd (argstr 0 s) (\<lambda>r. case r of
       None \<Rightarrow> fail_op s
     | Some path \<Rightarrow>
         bnd (namei path s) (\<lambda>(r, s). case r of
           None \<Rightarrow> fail_op s
         | Some ip \<Rightarrow>
             bnd (ilock (Some ip) s) (\<lambda>s.
             if i_type (inode_at s ip) \<noteq> T_DIR then bnd (iunlockput ip s) fail_op
             else bnd (iunlock (Some ip) s) (\<lambda>s.
               bnd (deref (p_cwd (proc_at s cur))) (\<lambda>cwd.
               bnd (iput cwd s) (\<lambda>s.
               bnd (end_op s) (\<lambda>s. Inr (0, modp cur (\<lambda>p. p\<lparr>p_cwd := Some ip\<rparr>) s))))))))))"

section \<open>exec and pipe\<close>

text \<open>The loop of \<open>sys_exec\<close> over the argument vector at \<open>uargv\<close>, with \<open>n\<close> slots of \<open>argv\<close> left.\<close>

fun exec_argv :: "nat \<Rightarrow> u32 \<Rightarrow> 'a kmem_st_scheme \<Rightarrow> u8 list list option res" where
  "exec_argv 0 uargv s = Inr None"
| "exec_argv (Suc n) uargv s =
     bnd (fetchint uargv s) (\<lambda>r. case r of
       None \<Rightarrow> Inr None
     | Some uarg \<Rightarrow>
         if uarg = 0 then Inr (Some [])
         else bnd (fetchstr (uint_of_int uarg) s) (\<lambda>r. case r of
           None \<Rightarrow> Inr None
         | Some arg \<Rightarrow> bnd (exec_argv n (uargv + 4) s) (\<lambda>r. Inr (map_option ((#) arg) r))))"

definition sys_exec :: "(int \<Rightarrow> 'a file_st_scheme devops) \<Rightarrow> 'a file_st_scheme \<Rightarrow> (int \<times> 'a file_st_scheme) res" where
  "sys_exec devsw s = with_arg (argstr 0 s) s (\<lambda>path. with_arg (argint 1 s) s (\<lambda>uargv.
     with_arg (exec_argv MAXARG (uint_of_int uargv) s) s (\<lambda>argv. exec devsw path argv s)))"

text \<open>The part of \<open>sys_pipe\<close> that gives the two files of the pipe descriptors, and its way back.\<close>

definition pipe_undo :: "int \<Rightarrow> nat \<Rightarrow> nat \<Rightarrow> 'a file_st_scheme \<Rightarrow> (int \<times> 'a file_st_scheme) res" where
  "pipe_undo fd0 rdf wrf s =
     bnd (if fd0 \<ge> 0 then clear_fd (nat fd0) s else Inr s) (\<lambda>s.
     bnd (fileclose rdf s) (\<lambda>s.
     bnd (fileclose wrf s) (\<lambda>s. Inr (-1, s))))"

definition pipe_fds :: "u32 \<Rightarrow> nat \<Rightarrow> nat \<Rightarrow> 'a file_st_scheme \<Rightarrow> (int \<times> 'a file_st_scheme) res" where
  "pipe_fds fd rdf wrf s =
     bnd (fdalloc rdf s) (\<lambda>(fd0, s).
     bnd (if fd0 < 0 then Inr (-1, s) else fdalloc wrf s) (\<lambda>(fd1, s).
     if fd0 < 0 \<or> fd1 < 0 then pipe_undo fd0 rdf wrf s
     else bnd (ustore32 fd (uint_of_int fd0) s) (\<lambda>s.
          bnd (ustore32 (fd + 4) (uint_of_int fd1) s) (\<lambda>s. Inr (0, s)))))"

definition sys_pipe :: "'a file_st_scheme \<Rightarrow> (int \<times> 'a file_st_scheme) res" where
  "sys_pipe s = with_arg (argptr 0 8 s) s (\<lambda>fd.
     bnd (pipealloc s) (\<lambda>(r, rdf, wrf, s).
     if r < 0 then Inr (-1, s) else bnd (deref rdf) (\<lambda>rdf. bnd (deref wrf) (\<lambda>wrf. pipe_fds fd rdf wrf s))))"

end
