(* ===== verification/Printf.thy ===== *)
theory Printf
  imports Cstring
begin

text \<open>
  Formatted output: \<open>printint\<close> and \<open>cprintf\<close> of \<open>console.c\<close>, and \<open>printint\<close> and \<open>printf\<close> of the user
  library, \<open>printf.c\<close>. The result is the list of bytes handed to \<open>consputc\<close> or \<open>putc\<close>. A variable
  argument is a word or a pointer to a string; reading a pointer as a number, or an argument that
  was not passed, is a fault. The main result is that a printed number reads back with \<open>atoi\<close>.
\<close>

section \<open>Numbers\<close>

text \<open>The only bases in use.\<close>

datatype radix = Dec | Hex

fun base_of :: "radix \<Rightarrow> u32" where
  "base_of Dec = 10"
| "base_of Hex = 16"

definition kdigits :: "u8 list" where
  "kdigits = [48, 49, 50, 51, 52, 53, 54, 55, 56, 57, 97, 98, 99, 100, 101, 102]"

definition udigits :: "u8 list" where
  "udigits = [48, 49, 50, 51, 52, 53, 54, 55, 56, 57, 65, 66, 67, 68, 69, 70]"

lemma div_base: "x div base_of r \<noteq> 0 \<Longrightarrow> unat (x div base_of r) < unat x"
proof -
  assume "x div base_of r \<noteq> 0"
  then have "0 < unat x" by (metis div_0 unat_gt_0)
  then show ?thesis by (cases r) (simp_all add: unat_div_distrib)
qed

text \<open>The loop that fills \<open>buf\<close>, least digit first.\<close>

function digit_loop :: "u8 list \<Rightarrow> radix \<Rightarrow> u32 \<Rightarrow> u8 list" where
  "digit_loop digits r x =
     digits ! unat (x mod base_of r) # (if x div base_of r \<noteq> 0 then digit_loop digits r (x div base_of r) else [])"
  by pat_completeness auto

termination
  by (relation "measure (\<lambda>(digits, r, x). unat x)") (auto simp: div_base)

declare digit_loop.simps [simp del]

definition MINUS :: u8 where "MINUS = 45"

definition printint :: "u8 list \<Rightarrow> int \<Rightarrow> radix \<Rightarrow> bool \<Rightarrow> u8 list" where
  "printint digits xx r sign =
     (let neg = (sign \<and> xx < 0);
          x = (if neg then uint_of_int (- xx) else uint_of_int xx);
          buf = digit_loop digits r x @ (if neg then [MINUS] else [])
      in rev buf)"

section \<open>Formats\<close>

datatype parg = Word u32 | Ptr "u8 list option"

definition word_arg :: "parg list \<Rightarrow> (u32 \<times> parg list) res" where
  "word_arg args = (case args of Word w # args \<Rightarrow> Inr (w, args) | _ \<Rightarrow> Inl (Wild ''argument''))"

definition null_str :: "u8 list" where "null_str = [40, 110, 117, 108, 108, 41]"

definition str_arg :: "parg list \<Rightarrow> (u8 list \<times> parg list) res" where
  "str_arg args = (case args of
     Ptr (Some str) # args \<Rightarrow> Inr (str, args)
   | Ptr None # args \<Rightarrow> Inr (null_str, args)
   | Word w # args \<Rightarrow> if w = 0 then Inr (null_str, args) else Inl (Wild ''argument'')
   | [] \<Rightarrow> Inl (Wild ''argument''))"

definition emit :: "u8 list \<Rightarrow> u8 list res \<Rightarrow> u8 list res" where
  "emit out m = bnd m (\<lambda>rest. Inr (out @ rest))"

abbreviation PERCENT :: u8 where "PERCENT \<equiv> 37"

text \<open>\<open>cprintf\<close>: the characters 100, 120, 112 and 115 are \<open>d\<close>, \<open>x\<close>, \<open>p\<close> and \<open>s\<close>.\<close>

fun cprintf :: "u8 list \<Rightarrow> parg list \<Rightarrow> u8 list res" where
  "cprintf [] args = Inr []"
| "cprintf [c] args = (if c \<noteq> PERCENT then Inr [c] else Inr [])"
| "cprintf (c # d # fmt) args =
     (if c \<noteq> PERCENT then emit [c] (cprintf (d # fmt) args)
      else if d = 100 then bnd (word_arg args) (\<lambda>(w, args). emit (printint kdigits (int_of_uint w) Dec True) (cprintf fmt args))
      else if d = 120 \<or> d = 112 then bnd (word_arg args) (\<lambda>(w, args). emit (printint kdigits (int_of_uint w) Hex False) (cprintf fmt args))
      else if d = 115 then bnd (str_arg args) (\<lambda>(str, args). emit str (cprintf fmt args))
      else if d = PERCENT then emit [PERCENT] (cprintf fmt args)
      else emit [PERCENT, d] (cprintf fmt args))"

text \<open>
  \<open>printf\<close> of the user library, with its variable \<open>state\<close>: whether a percent sign came before. The
  character 99 is \<open>c\<close>.
\<close>

fun printf :: "bool \<Rightarrow> u8 list \<Rightarrow> parg list \<Rightarrow> u8 list res" where
  "printf state [] args = Inr []"
| "printf state (c # fmt) args =
     (if \<not> state then if c = PERCENT then printf True fmt args else emit [c] (printf False fmt args)
      else if c = 100 then bnd (word_arg args) (\<lambda>(w, args). emit (printint udigits (int_of_uint w) Dec True) (printf False fmt args))
      else if c = 120 \<or> c = 112 then bnd (word_arg args) (\<lambda>(w, args). emit (printint udigits (int_of_uint w) Hex False) (printf False fmt args))
      else if c = 115 then bnd (str_arg args) (\<lambda>(str, args). emit str (printf False fmt args))
      else if c = 99 then bnd (word_arg args) (\<lambda>(w, args). emit [ucast w] (printf False fmt args))
      else if c = PERCENT then emit [c] (printf False fmt args)
      else emit [PERCENT, c] (printf False fmt args))"

section \<open>Digits and their value\<close>

definition value_of :: "nat \<Rightarrow> u8 list \<Rightarrow> nat" where
  "value_of b ds = foldl (\<lambda>n d. n * b + (if d \<le> 57 then unat d - 48 else if d \<le> 70 then unat d - 55 else unat d - 87)) 0 ds"

lemma value_of_snoc:
  "value_of b (ds @ [d]) = value_of b ds * b + (if d \<le> 57 then unat d - 48 else if d \<le> 70 then unat d - 55 else unat d - 87)"
  by (simp add: value_of_def)

lemma digit_value:
  assumes "k < 16" "digits = kdigits \<or> digits = udigits"
  shows "(if digits ! k \<le> 57 then unat (digits ! k) - 48
          else if digits ! k \<le> 70 then unat (digits ! k) - 55 else unat (digits ! k) - 87) = k"
proof -
  have "k \<in> {0, 1, 2, 3, 4, 5, 6, 7, 8, 9, 10, 11, 12, 13, 14, 15}" using assms(1) by simp presburger
  then show ?thesis using assms(2) by (elim insertE; elim disjE) (simp_all add: kdigits_def udigits_def)
qed

lemma digit_less: "unat (x mod base_of r) < 16"
  by (cases r) (simp_all add: unat_mod_distrib)

lemma value_digit_loop:
  "digits = kdigits \<or> digits = udigits \<Longrightarrow> value_of (unat (base_of r)) (rev (digit_loop digits r x)) = unat x"
proof (induction digits r x rule: digit_loop.induct)
  case (1 digits r x)
  let ?b = "base_of r"
  have "value_of (unat ?b) (rev (digit_loop digits r x)) = unat (x div ?b) * unat ?b + unat (x mod ?b)"
  proof (cases "x div ?b = 0")
    case True
    then show ?thesis using 1(2) by (subst digit_loop.simps) (simp add: value_of_snoc [of _ "[]", simplified] digit_value digit_less value_of_def)
  next
    case False
    then show ?thesis using 1 by (subst digit_loop.simps) (simp add: value_of_snoc digit_value digit_less)
  qed
  then show ?case by (simp add: unat_div_distrib unat_mod_distrib)
qed

lemma digit_loop_decimal:
  "digits = kdigits \<or> digits = udigits \<Longrightarrow> d \<in> set (digit_loop digits Dec x) \<Longrightarrow> 48 \<le> d \<and> d \<le> 57"
proof (induction digits Dec x rule: digit_loop.induct)
  case (1 digits x)
  have "unat (x mod 10) \<in> {0, 1, 2, 3, 4, 5, 6, 7, 8, 9}"
    using unat_mod_distrib [of x 10] by simp presburger
  then have "48 \<le> digits ! unat (x mod 10) \<and> digits ! unat (x mod 10) \<le> 57"
    using 1(2) by (elim insertE; elim disjE) (simp_all add: kdigits_def udigits_def)
  with 1 show ?case by (subst (asm) (2) digit_loop.simps) (auto split: if_splits)
qed

lemma digit_loop_ne [simp]: "digit_loop digits r x \<noteq> []"
  by (subst digit_loop.simps) simp

section \<open>Reading a number back\<close>

abbreviation dec :: "nat \<Rightarrow> u8 list \<Rightarrow> nat" where
  "dec n ds \<equiv> foldl (\<lambda>n d. n * 10 + (unat d - 48)) n ds"

lemma dec_mono: "n \<le> dec n ds"
proof (induction ds arbitrary: n)
  case (Cons d ds)
  from Cons.IH [of "n * 10 + (unat d - 48)"] show ?case by simp
qed simp

lemma atoi_loop_digits:
  assumes "bytes_at m p (length ds) = ds" "\<forall>d \<in> set ds. 48 \<le> d \<and> d \<le> 57"
    and "\<not> (48 \<le> m (p + length ds) \<and> m (p + length ds) \<le> 57)" "ds \<noteq> []"
  shows "atoi_loop m p (int n) = (if dec n ds + 48 \<le> 2147483647 then Some (int (dec n ds)) else None)"
  using assms
proof (induction ds arbitrary: p n)
  case (Cons d ds)
  have b: "m p = d" "bytes_at m (p + 1) (length ds) = ds"
    using Cons.prems(1) by (simp_all add: bytes_at_def upt_conv_Cons map_Suc_upt [symmetric] comp_def del: upt_Suc)
  let ?n = "n * 10 + (unat d - 48)"
  have "48 \<le> unat d" using Cons.prems(2) by (simp add: word_le_nat_alt)
  then have e: "int n * 10 + uint d - 48 = int ?n" by (simp add: of_nat_diff)
  have step: "atoi_loop m p (int n) = (if ?n + 48 > 2147483647 then None else atoi_loop m (p + 1) (int ?n))"
  proof -
    have "atoi_loop m p (int n) = (if int n * 10 + uint d > 2147483647 then None
        else atoi_loop m (p + 1) (int n * 10 + uint d - 48))"
      using Cons.prems(2) b by (subst atoi_loop.simps) simp
    moreover have "int n * 10 + uint d > 2147483647 \<longleftrightarrow> ?n + 48 > 2147483647" using e by linarith
    ultimately show ?thesis unfolding e by simp
  qed
  show ?case
  proof (cases ds)
    case Nil
    then have "atoi_loop m (p + 1) (int ?n) = Some (int ?n)"
      using Cons.prems(3) by (subst atoi_loop.simps) auto
    then show ?thesis unfolding step by (auto simp: Nil)
  next
    case (Cons d' ds')
    have "?n * 10 \<le> dec ?n ds" using dec_mono [of "?n * 10 + (unat d' - 48)" ds'] by (simp add: Cons)
    moreover have "2147483647 < a + 48 \<Longrightarrow> a * 10 \<le> b \<Longrightarrow> \<not> b + 48 \<le> 2147483647" for a b :: nat by linarith
    ultimately have big: "\<not> dec ?n ds + 48 \<le> 2147483647" if "?n + 48 > 2147483647" using that by blast
    have "atoi_loop m (p + 1) (int ?n) = (if dec ?n ds + 48 \<le> 2147483647 then Some (int (dec ?n ds)) else None)"
      using Cons.IH [of "p + 1" ?n] Cons.prems(2,3) b Cons by simp
    then show ?thesis unfolding step using big by auto
  qed
qed simp

lemma value_of_decimal:
  "\<forall>d \<in> set ds. d \<le> 57 \<Longrightarrow> value_of 10 ds = foldl (\<lambda>n d. n * 10 + (unat d - 48)) 0 ds"
  unfolding value_of_def by (rule foldl_cong) auto

section \<open>Properties\<close>

text \<open>
  (C26) A printed number reads back. \<open>printint\<close> of the kernel or the user library prints an \<open>int\<close> in decimal as
  a minus sign, exactly for a negative number, and the digits of its absolute value. \<open>atoi\<close> of the user library, which knows no sign, applied to the
  digits as a C string anywhere in memory, returns the absolute value, as long as that is at most
  \<open>INT_MAX - 48\<close>. Above it the sum \<open>n*10 + *s\<close>, from which \<open>'0'\<close> is subtracted only afterwards, is no
  longer an \<open>int\<close>, and what \<open>atoi\<close> returns is undefined.
\<close>

theorem printint_atoi_roundtrip:
  assumes "- (2 ^ 31) \<le> xx" "xx < 2 ^ 31" "digits = kdigits \<or> digits = udigits"
    and "cstr m p (printint digits \<bar>xx\<bar> Dec False)"
  shows "printint digits xx Dec True = (if xx < 0 then [MINUS] else []) @ printint digits \<bar>xx\<bar> Dec False \<and>
    atoi m p = (if \<bar>xx\<bar> + 48 \<le> 2147483647 then Some \<bar>xx\<bar> else None)"
proof
  let ?ds = "printint digits \<bar>xx\<bar> Dec False" and ?x = "uint_of_int \<bar>xx\<bar>"
  show "printint digits xx Dec True = (if xx < 0 then [MINUS] else []) @ ?ds"
    by (auto simp: printint_def Let_def)
  have ds: "?ds = rev (digit_loop digits Dec ?x)" by (simp add: printint_def Let_def)
  have ne: "?ds \<noteq> []" unfolding ds by (subst digit_loop.simps) (simp add: Let_def)
  have dec: "\<forall>d \<in> set ?ds. 48 \<le> d \<and> d \<le> 57" unfolding ds using digit_loop_decimal [OF assms(3)] by simp
  have x: "unat ?x = nat \<bar>xx\<bar>"
    using assms(1,2) by (simp add: uint_of_int_def unsigned_of_int nat_take_bit_eq take_bit_nat_eq_self)
  have v: "dec 0 ?ds = nat \<bar>xx\<bar>"
    using value_of_decimal [of ?ds] value_digit_loop [OF assms(3), of Dec ?x] dec by (simp add: ds x)
  have "atoi_loop m p (int 0) = (if dec 0 ?ds + 48 \<le> 2147483647 then Some (int (dec 0 ?ds)) else None)"
    using assms(4) dec ne by (intro atoi_loop_digits) (auto simp: cstr_def)
  then show "atoi m p = (if \<bar>xx\<bar> + 48 \<le> 2147483647 then Some \<bar>xx\<bar> else None)"
    unfolding v by (auto simp: atoi_def)
qed

theorem printint_atoi_roundtrip_witness:
  "printint udigits (- 42) Dec True = [45, 52, 50] \<and> atoi (mem_of [52, 50]) 0 = Some 42"
proof -
  have d: "printint udigits 42 Dec False = [52, 50]"
    by (simp add: printint_def Let_def digit_loop.simps uint_of_int_def udigits_def)
  have c: "cstr (mem_of [52, 50]) 0 [52, 50]"
    by (simp add: cstr_def bytes_at_def mem_of_def put_bytes_def)
  show ?thesis
    using printint_atoi_roundtrip [of "- 42" udigits "mem_of [52, 50]" 0] c by (simp add: d MINUS_def)
qed

end
