(* ===== verification/Console.thy ===== *)
theory Console
  imports Sysfile Printf
begin

text \<open>
  The console, \<open>console.c\<close>, with the serial port, \<open>uart.c\<close>: output to the screen memory and the port,
  line editing of the input in \<open>consoleintr\<close>, and the device functions \<open>consoleread\<close> and
  \<open>consolewrite\<close> that fill the device switch. What the hardware delivers is an argument: the codes
  that \<open>getc\<close> returns. The port's output is recorded; the loop that waits for the port to be ready
  only passes time. The cursor position is what the two registers of the display hold.
\<close>

section \<open>State\<close>

definition INPUT_BUF :: nat where "INPUT_BUF = 128"
definition BACKSPACE :: int where "BACKSPACE = 0x100"
definition CONSOLE :: int where "CONSOLE = 1"

record cons_st = file_st +
  panicked :: int
  cons_locking :: int
  uart :: int
  uart_out :: "u8 list"
  crt :: "nat \<Rightarrow> u16"
  cga_pos :: int
  in_buf :: "nat \<Rightarrow> u8"
  in_r :: u32
  in_w :: u32
  in_e :: u32
  kbd_shift :: u32

section \<open>Output\<close>

definition uartputc :: "int \<Rightarrow> 'a cons_st_scheme \<Rightarrow> 'a cons_st_scheme" where
  "uartputc c s = (if uart s = 0 then s else s\<lparr>uart_out := uart_out s @ [word_of_int c]\<rparr>)"

text \<open>\<open>cgaputc\<close>: the cell at the cursor, the new position, scrolling by one row of 80 cells.\<close>

definition cga_place :: "int \<Rightarrow> 'a cons_st_scheme \<Rightarrow> int \<times> (nat \<Rightarrow> u16)" where
  "cga_place c s =
     (let pos = cga_pos s in
      if c = 10 then (pos + (80 - pos mod 80), crt s)
      else if c = BACKSPACE then (if pos > 0 then pos - 1 else pos, crt s)
      else (pos + 1, (crt s)(nat pos := (word_of_int c AND 0xFF) OR 0x0700)))"

definition cga_scroll :: "int \<Rightarrow> (nat \<Rightarrow> u16) \<Rightarrow> int \<times> (nat \<Rightarrow> u16)" where
  "cga_scroll pos m =
     (if pos div 80 \<ge> 24
      then let m = (\<lambda>i. if i < 23 * 80 then m (i + 80) else m i); pos = pos - 80
           in (pos, \<lambda>i. if nat pos \<le> i \<and> i < 24 * 80 then 0 else m i)
      else (pos, m))"

definition cgaputc :: "int \<Rightarrow> 'a cons_st_scheme \<Rightarrow> 'a cons_st_scheme res" where
  "cgaputc c s =
     (case cga_place c s of (pos, m) \<Rightarrow>
      if pos < 0 \<or> pos > 25 * 80 then Inl (Panic ''pos under/overflow'')
      else case cga_scroll pos m of (pos, m) \<Rightarrow>
        Inr (s\<lparr>cga_pos := pos, crt := m(nat pos := 0x20 OR 0x0700)\<rparr>))"

text \<open>After a panic the CPU stops here for ever.\<close>

definition consputc :: "int \<Rightarrow> 'a cons_st_scheme \<Rightarrow> 'a cons_st_scheme res" where
  "consputc c s =
     (if panicked s \<noteq> 0 then Inl (Panic ''panicked'')
      else let s = (if c = BACKSPACE then uartputc 8 (uartputc 32 (uartputc 8 s)) else uartputc c s)
           in cgaputc c s)"

fun consputs :: "u8 list \<Rightarrow> 'a cons_st_scheme \<Rightarrow> 'a cons_st_scheme res" where
  "consputs [] s = Inr s"
| "consputs (b # bs) s = bnd (consputc (uint b) s) (consputs bs)"

text \<open>What output leaves alone: everything but the port, the screen and the cursor.\<close>

definition same_but_screen :: "'a cons_st_scheme \<Rightarrow> 'a cons_st_scheme \<Rightarrow> bool" where
  "same_but_screen s s' \<longleftrightarrow>
     s' = s\<lparr>uart_out := uart_out s', crt := crt s', cga_pos := cga_pos s'\<rparr>"

lemma consputc_frame: "consputc c s = Inr s' \<Longrightarrow> same_but_screen s s'"
  by (cases s) (auto simp: same_but_screen_def consputc_def uartputc_def cgaputc_def Let_def split: if_splits prod.splits)

lemma same_but_screenD:
  assumes "same_but_screen s s'"
  shows "in_e s' = in_e s" "in_w s' = in_w s" "in_r s' = in_r s" "in_buf s' = in_buf s"
    "procs s' = procs s" "ticks s' = ticks s" "cpu_proc s' = cpu_proc s" "panicked s' = panicked s"
  by (subst assms [unfolded same_but_screen_def], simp)+

section \<open>Input\<close>

text \<open>The loop of control-U, which kills the line.\<close>

function kill_line :: "'a cons_st_scheme \<Rightarrow> 'a cons_st_scheme res" where
  "kill_line s =
     (if in_e s \<noteq> in_w s \<and> in_buf s (unat (in_e s - 1) mod INPUT_BUF) \<noteq> 10
      then bnd (consputc BACKSPACE (s\<lparr>in_e := in_e s - 1\<rparr>)) kill_line
      else Inr s)"
  by pat_completeness auto

termination
proof (relation "measure (\<lambda>s. unat (in_e s - in_w s))")
  fix s x :: "'a cons_st_scheme"
  assume c: "in_e s \<noteq> in_w s \<and> in_buf s (unat (in_e s - 1) mod INPUT_BUF) \<noteq> 10"
    "consputc BACKSPACE (s\<lparr>in_e := in_e s - 1\<rparr>) = Inr x"
  have "in_e x - in_w x = in_e s - in_w s - 1"
    using same_but_screenD(1,2) [OF consputc_frame [OF c(2)]] by (simp add: algebra_simps)
  moreover have "in_e s - in_w s \<noteq> 0" using c(1) by simp
  ultimately show "(x, s) \<in> measure (\<lambda>s. unat (in_e s - in_w s))"
    by (simp add: unat_minus_one unat_gt_0)
qed simp

declare kill_line.simps [simp del]

text \<open>
  The body of the loop of \<open>consoleintr\<close> for one code: control-P (16) only asks for a listing, control-U
  is 21, control-H and delete are 8 and 127, control-D is 4.
\<close>

definition cons_char :: "int \<Rightarrow> 'a cons_st_scheme \<Rightarrow> (bool \<times> 'a cons_st_scheme) res" where
  "cons_char c s =
     (if c = 16 then Inr (True, s)
      else if c = 21 then bnd (kill_line s) (\<lambda>s. Inr (False, s))
      else if c = 8 \<or> c = 127
      then if in_e s \<noteq> in_w s
           then bnd (consputc BACKSPACE (s\<lparr>in_e := in_e s - 1\<rparr>)) (\<lambda>s. Inr (False, s))
           else Inr (False, s)
      else if c \<noteq> 0 \<and> in_e s - in_r s < of_nat INPUT_BUF
      then let c = (if c = 13 then 10 else c);
               s = s\<lparr>in_buf := (in_buf s)(unat (in_e s) mod INPUT_BUF := word_of_int c), in_e := in_e s + 1\<rparr> in
           bnd (consputc c s) (\<lambda>s.
           Inr (False, if c = 10 \<or> c = 4 \<or> in_e s = in_r s + of_nat INPUT_BUF
                       then wakeup ChInput (s\<lparr>in_w := in_e s\<rparr>) else s))
      else Inr (False, s))"

text \<open>\<open>consoleintr\<close> on the codes that \<open>getc\<close> returns before it has none; then the listing, if asked for.\<close>

fun cons_chars :: "int list \<Rightarrow> bool \<Rightarrow> 'a cons_st_scheme \<Rightarrow> (bool \<times> 'a cons_st_scheme) res" where
  "cons_chars [] dump s = Inr (dump, s)"
| "cons_chars (c # cs) dump s = bnd (cons_char c s) (\<lambda>(d, s). cons_chars cs (dump \<or> d) s)"

definition consoleintr :: "int list \<Rightarrow> 'a cons_st_scheme \<Rightarrow> (dump_line list \<times> 'a cons_st_scheme) res" where
  "consoleintr cs s = bnd (cons_chars cs False s) (\<lambda>(dump, s). Inr (if dump then procdump s else [], s))"

text \<open>
  The loop of \<open>consoleread\<close> with \<open>n\<close> of \<open>target\<close> bytes still to read, up to its end or the next call of
  \<open>sleep\<close>: the bytes stored. It sleeps with a number of bytes left.
\<close>

fun consoleread_loop :: "nat \<Rightarrow> nat \<Rightarrow> 'a cons_st_scheme \<Rightarrow> (nat io \<times> u8 list \<times> 'a cons_st_scheme) res" where
  "consoleread_loop 0 target s = Inr (Ret 0, [], s)"
| "consoleread_loop (Suc n) target s =
     (if in_r s = in_w s
      then bnd (killed s) (\<lambda>k. Inr (if k then Ret (-1) else Sleeps (Suc n), [], s))
      else let c = in_buf s (unat (in_r s) mod INPUT_BUF); s' = s\<lparr>in_r := in_r s + 1\<rparr> in
        if c = 4 then Inr (Ret 0, [], if Suc n < target then s else s')
        else if c = 10 then Inr (Ret 0, [c], s')
        else bnd (consoleread_loop n target s') (\<lambda>(r, bs, s). Inr (r, c # bs, s)))"

definition consoleread :: "nat \<Rightarrow> int \<Rightarrow> 'a cons_st_scheme \<Rightarrow> (int \<times> u8 list \<times> 'a cons_st_scheme) res" where
  "consoleread ip n s =
     bnd (iunlock (Some ip) s) (\<lambda>s.
     bnd (consoleread_loop (nat n) (nat n) s) (\<lambda>(r, bs, s). case r of
       Sleeps _ \<Rightarrow> Inl (Asleep ChInput)
     | Ret v \<Rightarrow> bnd (ilock (Some ip) s) (\<lambda>s. Inr (if v < 0 then -1 else int (length bs), bs, s))))"

definition consolewrite :: "nat \<Rightarrow> u8 list \<Rightarrow> 'a cons_st_scheme \<Rightarrow> (int \<times> 'a cons_st_scheme) res" where
  "consolewrite ip buf s =
     bnd (iunlock (Some ip) s) (\<lambda>s.
     bnd (consputs buf s) (\<lambda>s.
     bnd (ilock (Some ip) s) (\<lambda>s. Inr (int (length buf), s))))"

text \<open>The device switch as \<open>consoleinit\<close> leaves it; no other driver enters itself.\<close>

definition cons_devsw :: "int \<Rightarrow> 'a cons_st_scheme devops" where
  "cons_devsw major =
     (if major = CONSOLE then \<lparr>dev_read = Some consoleread, dev_write = Some consolewrite\<rparr>
      else \<lparr>dev_read = None, dev_write = None\<rparr>)"

definition consoleinit :: "'a cons_st_scheme \<Rightarrow> 'a cons_st_scheme" where
  "consoleinit s = s\<lparr>cons_locking := 1\<rparr>"

text \<open>Reading the serial port: its status and data registers are arguments.\<close>

definition uartgetc :: "int \<Rightarrow> u8 \<Rightarrow> u8 \<Rightarrow> int" where
  "uartgetc has_uart status data =
     (if has_uart = 0 then -1 else if status AND 1 = 0 then -1 else uint data)"

text \<open>The interrupt hands the bytes of the port to the console; without a port there are none.\<close>

definition uartintr :: "u8 list \<Rightarrow> 'a cons_st_scheme \<Rightarrow> (dump_line list \<times> 'a cons_st_scheme) res" where
  "uartintr bs s = consoleintr (if uart s = 0 then [] else map uint bs) s"

text \<open>
  \<open>uartinit\<close>, given the status register of the port: 255 if there is none. The values it writes to the
  control registers are left out.
\<close>

definition uartinit :: "u8 \<Rightarrow> 'a cons_st_scheme \<Rightarrow> 'a cons_st_scheme" where
  "uartinit status s =
     (if status = 0xFF then s
      else fold uartputc (map (\<lambda>c. of_char c) ''xv6...'' @ [10]) (s\<lparr>uart := 1\<rparr>))"

end
