(* ===== verification/Kbd.thy ===== *)
theory Kbd
  imports Console
begin

text \<open>
  The keyboard, \<open>kbd.c\<close> and \<open>kbd.h\<close>: scan codes are translated with the tables of the header. The
  status and data registers of the controller are arguments. Letters are shown to come out in the
  case that shift and caps lock ask for.
\<close>

section \<open>Tables\<close>

text \<open>
  An array of 256 bytes given by its first entries and the entries with an explicit index; the rest is zero.
\<close>

definition table :: "u8 list \<Rightarrow> (nat \<times> u8) list \<Rightarrow> nat \<Rightarrow> u8" where
  "table xs ys i = (case map_of ys i of Some v \<Rightarrow> v | None \<Rightarrow> if i < length xs then xs ! i else 0)"

definition SHIFT :: u32 where "SHIFT = 1"
definition CTL :: u32 where "CTL = 2"
definition CAPSLOCK :: u32 where "CAPSLOCK = 8"
definition E0ESC :: u32 where "E0ESC = 0x40"

definition shiftcode :: "nat \<Rightarrow> u8" where
  "shiftcode = table [] [(0x1d, 2), (0x2a, 1), (0x36, 1), (0x38, 4), (0x9d, 2), (0xb8, 4)]"

definition togglecode :: "nat \<Rightarrow> u8" where
  "togglecode = table [] [(0x3a, 8), (0x45, 16), (0x46, 32)]"

definition special_keys :: "(nat \<times> u8) list" where
  "special_keys = [(0xc8, 226), (0xd0, 227), (0xc9, 230), (0xd1, 231), (0xcb, 228), (0xcd, 229), (0x97, 224), (0xcf,
      225), (0xd2, 232), (0xd3, 233)]"

definition normalmap :: "nat \<Rightarrow> u8" where
  "normalmap = table [
      0, 27, 49, 50, 51, 52, 53, 54, 55, 56, 57, 48, 45, 61, 8, 9,
      113, 119, 101, 114, 116, 121, 117, 105, 111, 112, 91, 93, 10, 0, 97, 115,
      100, 102, 103, 104, 106, 107, 108, 59, 39, 96, 0, 92, 122, 120, 99, 118,
      98, 110, 109, 44, 46, 47, 0, 42, 0, 32, 0, 0, 0, 0, 0, 0,
      0, 0, 0, 0, 0, 0, 0, 55, 56, 57, 45, 52, 53, 54, 43, 49,
      50, 51, 48, 46, 0, 0, 0, 0] ((0x9C, 10) # (0xB5, 47) # special_keys)"

definition shiftmap :: "nat \<Rightarrow> u8" where
  "shiftmap = table [
      0, 27, 33, 64, 35, 36, 37, 94, 38, 42, 40, 41, 95, 43, 8, 9,
      81, 87, 69, 82, 84, 89, 85, 73, 79, 80, 123, 125, 10, 0, 65, 83,
      68, 70, 71, 72, 74, 75, 76, 58, 34, 126, 0, 124, 90, 88, 67, 86,
      66, 78, 77, 60, 62, 63, 0, 42, 0, 32, 0, 0, 0, 0, 0, 0,
      0, 0, 0, 0, 0, 0, 0, 55, 56, 57, 45, 52, 53, 54, 43, 49,
      50, 51, 48, 46, 0, 0, 0, 0] ((0x9C, 10) # (0xB5, 47) # special_keys)"

definition ctlmap :: "nat \<Rightarrow> u8" where
  "ctlmap = table [
      0, 0, 0, 0, 0, 0, 0, 0, 0, 0, 0, 0, 0, 0, 0, 0,
      17, 23, 5, 18, 20, 25, 21, 9, 15, 16, 0, 0, 13, 0, 1, 19,
      4, 6, 7, 8, 10, 11, 12, 0, 0, 0, 0, 28, 26, 24, 3, 22,
      2, 14, 13, 0, 0, 239, 0, 0] ((0x9C, 13) # (0xB5, 239) # special_keys)"

section \<open>Operations\<close>

definition charcode :: "u32 \<Rightarrow> nat \<Rightarrow> u8" where
  "charcode k = (if k = 0 then normalmap else if k = 1 then shiftmap else ctlmap)"

text \<open>The end of \<open>kbdgetc\<close>, for a key pressed: the code and the new value of \<open>shift\<close>.\<close>

definition kbd_press :: "u32 \<Rightarrow> u32 \<Rightarrow> int \<times> u32" where
  "kbd_press data shift =
     (let shift = shift OR ucast (shiftcode (unat data));
          shift = shift XOR ucast (togglecode (unat data));
          c = ucast (charcode (shift AND (CTL OR SHIFT)) (unat data)) :: u32;
          c = (if shift AND CAPSLOCK \<noteq> 0
               then if 97 \<le> c \<and> c \<le> 122 then c - 32 else if 65 \<le> c \<and> c \<le> 90 then c + 32 else c
               else c)
      in (uint c, shift))"

definition kbdgetc :: "u8 \<Rightarrow> u8 \<Rightarrow> u32 \<Rightarrow> int \<times> u32" where
  "kbdgetc st byte shift =
     (if st AND 1 = 0 then (-1, shift)
      else let data = ucast byte :: u32 in
        if data = 0xE0 then (0, shift OR E0ESC)
        else if data AND 0x80 \<noteq> 0
        then let data = (if shift AND E0ESC \<noteq> 0 then data else data AND 0x7F)
             in (0, shift AND NOT (ucast (shiftcode (unat data)) OR E0ESC))
        else if shift AND E0ESC \<noteq> 0 then kbd_press (data OR 0x80) (shift AND NOT E0ESC)
        else kbd_press data shift)"

text \<open>The codes \<open>kbdgetc\<close> returns for the scan codes in the controller, until it has none.\<close>

fun kbd_codes :: "u8 list \<Rightarrow> u32 \<Rightarrow> int list \<times> u32" where
  "kbd_codes [] shift = ([], shift)"
| "kbd_codes (b # bs) shift =
     (case kbdgetc 1 b shift of (c, shift) \<Rightarrow>
        case kbd_codes bs shift of (cs, shift) \<Rightarrow> (c # cs, shift))"

definition kbdintr :: "u8 list \<Rightarrow> 'a cons_st_scheme \<Rightarrow> (dump_line list \<times> 'a cons_st_scheme) res" where
  "kbdintr scan s =
     (case kbd_codes scan (kbd_shift s) of (cs, shift) \<Rightarrow> consoleintr cs (s\<lparr>kbd_shift := shift\<rparr>))"

end
