(* ===== verification/Trap.thy ===== *)
theory Trap
  imports Kbd
begin

text \<open>
  System call dispatch, the end of \<open>syscall.c\<close>, and traps, \<open>trap.c\<close>. A trap runs up to its return, to
  \<open>exit\<close>, or to the \<open>yield\<close> on a clock tick. The scheduling policy the kernel is built with, what
  the devices have to deliver and the number of the CPU are arguments. The kernel is the one with
  the disk in memory, \<open>memide.c\<close>, as in theory \<open>Bio\<close>, so a disk interrupt does nothing. Messages that are
  printed on the way, and the end-of-interrupt command to the interrupt controller, are left out.
\<close>

section \<open>System calls\<close>

datatype policy = P_default | P_priority | P_fcfs | P_mlfq

fun syscalls :: "policy \<Rightarrow> linked \<Rightarrow> int \<Rightarrow> ('a cons_st_scheme \<Rightarrow> (int \<times> 'a cons_st_scheme) res) option" where
  "syscalls pol lnk num =
     (if num = 1 then Some (sys_fork lnk)
      else if num = 2 then Some sys_exit
      else if num = 3 then Some (sys_wait (pol = P_mlfq))
      else if num = 4 then Some sys_pipe
      else if num = 5 then Some (sys_read cons_devsw)
      else if num = 6 then Some sys_kill
      else if num = 7 then Some (sys_exec cons_devsw)
      else if num = 8 then Some sys_fstat
      else if num = 9 then Some sys_chdir
      else if num = 10 then Some sys_dup
      else if num = 11 then Some sys_getpid
      else if num = 12 then Some sys_sbrk
      else if num = 13 then Some sys_sleep
      else if num = 14 then Some sys_uptime
      else if num = 15 then Some sys_open
      else if num = 16 then Some (sys_write cons_devsw)
      else if num = 17 then Some sys_mknod
      else if num = 18 then Some sys_unlink
      else if num = 19 then Some sys_link
      else if num = 20 then Some sys_mkdir
      else if num = 21 then Some sys_close
      else if num = 22 then Some sys_waitx
      else if num = 23 then Some sys_getpinfo
      else if num = 24 then Some sys_ps
      else if num = 25 then Some sys_set_priority
      else None)"

text \<open>How control leaves: back to where it came from, never, or after the process has run again.\<close>

datatype leave = Resumed | Exited | Yielded

definition set_eax :: "nat \<Rightarrow> int \<Rightarrow> 'a ptable_st_scheme \<Rightarrow> 'a ptable_st_scheme" where
  "set_eax cur r s = modp cur (\<lambda>p. p\<lparr>p_tf := (p_tf p)\<lparr>tf_eax := uint_of_int r\<rparr>\<rparr>) s"

definition syscall :: "policy \<Rightarrow> linked \<Rightarrow> 'a cons_st_scheme \<Rightarrow> (leave \<times> 'a cons_st_scheme) res" where
  "syscall pol lnk s =
     bnd (deref (cpu_proc s)) (\<lambda>cur.
     let num = int_of_uint (tf_eax (p_tf (proc_at s cur))) in
     case syscalls pol lnk num of
       Some f \<Rightarrow> bnd (f s) (\<lambda>(r, s). if num = 2 then Inr (Exited, s) else Inr (Resumed, set_eax cur r s))
     | None \<Rightarrow> Inr (Resumed, set_eax cur (-1) s))"

section \<open>The interrupt table\<close>

text \<open>The bit fields of \<open>struct gatedesc\<close> and the macro that fills them.\<close>

record gatedesc =
  gd_off_15_0 :: u32
  gd_cs :: u32
  gd_args :: u32
  gd_rsv1 :: u32
  gd_type :: u32
  gd_s :: u32
  gd_dpl :: u32
  gd_p :: u32
  gd_off_31_16 :: u32

definition SETGATE :: "bool \<Rightarrow> u32 \<Rightarrow> u32 \<Rightarrow> u32 \<Rightarrow> gatedesc" where
  "SETGATE istrap sel off d =
     \<lparr>gd_off_15_0 = off AND 0xFFFF, gd_cs = sel, gd_args = 0, gd_rsv1 = 0,
      gd_type = (if istrap then 0xF else 0xE), gd_s = 0, gd_dpl = d, gd_p = 1, gd_off_31_16 = drop_bit 16 off\<rparr>"

definition T_SYSCALL :: nat where "T_SYSCALL = 64"
definition T_IRQ0 :: nat where "T_IRQ0 = 32"

definition tvinit :: "u32 list \<Rightarrow> gatedesc list" where
  "tvinit vectors =
     (let idt = map (\<lambda>i. SETGATE False (push_bit 3 1) (vectors ! i) 0) [0..<256]
      in idt[T_SYSCALL := SETGATE True (push_bit 3 1) (vectors ! T_SYSCALL) 3])"

section \<open>Traps\<close>

text \<open>The clock interrupt on CPU 0: time, its sleepers, and the accounts of the current process.\<close>

definition aincr :: "int list \<Rightarrow> int \<Rightarrow> int list res" where
  "aincr a i = bnd (aget a i) (\<lambda>v. aput a i (v + 1))"

definition charge_tick :: "nat \<Rightarrow> 'a ptable_st_scheme \<Rightarrow> 'a ptable_st_scheme res" where
  "charge_tick cur s =
     (let p = proc_at s cur in
      if p_state p = RUNNING
      then bnd (aincr (p_ticks p) (p_current_queue p)) (\<lambda>tk.
           bnd (aincr (p_total_ticks p) (p_current_queue p)) (\<lambda>tt.
           Inr (modp cur (\<lambda>p. p\<lparr>p_rtime := p_rtime p + 1, p_ticks := tk, p_total_ticks := tt\<rparr>) s)))
      else if p_state p = SLEEPING then Inr (modp cur (\<lambda>p. p\<lparr>p_iotime := p_iotime p + 1\<rparr>) s)
      else Inr s)"

definition timer_tick :: "'a ptable_st_scheme \<Rightarrow> 'a ptable_st_scheme res" where
  "timer_tick s =
     (let s = wakeup ChTicks (s\<lparr>ticks := ticks s + 1\<rparr>) in
      case cpu_proc s of None \<Rightarrow> Inr s | Some cur \<Rightarrow> charge_tick cur s)"

text \<open>The switch on the trap number; \<open>input\<close> is what the keyboard or the serial port delivers.\<close>

definition trap_switch :: "int \<Rightarrow> u8 list \<Rightarrow> trapframe \<Rightarrow> 'a cons_st_scheme \<Rightarrow> 'a cons_st_scheme res" where
  "trap_switch cpu input tf s =
     (let no = unat (tf_trapno tf) in
      if no = T_IRQ0 + 0 then if cpu = 0 then timer_tick s else Inr s
      else if no = T_IRQ0 + 14 then Inr s
      else if no = T_IRQ0 + 15 then Inr s
      else if no = T_IRQ0 + 1 then bnd (kbdintr input s) (\<lambda>(_, s). Inr s)
      else if no = T_IRQ0 + 4 then bnd (uartintr input s) (\<lambda>(_, s). Inr s)
      else if no = T_IRQ0 + 7 \<or> no = T_IRQ0 + 31 then Inr s
      else case cpu_proc s of
        None \<Rightarrow> Inl (Panic ''trap'')
      | Some cur \<Rightarrow>
          if tf_cs tf AND 3 = 0 then Inl (Panic ''trap'')
          else Inr (modp cur (\<lambda>p. p\<lparr>p_killed := 1\<rparr>) s))"

definition exit_if_killed :: "trapframe \<Rightarrow> 'a file_st_scheme \<Rightarrow> (bool \<times> 'a file_st_scheme) res" where
  "exit_if_killed tf s =
     (case cpu_proc s of
        Some cur \<Rightarrow> if p_killed (proc_at s cur) \<noteq> 0 \<and> tf_cs tf AND 3 = DPL_USER
          then bnd (exit s) (\<lambda>s. Inr (True, s)) else Inr (False, s)
      | None \<Rightarrow> Inr (False, s))"

definition trap_syscall :: "policy \<Rightarrow> linked \<Rightarrow> trapframe \<Rightarrow> 'a cons_st_scheme \<Rightarrow> (leave \<times> 'a cons_st_scheme) res" where
  "trap_syscall pol lnk tf s =
     bnd (deref (cpu_proc s)) (\<lambda>cur.
     if p_killed (proc_at s cur) \<noteq> 0 then bnd (exit s) (\<lambda>s. Inr (Exited, s))
     else bnd (syscall pol lnk (modp cur (\<lambda>p. p\<lparr>p_tf := tf\<rparr>) s)) (\<lambda>(l, s).
       if l = Exited then Inr (l, s)
       else if p_killed (proc_at s cur) \<noteq> 0 then bnd (exit s) (\<lambda>s. Inr (Exited, s))
       else Inr (Resumed, s)))"

definition trap :: "policy \<Rightarrow> linked \<Rightarrow> int \<Rightarrow> u8 list \<Rightarrow> trapframe \<Rightarrow> 'a cons_st_scheme \<Rightarrow> (leave \<times> 'a cons_st_scheme) res" where
  "trap pol lnk cpu input tf s =
     (if unat (tf_trapno tf) = T_SYSCALL then trap_syscall pol lnk tf s
      else bnd (trap_switch cpu input tf s) (\<lambda>s.
        bnd (exit_if_killed tf s) (\<lambda>(gone, s).
        if gone then Inr (Exited, s)
        else case cpu_proc s of
          None \<Rightarrow> Inr (Resumed, s)
        | Some cur \<Rightarrow>
            if p_state (proc_at s cur) = RUNNING \<and> unat (tf_trapno tf) = T_IRQ0 \<and> pol \<noteq> P_fcfs
            then bnd (yield_enter s) (\<lambda>s. Inr (Yielded, s)) else
              bnd (exit_if_killed tf s) (\<lambda>(gone, s). Inr (if gone then Exited else Resumed, s)))))"

text \<open>The end of \<open>trap\<close> after \<open>yield\<close> has returned.\<close>

definition trap_resume :: "trapframe \<Rightarrow> 'a file_st_scheme \<Rightarrow> (leave \<times> 'a file_st_scheme) res" where
  "trap_resume tf s = bnd (exit_if_killed tf s) (\<lambda>(gone, s). Inr (if gone then Exited else Resumed, s))"

end
