(* ===== verification/Frame.thy ===== *)
theory Frame
  imports Dir File
begin

text \<open>
  What the layers below the process table leave alone. An operation of the buffer cache, the log or the
  file system changes its own records and may wake sleeping processes; the rest of the process table, the
  memory, the open files and the pipes stay as they are. Closing a file may also free the page of a pipe.
\<close>

section \<open>The relation\<close>

text \<open>A process that was left alone or woken up at time \<open>t\<close>.\<close>

definition woken :: "u32 \<Rightarrow> proc \<Rightarrow> proc \<Rightarrow> bool" where
  "woken t p q \<longleftrightarrow> q = p \<or> p_state p = SLEEPING \<and> q = p\<lparr>p_state := RUNNABLE, p_start := int_of_uint t\<rparr>"

definition pt_frame :: "'a ptable_st_scheme \<Rightarrow> 'a ptable_st_scheme \<Rightarrow> bool" where
  "pt_frame s0 s \<longleftrightarrow> list_all2 (woken (ticks s0)) (procs s0) (procs s) \<and> nextpid s = nextpid s0 \<and>
     initproc s = initproc s0 \<and> ticks s = ticks s0 \<and> queues s = queues s0 \<and> cpu_proc s = cpu_proc s0"

definition fs_frame :: "'a fs_st_scheme \<Rightarrow> 'a fs_st_scheme \<Rightarrow> bool" where
  "fs_frame s0 s \<longleftrightarrow> pt_frame s0 s \<and> pmem s = pmem s0 \<and> freelist s = freelist s0 \<and>
     kernel_end s = kernel_end s0 \<and> fs_st.more s = fs_st.more s0"

lemma woken_trans: "woken t p q \<Longrightarrow> woken t q r \<Longrightarrow> woken t p r"
  by (auto simp: woken_def)

lemma woken_wake_proc: "woken t p (wake_proc ch t p)"
  by (simp add: woken_def wake_proc_def)

lemma pt_frame_refl: "pt_frame s s"
  by (simp add: pt_frame_def list.rel_refl woken_def)

lemma fs_frame_refl: "fs_frame s s"
  by (simp add: fs_frame_def pt_frame_refl)

lemma pt_frame_trans: "pt_frame s0 s1 \<Longrightarrow> pt_frame s1 s2 \<Longrightarrow> pt_frame s0 s2"
  using list_all2_trans [of "woken (ticks s0)" "woken (ticks s0)" "woken (ticks s0)", OF woken_trans]
  by (auto simp: pt_frame_def)

lemma fs_frame_trans: "fs_frame s0 s1 \<Longrightarrow> fs_frame s1 s2 \<Longrightarrow> fs_frame s0 s2"
  using pt_frame_trans by (auto simp: fs_frame_def)

lemma pt_frame_wakeup: "pt_frame s0 s \<Longrightarrow> pt_frame s0 (wakeup ch s)"
proof -
  have "pt_frame s (wakeup ch s)"
    by (simp add: pt_frame_def wakeup_def list_all2_conv_all_nth woken_wake_proc)
  then show "pt_frame s0 s \<Longrightarrow> pt_frame s0 (wakeup ch s)" by (rule pt_frame_trans [rotated])
qed

lemma fs_frame_wakeup [simp]: "fs_frame s0 s \<Longrightarrow> fs_frame s0 (wakeup ch s)"
proof -
  have "pmem (wakeup ch s) = pmem s" "freelist (wakeup ch s) = freelist s" "kernel_end (wakeup ch s) = kernel_end s"
    "fs_st.more (wakeup ch s) = fs_st.more s" by (simp_all add: wakeup_def wakeup1_def)
  then show "fs_frame s0 s \<Longrightarrow> fs_frame s0 (wakeup ch s)" by (simp add: fs_frame_def pt_frame_wakeup)
qed

lemma fs_frame_upd [simp]:
  "fs_frame s0 (s\<lparr>bufs := b\<rparr>) = fs_frame s0 s" "fs_frame s0 (s\<lparr>lru := l\<rparr>) = fs_frame s0 s"
  "fs_frame s0 (s\<lparr>disk := d\<rparr>) = fs_frame s0 s" "fs_frame s0 (s\<lparr>dwrites := w\<rparr>) = fs_frame s0 s"
  "fs_frame s0 (s\<lparr>log_outstanding := i\<rparr>) = fs_frame s0 s" "fs_frame s0 (s\<lparr>log_committing := i\<rparr>) = fs_frame s0 s"
  "fs_frame s0 (s\<lparr>lh_n := i\<rparr>) = fs_frame s0 s" "fs_frame s0 (s\<lparr>lh_block := bl\<rparr>) = fs_frame s0 s"
  "fs_frame s0 (s\<lparr>inodes := ns\<rparr>) = fs_frame s0 s"
  by (simp_all add: fs_frame_def pt_frame_def)

lemma fs_frame_mod [simp]:
  "fs_frame s0 (modb i f s) = fs_frame s0 s" "fs_frame s0 (set_data i d s) = fs_frame s0 s"
  "fs_frame s0 (pin i s) = fs_frame s0 s" "fs_frame s0 (modi ip g s) = fs_frame s0 s"
  "fs_frame s0 (idup ip s) = fs_frame s0 s"
  by (simp_all add: modb_def set_data_def pin_def modi_def idup_def)

lemma foreach_fr:
  assumes "\<And>k s s'. f k s = Inr s' \<Longrightarrow> fs_frame s0 s \<Longrightarrow> fs_frame s0 s'"
  shows "foreach f i n s = Inr s' \<Longrightarrow> fs_frame s0 s \<Longrightarrow> fs_frame s0 s'"
  by (induction n arbitrary: i s) (auto simp: res_iff dest: assms)

section \<open>Buffers and the log\<close>

lemma iderw_fr: "iderw i s = Inr s' \<Longrightarrow> fs_frame s0 s \<Longrightarrow> fs_frame s0 s'"
  by (auto simp: iderw_def Let_def res_iff split: if_splits)

lemma lock_buf_fr: "lock_buf i s = Inr (j, s') \<Longrightarrow> fs_frame s0 s \<Longrightarrow> fs_frame s0 s'"
  by (auto simp: lock_buf_def res_iff)

lemma bread_fr: "bread d b s = Inr (i, s') \<Longrightarrow> fs_frame s0 s \<Longrightarrow> fs_frame s0 s'"
  by (auto simp: bread_def bget_def res_iff split: if_splits option.splits elim!: iderw_fr lock_buf_fr)

lemma bwrite_fr: "bwrite i s = Inr s' \<Longrightarrow> fs_frame s0 s \<Longrightarrow> fs_frame s0 s'"
  by (auto simp: bwrite_def res_iff split: if_splits elim!: iderw_fr)

lemma brelse_fr: "brelse i s = Inr s' \<Longrightarrow> fs_frame s0 s \<Longrightarrow> fs_frame s0 s'"
  by (auto simp: brelse_def releasesleep_def Let_def res_iff split: if_splits)

lemmas buf_fr = bread_fr bwrite_fr brelse_fr

lemma log_write_fr: "log_write b s = Inr s' \<Longrightarrow> fs_frame s0 s \<Longrightarrow> fs_frame s0 s'"
  by (auto simp: log_write_def Let_def res_iff split: if_splits)

lemma write_head_fr: "write_head s = Inr s' \<Longrightarrow> fs_frame s0 s \<Longrightarrow> fs_frame s0 s'"
  by (auto simp: write_head_def res_iff elim!: buf_fr)

lemma write_log_fr: "write_log s = Inr s' \<Longrightarrow> fs_frame s0 s \<Longrightarrow> fs_frame s0 s'"
  unfolding write_log_def
  by (erule foreach_fr [rotated]) (auto simp: write_step_def res_iff elim!: buf_fr)

lemma install_trans_fr: "install_trans s = Inr s' \<Longrightarrow> fs_frame s0 s \<Longrightarrow> fs_frame s0 s'"
  unfolding install_trans_def
  by (erule foreach_fr [rotated]) (auto simp: install_step_def res_iff elim!: buf_fr)

lemma begin_op_fr: "begin_op s = Inr s' \<Longrightarrow> fs_frame s0 s \<Longrightarrow> fs_frame s0 s'"
  by (auto simp: begin_op_def split: if_splits)

lemma commit_fr: "commit s = Inr s' \<Longrightarrow> fs_frame s0 s \<Longrightarrow> fs_frame s0 s'"
  by (auto simp: commit_def res_iff split: if_splits elim!: write_head_fr write_log_fr install_trans_fr)

lemma end_op_fr: "end_op s = Inr s' \<Longrightarrow> fs_frame s0 s \<Longrightarrow> fs_frame s0 s'"
  by (auto simp: end_op_def Let_def res_iff split: if_splits intro!: fs_frame_wakeup elim!: commit_fr)

lemmas log_fr = log_write_fr begin_op_fr end_op_fr

section \<open>The file system\<close>

lemma iget_fr: "iget d n s = Inr (i, s') \<Longrightarrow> fs_frame s0 s \<Longrightarrow> fs_frame s0 s'"
  by (auto simp: iget_def split: option.splits)

lemma bzero_fr: "bzero d b s = Inr s' \<Longrightarrow> fs_frame s0 s \<Longrightarrow> fs_frame s0 s'"
  by (auto simp: bzero_def res_iff elim!: buf_fr log_write_fr)

lemma balloc_fr: "balloc d s = Inr (b, s') \<Longrightarrow> fs_frame s0 s \<Longrightarrow> fs_frame s0 s'"
proof -
  have "balloc_loop k n d s = Inr (b, s') \<Longrightarrow> fs_frame s0 s \<Longrightarrow> fs_frame s0 s'" for k n
  proof (induction "n - k" arbitrary: k s rule: less_induct)
    case less
    have IH: "balloc_loop (k + BPB) n d t = Inr (b, s') \<Longrightarrow> fs_frame s0 t \<Longrightarrow> fs_frame s0 s'" if "k < n" for t
      using less.hyps [of "k + BPB" t] that by (simp add: BPB_def BSIZE_def)
    from less.prems show ?case
      by (subst (asm) balloc_loop.simps)
        (auto simp: res_iff split: if_splits option.splits elim!: IH [rotated] buf_fr log_write_fr bzero_fr)
  qed
  then show "balloc d s = Inr (b, s') \<Longrightarrow> fs_frame s0 s \<Longrightarrow> fs_frame s0 s'" by (simp add: balloc_def)
qed

lemma bfree_fr: "bfree d b s = Inr s' \<Longrightarrow> fs_frame s0 s \<Longrightarrow> fs_frame s0 s'"
  by (auto simp: bfree_def Let_def res_iff split: if_splits elim!: buf_fr log_write_fr)

lemma iupdate_fr: "iupdate ip s = Inr s' \<Longrightarrow> fs_frame s0 s \<Longrightarrow> fs_frame s0 s'"
  by (auto simp: iupdate_def Let_def res_iff elim!: buf_fr log_write_fr)

lemma ilock_fr: "ilock ip s = Inr s' \<Longrightarrow> fs_frame s0 s \<Longrightarrow> fs_frame s0 s'"
  by (auto simp: ilock_def Let_def res_iff split: option.splits if_splits elim!: buf_fr)

lemma iunlock_fr: "iunlock ip s = Inr s' \<Longrightarrow> fs_frame s0 s \<Longrightarrow> fs_frame s0 s'"
  by (auto simp: iunlock_def releasesleep_def Let_def res_iff split: option.splits if_splits)

lemma bmap_fr: "bmap ip bn s = Inr (a, s') \<Longrightarrow> fs_frame s0 s \<Longrightarrow> fs_frame s0 s'"
  by (auto simp: bmap_def Let_def res_iff split: if_splits elim!: buf_fr log_write_fr balloc_fr)

lemma itrunc_fr: "itrunc ip s = Inr s' \<Longrightarrow> fs_frame s0 s \<Longrightarrow> fs_frame s0 s'"
proof -
  have d: "foreach (itrunc_direct ip) 0 n s = Inr s' \<Longrightarrow> fs_frame s0 s \<Longrightarrow> fs_frame s0 s'" for n s s'
    by (erule foreach_fr [rotated]) (auto simp: itrunc_direct_def Let_def res_iff split: if_splits elim!: bfree_fr)
  have i: "foreach (\<lambda>j s. if g j \<noteq> 0 then bfree dev (g j) s else Inr s) 0 n s = Inr s' \<Longrightarrow> fs_frame s0 s \<Longrightarrow> fs_frame s0 s'"
    for g dev n s s' by (erule foreach_fr [rotated]) (auto split: if_splits elim!: bfree_fr)
  show "itrunc ip s = Inr s' \<Longrightarrow> fs_frame s0 s \<Longrightarrow> fs_frame s0 s'"
    by (auto simp: itrunc_def Let_def res_iff split: if_splits elim!: iupdate_fr bfree_fr buf_fr i d)
qed

lemma iput_fr: "iput ip s = Inr s' \<Longrightarrow> fs_frame s0 s \<Longrightarrow> fs_frame s0 s'"
  by (auto simp: iput_def releasesleep_def Let_def res_iff split: if_splits
      intro!: fs_frame_wakeup elim!: itrunc_fr iupdate_fr)

lemma iunlockput_fr: "iunlockput ip s = Inr s' \<Longrightarrow> fs_frame s0 s \<Longrightarrow> fs_frame s0 s'"
  by (auto simp: iunlockput_def res_iff elim!: iunlock_fr iput_fr)

lemmas inode_fr = iget_fr iupdate_fr ilock_fr iunlock_fr iput_fr iunlockput_fr

lemma ialloc_fr: "ialloc d ty s = Inr (i, s') \<Longrightarrow> fs_frame s0 s \<Longrightarrow> fs_frame s0 s'"
proof -
  have "ialloc_loop k n d ty s = Inr (i, s') \<Longrightarrow> fs_frame s0 s \<Longrightarrow> fs_frame s0 s'" for k n
  proof (induction n arbitrary: k s)
    case (Suc n)
    from Suc.prems show ?case
      by (auto simp: Let_def res_iff split: if_splits elim!: Suc.IH iget_fr log_write_fr buf_fr)
  qed simp
  then show "ialloc d ty s = Inr (i, s') \<Longrightarrow> fs_frame s0 s \<Longrightarrow> fs_frame s0 s'" by (simp add: ialloc_def)
qed

section \<open>Files and directories\<close>

lemma readi_loop_fr: "readi_loop ip off n s = Inr (bs, s') \<Longrightarrow> fs_frame s0 s \<Longrightarrow> fs_frame s0 s'"
proof (induction n arbitrary: off s bs rule: less_induct)
  case (less n)
  have IH: "readi_loop ip o' (n - m) t = Inr (bs, s') \<Longrightarrow> fs_frame s0 t \<Longrightarrow> fs_frame s0 s'" if "0 < m" "0 < n" for o' t bs m
    using less.IH [of "n - m"] that by simp
  have m: "off mod BSIZE < BSIZE" by (simp add: BSIZE_def)
  from less.prems show ?case
    by (subst (asm) readi_loop.simps)
      (auto simp: Let_def res_iff m split: if_splits elim!: IH [rotated 2] buf_fr bmap_fr)
qed

lemma writei_loop_fr: "writei_loop ip src off s = Inr (r, s') \<Longrightarrow> fs_frame s0 s \<Longrightarrow> fs_frame s0 s'"
proof (induction src arbitrary: off s rule: length_induct)
  case (1 src)
  have IH: "writei_loop ip (drop m src) o' t = Inr (r, s') \<Longrightarrow> fs_frame s0 t \<Longrightarrow> fs_frame s0 s'" if "0 < m" "src \<noteq> []" for o' t m
    using 1(1) [rule_format, of "drop m src" o' t] that by simp
  have m: "off mod BSIZE < BSIZE" by (simp add: BSIZE_def)
  from 1(2,3) show ?case
    by (subst (asm) writei_loop.simps)
      (auto simp: Let_def res_iff m split: if_splits elim!: IH [rotated 2] buf_fr bmap_fr log_write_fr)
qed

lemma readi_file_fr: "readi_file ip off n s = Inr (r, bs, s') \<Longrightarrow> fs_frame s0 s \<Longrightarrow> fs_frame s0 s'"
  by (auto simp: readi_file_def Let_def res_iff split: if_splits elim!: readi_loop_fr)

lemma writei_file_fr: "writei_file ip src off s = Inr (r, s') \<Longrightarrow> fs_frame s0 s \<Longrightarrow> fs_frame s0 s'"
  by (auto simp: writei_file_def Let_def res_iff split: if_splits elim!: writei_loop_fr iupdate_fr)

lemma dirlookup_loop_fr: "dirlookup_loop dp nm off sz s = Inr (r, s') \<Longrightarrow> fs_frame s0 s \<Longrightarrow> fs_frame s0 s'"
proof (induction "sz - off" arbitrary: off s rule: less_induct)
  case less
  have IH: "dirlookup_loop dp nm (off + 16) sz t = Inr (r, s') \<Longrightarrow> fs_frame s0 t \<Longrightarrow> fs_frame s0 s'" if "off < sz" for t
    using less.hyps [of "off + 16" t] that by simp
  from less.prems show ?case
    by (subst (asm) dirlookup_loop.simps)
      (auto simp: Let_def res_iff split: if_splits elim!: IH [rotated] readi_file_fr iget_fr)
qed

lemma dirlookup_fr: "dirlookup dp nm s = Inr (r, s') \<Longrightarrow> fs_frame s0 s \<Longrightarrow> fs_frame s0 s'"
  by (auto simp: dirlookup_def split: if_splits elim!: dirlookup_loop_fr)

lemma empty_slot_fr: "empty_slot dp off sz s = Inr (r, s') \<Longrightarrow> fs_frame s0 s \<Longrightarrow> fs_frame s0 s'"
proof (induction "sz - off" arbitrary: off s rule: less_induct)
  case less
  have IH: "empty_slot dp (off + 16) sz t = Inr (r, s') \<Longrightarrow> fs_frame s0 t \<Longrightarrow> fs_frame s0 s'" if "off < sz" for t
    using less.hyps [of "off + 16" t] that by simp
  from less.prems show ?case
    by (subst (asm) empty_slot.simps) (auto simp: res_iff split: if_splits elim!: IH [rotated] readi_file_fr)
qed

lemma dirlink_fr: "dirlink dp nm n s = Inr (r, s') \<Longrightarrow> fs_frame s0 s \<Longrightarrow> fs_frame s0 s'"
  by (auto simp: dirlink_def res_iff split: if_splits option.splits
      elim!: dirlookup_fr iput_fr empty_slot_fr writei_file_fr)

lemma namex_loop_fr: "namex_loop ip path np nm s = Inr (r, nm', s') \<Longrightarrow> fs_frame s0 s \<Longrightarrow> fs_frame s0 s'"
proof (induction path arbitrary: ip nm s rule: length_induct)
  case (1 path)
  have IH: "namex_loop i rest q n t = Inr (r, nm', s') \<Longrightarrow> fs_frame s0 t \<Longrightarrow> fs_frame s0 s'"
    if "skipelem path = Some (n', rest)" "q = np" for i n n' rest t q
    using 1(1) [rule_format, of rest i n t] skipelem_shorter [OF that(1)] that(2) by simp
  from 1(2,3) show ?case
    by (subst (asm) namex_loop.simps)
      (auto simp: res_iff split: if_splits option.splits elim!: IH [rotated 2] inode_fr dirlookup_fr)
qed

lemma namex_fr: "namex path np s = Inr (r, nm, s') \<Longrightarrow> fs_frame s0 s \<Longrightarrow> fs_frame s0 s'"
  by (auto simp: namex_def res_iff split: if_splits elim!: namex_loop_fr iget_fr)

lemma namei_fr: "namei path s = Inr (r, s') \<Longrightarrow> fs_frame s0 s \<Longrightarrow> fs_frame s0 s'"
  by (auto simp: namei_def res_iff elim!: namex_fr)

lemma nameiparent_fr: "nameiparent path s = Inr (r, nm, s') \<Longrightarrow> fs_frame s0 s \<Longrightarrow> fs_frame s0 s'"
  by (auto simp: nameiparent_def elim!: namex_fr)

lemmas dir_fr = dirlookup_fr dirlink_fr namei_fr nameiparent_fr readi_file_fr writei_file_fr ialloc_fr

section \<open>Open files\<close>

text \<open>Operations that also touch the open-file table, pipes and pages: the process table only.\<close>

lemma pt_frame_upd [simp]:
  "pt_frame s0 (s\<lparr>pipes := x\<rparr>) = pt_frame s0 s" "pt_frame s0 (s\<lparr>ftable := y\<rparr>) = pt_frame s0 s"
  "pt_frame s0 (setpipe p f s) = pt_frame s0 s" "pt_frame s0 (modf i g s) = pt_frame s0 s"
  by (simp_all add: pt_frame_def setpipe_def modf_def)

lemma pt_frame_kfree: "kfree v s = Inr s' \<Longrightarrow> pt_frame s0 s \<Longrightarrow> pt_frame s0 s'"
  by (auto simp: kfree_def set_page_def Let_def pt_frame_def split: if_splits)

lemma fs_frame_pt: "fs_frame s s' \<Longrightarrow> pt_frame s0 s \<Longrightarrow> pt_frame s0 s'"
  using pt_frame_trans by (auto simp: fs_frame_def)

lemma pipeclose_pt: "pipeclose p w s = Inr s' \<Longrightarrow> pt_frame s0 s \<Longrightarrow> pt_frame s0 s'"
  by (auto simp: pipeclose_def Let_def split: if_splits intro!: pt_frame_wakeup elim!: pt_frame_kfree)

lemma op_iput_fr:
  "begin_op s = Inr s1 \<Longrightarrow> iput ip s1 = Inr s2 \<Longrightarrow> end_op s2 = Inr s' \<Longrightarrow> fs_frame s s'"
  by (blast intro: begin_op_fr iput_fr end_op_fr fs_frame_refl)

lemma fileclose_pt: "fileclose f s = Inr s' \<Longrightarrow> pt_frame s0 s \<Longrightarrow> pt_frame s0 s'"
  by (auto simp: fileclose_def Let_def res_iff split: if_splits fd_type.splits
      elim!: pipeclose_pt dest!: op_iput_fr elim!: fs_frame_pt)

end
