(* ===== verification/Vm_Frame.thy ===== *)
theory Vm_Frame
  imports Syscall_Args
begin

text \<open>
  The operations on page tables and on user memory change the pages and the free list, and nothing else of
  the state.
\<close>

definition vmf :: "'a kmem_st_scheme \<Rightarrow> 'a kmem_st_scheme \<Rightarrow> bool" where
  "vmf s0 s \<longleftrightarrow> s = s0\<lparr>pmem := pmem s, freelist := freelist s\<rparr>"

lemma vmf_refl: "vmf s s"
  by (simp add: vmf_def)

lemma vmf_page [simp, intro!]:
  "vmf s0 s \<Longrightarrow> vmf s0 (set_page v pg s)" "vmf s0 s \<Longrightarrow> vmf s0 (zero_page v s)" "vmf s0 s \<Longrightarrow> vmf s0 (set_entry e w s)"
  "vmf s0 s \<Longrightarrow> vmf s0 (s\<lparr>freelist := f\<rparr>)"
proof -
  have *: "vmf s0 (s\<lparr>pmem := m\<rparr>) \<and> vmf s0 (s\<lparr>freelist := f\<rparr>)" if "vmf s0 s" for m f
    by (subst (1 2) that [unfolded vmf_def]) (simp add: vmf_def)
  show "vmf s0 s \<Longrightarrow> vmf s0 (set_page v pg s)" "vmf s0 s \<Longrightarrow> vmf s0 (zero_page v s)" "vmf s0 s \<Longrightarrow> vmf s0 (set_entry e w s)"
    "vmf s0 s \<Longrightarrow> vmf s0 (s\<lparr>freelist := f\<rparr>)"
    using * by (simp_all add: set_page_def zero_page_def set_entry_def)
qed

lemma kfree_vmf: "kfree v s = Inr s' \<Longrightarrow> vmf s0 s \<Longrightarrow> vmf s0 s'"
  by (auto simp: kfree_def Let_def split: if_splits)

lemma kalloc_vmf: "kalloc s = (v, s') \<Longrightarrow> vmf s0 s \<Longrightarrow> vmf s0 s'"
  by (auto simp: kalloc_def Let_def split: if_splits)

lemma walkpgdir_vmf: "walkpgdir d va al s = (r, s') \<Longrightarrow> vmf s0 s \<Longrightarrow> vmf s0 s'"
  by (auto simp: walkpgdir_def Let_def split: if_splits prod.splits dest: kalloc_vmf)

lemma mappages_vmf: "mappages d va sz pa perm s = Inr (r, s') \<Longrightarrow> vmf s0 s \<Longrightarrow> vmf s0 s'"
proof -
  have "mappages_loop n d a pa perm s = Inr (r, s') \<Longrightarrow> vmf s0 s \<Longrightarrow> vmf s0 s'" for n a pa
  proof (induction n arbitrary: a pa s)
    case 0
    then show ?case
      by (subst (asm) mappages_loop.simps) (auto simp: Let_def split: prod.splits option.splits if_splits elim!: walkpgdir_vmf)
  next
    case (Suc n)
    from Suc.prems show ?case
      by (subst (asm) mappages_loop.simps)
        (auto simp: Let_def split: prod.splits option.splits if_splits elim!: walkpgdir_vmf Suc.IH)
  qed
  then show "mappages d va sz pa perm s = Inr (r, s') \<Longrightarrow> vmf s0 s \<Longrightarrow> vmf s0 s'" by (simp add: mappages_def Let_def)
qed

lemma deallocuvm_vmf: "deallocuvm d o' n s = Inr (r, s') \<Longrightarrow> vmf s0 s \<Longrightarrow> vmf s0 s'"
proof -
  have L: "dealloc_loop d a o' s = Inr s' \<Longrightarrow> vmf s0 s \<Longrightarrow> vmf s0 s'" for a s s'
  proof (induction "2 ^ 32 - unat a" arbitrary: a s rule: less_induct)
    case less
    have IH: "dealloc_loop d a' o' t = Inr s' \<Longrightarrow> vmf s0 t \<Longrightarrow> vmf s0 s'" if "a < a' \<or> next_page a = Inr a'" for a' t
      using less.hyps [of a' t] that above_less [of a a'] next_page_less [of a a'] by blast
    from less.prems show ?case
      by (subst (asm) dealloc_loop.simps)
        (auto simp: Let_def res_iff split: option.splits if_splits elim!: IH [rotated] kfree_vmf)
  qed
  show "deallocuvm d o' n s = Inr (r, s') \<Longrightarrow> vmf s0 s \<Longrightarrow> vmf s0 s'"
    by (auto simp: deallocuvm_def res_iff split: if_splits elim!: L)
qed

lemma freevm_vmf: "freevm d s = Inr s' \<Longrightarrow> vmf s0 s \<Longrightarrow> vmf s0 s'"
proof -
  have L: "free_tables i n d s = Inr s' \<Longrightarrow> vmf s0 s \<Longrightarrow> vmf s0 s'" for i n s s'
    by (induction i n d s rule: free_tables.induct) (auto simp: res_iff split: if_splits dest: kfree_vmf)
  show "freevm d s = Inr s' \<Longrightarrow> vmf s0 s \<Longrightarrow> vmf s0 s'"
    by (auto simp: freevm_def res_iff split: if_splits elim!: L kfree_vmf deallocuvm_vmf)
qed

lemma setupkvm_vmf: "setupkvm s = Inr (d, s') \<Longrightarrow> vmf s0 s \<Longrightarrow> vmf s0 s'"
proof -
  have L: "setup_loop ks g s = Inr (d, s') \<Longrightarrow> vmf s0 s \<Longrightarrow> vmf s0 s'" for ks g s
  proof (induction ks arbitrary: s)
    case (Cons k ks)
    from Cons.prems show ?case
      by (cases k) (auto simp: res_iff split: if_splits elim!: Cons.IH mappages_vmf freevm_vmf)
  qed simp
  show "setupkvm s = Inr (d, s') \<Longrightarrow> vmf s0 s \<Longrightarrow> vmf s0 s'"
    by (auto simp: setupkvm_def Let_def split: prod.splits if_splits elim!: L kalloc_vmf)
qed

lemma inituvm_vmf: "inituvm d bs s = Inr s' \<Longrightarrow> vmf s0 s \<Longrightarrow> vmf s0 s'"
  by (auto simp: inituvm_def res_iff split: prod.splits if_splits elim!: kalloc_vmf mappages_vmf)

lemma allocuvm_vmf: "allocuvm d o' n s = Inr (r, s') \<Longrightarrow> vmf s0 s \<Longrightarrow> vmf s0 s'"
proof -
  have L: "alloc_loop d a o' n s = Inr (r, s') \<Longrightarrow> vmf s0 s \<Longrightarrow> vmf s0 s'" for a s s'
  proof (induction "2 ^ 32 - unat a" arbitrary: a s rule: less_induct)
    case less
    have IH: "alloc_loop d a' o' n t = Inr (r, s') \<Longrightarrow> vmf s0 t \<Longrightarrow> vmf s0 s'" if "next_page a = Inr a'" for a' t
      using less.hyps [of a' t] that next_page_less [of a a'] by blast
    from less.prems show ?case
      by (subst (asm) alloc_loop.simps)
        (auto simp: Let_def res_iff split: prod.splits if_splits elim!: IH [rotated] kfree_vmf deallocuvm_vmf mappages_vmf
          kalloc_vmf)
  qed
  show "allocuvm d o' n s = Inr (r, s') \<Longrightarrow> vmf s0 s \<Longrightarrow> vmf s0 s'"
    by (auto simp: allocuvm_def split: if_splits elim!: L)
qed

lemma clearpteu_vmf: "clearpteu d va s = Inr s' \<Longrightarrow> vmf s0 s \<Longrightarrow> vmf s0 s'"
  by (auto simp: clearpteu_def split: option.splits)

lemma copyuvm_vmf: "copyuvm g sz s = Inr (r, s') \<Longrightarrow> vmf s0 s \<Longrightarrow> vmf s0 s'"
proof -
  have L: "copy_loop g d a sz s = Inr (r, s') \<Longrightarrow> vmf s0 s \<Longrightarrow> vmf s0 s'" for a d s s'
  proof (induction "2 ^ 32 - unat a" arbitrary: a s rule: less_induct)
    case less
    have IH: "copy_loop g d a' sz t = Inr (r, s') \<Longrightarrow> vmf s0 t \<Longrightarrow> vmf s0 s'" if "next_page a = Inr a'" for a' t
      using less.hyps [of a' t] that next_page_less [of a a'] by blast
    from less.prems show ?case
      by (subst (asm) copy_loop.simps)
        (auto simp: Let_def res_iff split: option.splits prod.splits if_splits
          elim!: IH [rotated] kfree_vmf freevm_vmf mappages_vmf kalloc_vmf)
  qed
  show "copyuvm g sz s = Inr (r, s') \<Longrightarrow> vmf s0 s \<Longrightarrow> vmf s0 s'"
    by (auto simp: copyuvm_def res_iff split: if_splits elim!: L setupkvm_vmf)
qed

lemma copyout_vmf: "copyout d va bs s = Inr (r, s') \<Longrightarrow> vmf s0 s \<Longrightarrow> vmf s0 s'"
proof (induction bs arbitrary: va s rule: length_induct)
  case (1 bs)
  have IH: "copyout d va' (drop n bs) t = Inr (r, s') \<Longrightarrow> vmf s0 t \<Longrightarrow> vmf s0 s'" if "0 < n" "bs \<noteq> []" for n t va'
    using 1(1) [rule_format, of "drop n bs" va' t] that by simp
  have p: "0 < 4096 - unat (va - PGROUNDDOWN va)" using page_offset [of va] by simp
  from 1(2,3) p show ?case
    by (subst (asm) copyout.simps) (auto simp: Let_def res_iff split: if_splits elim!: IH [rotated 2])
qed

lemma ustore_bytes_vmf: "ustore_bytes va bs s = Inr s' \<Longrightarrow> vmf s0 s \<Longrightarrow> vmf s0 s'"
  by (induction va bs s rule: ustore_bytes.induct) (auto simp: ustore_def res_iff)

lemma ustore32_vmf: "ustore32 va w s = Inr s' \<Longrightarrow> vmf s0 s \<Longrightarrow> vmf s0 s'"
  by (auto simp: ustore32_def elim!: ustore_bytes_vmf)

lemmas vm_vmf = kfree_vmf kalloc_vmf setupkvm_vmf inituvm_vmf allocuvm_vmf deallocuvm_vmf freevm_vmf clearpteu_vmf
  copyuvm_vmf copyout_vmf ustore_bytes_vmf ustore32_vmf

end
