(* ===== verification/Calm.thy ===== *)
theory Calm
  imports Trap Frame Vm_Frame
begin

text \<open>
  Operations that leave alone what the kernel's invariants speak about: identifiers, descriptors, parents
  and life-cycle states of processes, and the reference counts of open files. Most system calls and interrupts are
  of this kind. Each lemma carries a fixed earlier state along, so the lemmas chain.
\<close>

section \<open>Calm operations\<close>

definition same_proc :: "proc \<Rightarrow> proc \<Rightarrow> bool" where
  "same_proc p q \<longleftrightarrow> p_pid q = p_pid p \<and> p_ofile q = p_ofile p \<and> p_parent q = p_parent p \<and>
     (p_state q = UNUSED \<longleftrightarrow> p_state p = UNUSED) \<and> (p_state q = ZOMBIE \<longleftrightarrow> p_state p = ZOMBIE) \<and>
     (p_state q = EMBRYO \<longleftrightarrow> p_state p = EMBRYO) \<and> p_kstack q = p_kstack p \<and> (p_pgdir p \<noteq> 0 \<longrightarrow> p_pgdir q \<noteq> 0) \<and>
     length (p_ticks q) = length (p_ticks p) \<and> length (p_total_ticks q) = length (p_total_ticks p)"

definition calm :: "'a file_st_scheme \<Rightarrow> 'a file_st_scheme \<Rightarrow> bool" where
  "calm s0 s \<longleftrightarrow> list_all2 same_proc (procs s0) (procs s) \<and> nextpid s = nextpid s0 \<and>
     initproc s = initproc s0 \<and> cpu_proc s = cpu_proc s0 \<and> map f_ref (ftable s) = map f_ref (ftable s0)"

lemma same_proc_refl [simp]: "same_proc p p"
  by (simp add: same_proc_def)

lemma same_proc_trans: "same_proc p q \<Longrightarrow> same_proc q r \<Longrightarrow> same_proc p r"
  by (simp add: same_proc_def)

lemma calm_refl: "calm s s"
  by (simp add: calm_def list.rel_refl)

lemma calm_trans: "calm s0 s1 \<Longrightarrow> calm s1 s2 \<Longrightarrow> calm s0 s2"
  using list_all2_trans [of same_proc same_proc same_proc, OF same_proc_trans] by (auto simp: calm_def)

lemma calm_fs: "fs_frame s s' \<Longrightarrow> calm s0 s \<Longrightarrow> calm s0 s'"
proof -
  assume f: "fs_frame s s'"
  have "list_all2 (woken (ticks s)) (procs s) (procs s')" using f by (simp add: fs_frame_def pt_frame_def)
  then have "list_all2 same_proc (procs s) (procs s')"
    by (rule list_all2_mono) (auto simp: woken_def same_proc_def)
  moreover have "ftable s' = ftable s"
    using f by (cases s; cases s') (simp add: fs_frame_def)
  ultimately have "calm s s'" using f by (simp add: calm_def fs_frame_def pt_frame_def)
  then show "calm s0 s \<Longrightarrow> calm s0 s'" by (rule calm_trans [rotated])
qed

lemma calm_vm: "vmf s s' \<Longrightarrow> calm s0 s \<Longrightarrow> calm s0 s'"
proof -
  assume "vmf s s'"
  then have e: "s' = s\<lparr>pmem := pmem s', freelist := freelist s'\<rparr>" by (simp add: vmf_def)
  have "calm s s'" by (subst e) (simp add: calm_def list.rel_refl)
  then show "calm s0 s \<Longrightarrow> calm s0 s'" by (rule calm_trans [rotated])
qed

lemma calm_modp_at: "same_proc (proc_at s i) (f (proc_at s i)) \<Longrightarrow> calm s0 s \<Longrightarrow> calm s0 (modp i f s)"
proof -
  assume "same_proc (proc_at s i) (f (proc_at s i))"
  then have "same_proc (procs s ! k) ((procs s)[i := f (procs s ! i)] ! k)" if "k < length (procs s)" for k
    using that by (cases "k = i") auto
  then have "calm s (modp i f s)" by (simp add: calm_def modp_def list_all2_conv_all_nth)
  then show "calm s0 s \<Longrightarrow> calm s0 (modp i f s)" by (rule calm_trans [rotated])
qed

lemma calm_modp [intro!]: "(\<And>p. same_proc p (f p)) \<Longrightarrow> calm s0 s \<Longrightarrow> calm s0 (modp i f s)"
  by (rule calm_modp_at)

lemma calm_wakeup1 [intro!]: "calm s0 s \<Longrightarrow> calm s0 (wakeup1 ch s)"
proof -
  have "calm s (wakeup1 ch s)"
    by (simp add: calm_def wakeup1_def list_all2_conv_all_nth same_proc_def wake_proc_def)
  then show "calm s0 s \<Longrightarrow> calm s0 (wakeup1 ch s)" by (rule calm_trans [rotated])
qed

lemma calm_wakeup [intro!]: "calm s0 s \<Longrightarrow> calm s0 (wakeup ch s)"
  by (auto simp: wakeup_def)

lemma calm_modf: "(\<And>x. f_ref (g x) = f_ref x) \<Longrightarrow> calm s0 (modf i g s) = calm s0 s"
  by (simp add: calm_def modf_def map_list_update_same)

lemma calm_upd [simp]:
  "calm s0 (setpipe p f s) = calm s0 s" "calm s0 (s\<lparr>cpu_cr3 := a\<rparr>) = calm s0 s"
  "calm s0 (s\<lparr>cpu_esp0 := a\<rparr>) = calm s0 s" "calm s0 (s\<lparr>ticks := t\<rparr>) = calm s0 s"
  "calm s0 (s\<lparr>queues := q\<rparr>) = calm s0 s" "calm s0 (s\<lparr>inodes := n\<rparr>) = calm s0 s"
  "calm s0 (modi ip g s) = calm s0 s" "calm s0 (idup ip s) = calm s0 s"
  by (simp_all add: calm_def setpipe_def modi_def idup_def)

lemma calm_cons_upd [simp]:
  "calm s0 (s\<lparr>uart_out := a\<rparr>) = calm s0 s" "calm s0 (s\<lparr>crt := b\<rparr>) = calm s0 s" "calm s0 (s\<lparr>cga_pos := c\<rparr>) = calm s0 s"
  "calm s0 (s\<lparr>in_buf := d\<rparr>) = calm s0 s" "calm s0 (s\<lparr>in_r := e\<rparr>) = calm s0 s" "calm s0 (s\<lparr>in_w := e\<rparr>) = calm s0 s"
  "calm s0 (s\<lparr>in_e := e\<rparr>) = calm s0 s" "calm s0 (s\<lparr>kbd_shift := e\<rparr>) = calm s0 s"
  by (simp_all add: calm_def)

lemmas fs_calm =
  begin_op_fr [OF _ fs_frame_refl, THEN calm_fs] end_op_fr [OF _ fs_frame_refl, THEN calm_fs]
  iupdate_fr [OF _ fs_frame_refl, THEN calm_fs] ilock_fr [OF _ fs_frame_refl, THEN calm_fs]
  iunlock_fr [OF _ fs_frame_refl, THEN calm_fs] iput_fr [OF _ fs_frame_refl, THEN calm_fs]
  iunlockput_fr [OF _ fs_frame_refl, THEN calm_fs] dirlookup_fr [OF _ fs_frame_refl, THEN calm_fs]
  dirlink_fr [OF _ fs_frame_refl, THEN calm_fs] namei_fr [OF _ fs_frame_refl, THEN calm_fs]
  nameiparent_fr [OF _ fs_frame_refl, THEN calm_fs] readi_file_fr [OF _ fs_frame_refl, THEN calm_fs]
  writei_file_fr [OF _ fs_frame_refl, THEN calm_fs] ialloc_fr [OF _ fs_frame_refl, THEN calm_fs]
  iget_fr [OF _ fs_frame_refl, THEN calm_fs]

lemmas vm_calm =
  kfree_vmf [OF _ vmf_refl, THEN calm_vm] kalloc_vmf [OF _ vmf_refl, THEN calm_vm]
  setupkvm_vmf [OF _ vmf_refl, THEN calm_vm] inituvm_vmf [OF _ vmf_refl, THEN calm_vm]
  allocuvm_vmf [OF _ vmf_refl, THEN calm_vm] deallocuvm_vmf [OF _ vmf_refl, THEN calm_vm]
  freevm_vmf [OF _ vmf_refl, THEN calm_vm] clearpteu_vmf [OF _ vmf_refl, THEN calm_vm]
  copyuvm_vmf [OF _ vmf_refl, THEN calm_vm] copyout_vmf [OF _ vmf_refl, THEN calm_vm]
  ustore_bytes_vmf [OF _ vmf_refl, THEN calm_vm] ustore32_vmf [OF _ vmf_refl, THEN calm_vm]
  walkpgdir_vmf [OF _ vmf_refl, THEN calm_vm]

lemma calm_set_page [intro!]: "calm s0 s \<Longrightarrow> calm s0 (set_page v pg s)"
  by (rule calm_vm [OF vmf_page(1) [OF vmf_refl]])

lemma io_case_Inr_iff [res_iff]:
  "(case r of Ret v \<Rightarrow> f v | Sleeps k \<Rightarrow> g k) = Inr y \<longleftrightarrow>
     (\<exists>v. r = Ret v \<and> f v = Inr y) \<or> (\<exists>k. r = Sleeps k \<and> g k = Inr y)"
  by (cases r) auto

section \<open>Pipes, files and devices\<close>

lemma pipewrite_loop_calm: "pipewrite_loop p src s = Inr (r, s') \<Longrightarrow> calm s0 s \<Longrightarrow> calm s0 s'"
  by (induction p src s rule: pipewrite_loop.induct) (auto simp: Let_def res_iff split: if_splits)

lemma pipewrite_calm: "pipewrite p src s = Inr (r, s') \<Longrightarrow> calm s0 s \<Longrightarrow> calm s0 s'"
  by (auto simp: pipewrite_def pipewrite_run_def res_iff split: if_splits elim!: pipewrite_loop_calm)

lemma piperead_loop_calm: "piperead_loop p n s = (bs, s') \<Longrightarrow> calm s0 s \<Longrightarrow> calm s0 s'"
  by (induction p n s arbitrary: bs rule: piperead_loop.induct) (auto simp: Let_def split: if_splits prod.splits)

lemma piperead_calm: "piperead p n s = Inr (r, bs, s') \<Longrightarrow> calm s0 s \<Longrightarrow> calm s0 s'"
  by (auto simp: piperead_def piperead_run_def Let_def res_iff split: if_splits prod.splits elim!: piperead_loop_calm)

lemma pipeclose_calm: "pipeclose p w s = Inr s' \<Longrightarrow> calm s0 s \<Longrightarrow> calm s0 s'"
  by (auto simp: pipeclose_def Let_def split: if_splits elim!: vm_calm)

lemma consputc_calm: "consputc c s = Inr s' \<Longrightarrow> calm s0 s \<Longrightarrow> calm s0 s'"
  by (auto simp: consputc_def uartputc_def cgaputc_def Let_def split: if_splits prod.splits)

lemma consputs_calm: "consputs bs s = Inr s' \<Longrightarrow> calm s0 s \<Longrightarrow> calm s0 s'"
  by (induction bs s rule: consputs.induct) (auto simp: res_iff dest: consputc_calm)

lemma kill_line_calm: "kill_line s = Inr s' \<Longrightarrow> calm s0 s \<Longrightarrow> calm s0 s'"
proof (induction s rule: kill_line.induct)
  case (1 s)
  from 1(2,3) show ?case
    by (subst (asm) kill_line.simps) (auto simp: res_iff split: if_splits elim!: 1(1) [rotated 2] consputc_calm)
qed

lemma cons_char_calm: "cons_char c s = Inr (d, s') \<Longrightarrow> calm s0 s \<Longrightarrow> calm s0 s'"
  by (auto simp: cons_char_def Let_def res_iff split: if_splits elim!: consputc_calm kill_line_calm)

lemma cons_chars_calm: "cons_chars cs d s = Inr (d', s') \<Longrightarrow> calm s0 s \<Longrightarrow> calm s0 s'"
proof (induction cs arbitrary: d s)
  case (Cons c cs)
  from Cons.prems show ?case by (auto simp: res_iff elim!: Cons.IH cons_char_calm)
qed simp

lemma consoleintr_calm: "consoleintr cs s = Inr (l, s') \<Longrightarrow> calm s0 s \<Longrightarrow> calm s0 s'"
  by (auto simp: consoleintr_def res_iff elim!: cons_chars_calm)

lemma kbdintr_calm: "kbdintr cs s = Inr (l, s') \<Longrightarrow> calm s0 s \<Longrightarrow> calm s0 s'"
  by (auto simp: kbdintr_def split: prod.splits elim!: consoleintr_calm)

lemma consoleread_loop_calm: "consoleread_loop n tg s = Inr (r, bs, s') \<Longrightarrow> calm s0 s \<Longrightarrow> calm s0 s'"
  by (induction n tg s arbitrary: r bs s' rule: consoleread_loop.induct) (auto simp: Let_def res_iff split: if_splits)

lemma consoleread_calm: "consoleread ip n s = Inr (r, bs, s') \<Longrightarrow> calm s0 s \<Longrightarrow> calm s0 s'"
  by (auto simp: consoleread_def res_iff elim!: fs_calm consoleread_loop_calm)

lemma consolewrite_calm: "consolewrite ip bs s = Inr (r, s') \<Longrightarrow> calm s0 s \<Longrightarrow> calm s0 s'"
  by (auto simp: consolewrite_def res_iff elim!: fs_calm consputs_calm)

text \<open>The devices of the switch are calm, so the calls that dispatch to them are.\<close>

definition calm_devs :: "(int \<Rightarrow> 'a file_st_scheme devops) \<Rightarrow> bool" where
  "calm_devs devsw \<longleftrightarrow>
     (\<forall>m f ip n s r bs s' s0. dev_read (devsw m) = Some f \<longrightarrow> f ip n s = Inr (r, bs, s') \<longrightarrow> calm s0 s \<longrightarrow> calm s0 s') \<and>
     (\<forall>m f ip src s r s' s0. dev_write (devsw m) = Some f \<longrightarrow> f ip src s = Inr (r, s') \<longrightarrow> calm s0 s \<longrightarrow> calm s0 s')"

lemma cons_devsw_calm: "calm_devs cons_devsw"
  by (auto simp: calm_devs_def cons_devsw_def split: if_splits elim!: consoleread_calm consolewrite_calm)

lemma readi_calm: "readi devsw ip off n s = Inr (r, bs, s') \<Longrightarrow> calm s0 s \<Longrightarrow> calm_devs devsw \<Longrightarrow> calm s0 s'"
  by (auto simp: readi_def Let_def split: if_splits option.splits elim!: fs_calm) (auto simp: calm_devs_def)

lemma writei_calm: "writei devsw ip src off s = Inr (r, s') \<Longrightarrow> calm s0 s \<Longrightarrow> calm_devs devsw \<Longrightarrow> calm s0 s'"
  by (auto simp: writei_def Let_def split: if_splits option.splits elim!: fs_calm) (auto simp: calm_devs_def)

lemma fileread_calm: "fileread devsw f n s = Inr (r, bs, s') \<Longrightarrow> calm s0 s \<Longrightarrow> calm_devs devsw \<Longrightarrow> calm s0 s'"
  by (auto simp: fileread_def Let_def res_iff calm_modf split: if_splits fd_type.splits
      elim!: piperead_calm readi_calm fs_calm)

lemma filewrite_loop_calm:
  "filewrite_loop devsw f src i s = Inr (r, s') \<Longrightarrow> calm s0 s \<Longrightarrow> calm_devs devsw \<Longrightarrow> calm s0 s'"
proof (induction src arbitrary: i s rule: length_induct)
  case (1 src)
  have IH: "filewrite_loop devsw f (drop n src) j t = Inr (r, s') \<Longrightarrow> calm s0 t \<Longrightarrow> calm s0 s'"
    if "0 < n" "src \<noteq> []" for n j t
    using 1(1) [rule_format, of "drop n src" j t] 1(4) that by simp
  have m: "0 < filewrite_max" by (simp add: filewrite_max_def MAXOPBLOCKS_def)
  from 1(2-4) show ?case
    by (subst (asm) filewrite_loop.simps)
      (auto simp: Let_def res_iff calm_modf m split: if_splits elim!: IH [rotated 2] writei_calm fs_calm)
qed

lemma filewrite_calm: "filewrite devsw f src s = Inr (r, s') \<Longrightarrow> calm s0 s \<Longrightarrow> calm_devs devsw \<Longrightarrow> calm s0 s'"
  by (auto simp: filewrite_def res_iff split: if_splits fd_type.splits elim!: pipewrite_calm filewrite_loop_calm)

section \<open>Calm system calls\<close>

lemma switchuvm_calm: "switchuvm p s = Inr s' \<Longrightarrow> calm s0 s \<Longrightarrow> calm s0 s'"
  by (auto simp: switchuvm_def res_iff split: if_splits)

lemma growproc_calm: "growproc n s = Inr (r, s') \<Longrightarrow> calm s0 s \<Longrightarrow> calm s0 s'"
  by (auto simp: growproc_def Let_def res_iff same_proc_def split: if_splits elim!: switchuvm_calm vm_calm)

lemma loaduvm_calm:
  "loaduvm devsw d a ip off sz s = Inr (r, s') \<Longrightarrow> calm s0 s \<Longrightarrow> calm_devs devsw \<Longrightarrow> calm s0 s'"
proof -
  have "loaduvm_loop devsw d a ip off i n s = Inr (r, s') \<Longrightarrow> calm s0 s \<Longrightarrow> calm_devs devsw \<Longrightarrow> calm s0 s'" for i n
  proof (induction "n - i" arbitrary: i s rule: less_induct)
    case less
    have IH: "loaduvm_loop devsw d a ip off (i + 4096) n t = Inr (r, s') \<Longrightarrow> calm s0 t \<Longrightarrow> calm s0 s'" if "i < n" for t
      using less.hyps [of "i + 4096" t] less.prems(3) that by simp
    from less.prems show ?case
      by (subst (asm) loaduvm_loop.simps)
        (auto simp: Let_def res_iff split: if_splits prod.splits option.splits elim!: IH [rotated] readi_calm vm_calm)
  qed
  then show "loaduvm devsw d a ip off sz s = Inr (r, s') \<Longrightarrow> calm s0 s \<Longrightarrow> calm_devs devsw \<Longrightarrow> calm s0 s'"
    by (auto simp: loaduvm_def split: if_splits)
qed

lemma exec_load_calm:
  "exec_load devsw ip d n off sz s = Inr (r, s') \<Longrightarrow> calm s0 s \<Longrightarrow> calm_devs devsw \<Longrightarrow> calm s0 s'"
proof (induction n arbitrary: off sz s)
  case (Suc n)
  from Suc.prems show ?case
    by (auto simp: Let_def res_iff split: if_splits elim!: Suc.IH readi_calm loaduvm_calm vm_calm)
qed simp

lemma exec_args_calm: "exec_args d args us sp s = Inr (r, s') \<Longrightarrow> calm s0 s \<Longrightarrow> calm s0 s'"
proof (induction args arbitrary: us sp s)
  case (Cons x args)
  from Cons.prems show ?case by (auto simp: Let_def res_iff split: if_splits elim!: Cons.IH vm_calm)
qed simp

lemma exec_bad_calm: "exec_bad d ip s = Inr (r, s') \<Longrightarrow> calm s0 s \<Longrightarrow> calm s0 s'"
  by (auto simp: exec_bad_def res_iff split: if_splits option.splits elim!: vm_calm fs_calm)

lemma exec_commit_calm: "exec_commit c d sz m sp path s = Inr (r, s') \<Longrightarrow> calm s0 s \<Longrightarrow> d \<noteq> 0 \<Longrightarrow> calm s0 s'"
  by (auto simp: exec_commit_def Let_def res_iff same_proc_def elim!: switchuvm_calm vm_calm)

lemma exec_stack_calm: "exec_stack c d sz m path argv s = Inr (r, s') \<Longrightarrow> calm s0 s \<Longrightarrow> d \<noteq> 0 \<Longrightarrow> calm s0 s'"
  by (auto simp: exec_stack_def Let_def res_iff split: if_splits option.splits
      elim!: exec_bad_calm exec_commit_calm exec_args_calm vm_calm)

lemma exec_calm: "exec devsw path argv s = Inr (r, s') \<Longrightarrow> calm s0 s \<Longrightarrow> calm_devs devsw \<Longrightarrow> calm s0 s'"
  by (auto simp: exec_def Let_def res_iff split: if_splits option.splits
      elim!: exec_bad_calm exec_stack_calm exec_load_calm readi_calm fs_calm vm_calm)

lemma with_arg_Inr_iff [res_iff]:
  "with_arg m s f = Inr (r, s') \<longleftrightarrow> (m = Inr None \<and> r = -1 \<and> s' = s) \<or> (\<exists>x. m = Inr (Some x) \<and> f x = Inr (r, s'))"
  by (cases m) (auto simp: with_arg_def split: option.splits)

lemma fail_op_calm: "fail_op s = Inr (r, s') \<Longrightarrow> calm s0 s \<Longrightarrow> calm s0 s'"
  by (auto simp: fail_op_def res_iff elim!: fs_calm)

lemma ustore_stat_calm: "ustore_stat a st s = Inr s' \<Longrightarrow> calm s0 s \<Longrightarrow> calm s0 s'"
  by (auto simp: ustore_stat_def Let_def res_iff elim!: vm_calm)

lemma filestat_calm: "filestat f s = Inr (r, st, s') \<Longrightarrow> calm s0 s \<Longrightarrow> calm s0 s'"
  by (auto simp: filestat_def Let_def res_iff split: if_splits elim!: fs_calm)

lemma link_bad_calm: "link_bad ip s = Inr (r, s') \<Longrightarrow> calm s0 s \<Longrightarrow> calm s0 s'"
  by (auto simp: link_bad_def res_iff elim!: fail_op_calm fs_calm)

lemma unlink_bad_calm: "unlink_bad dp s = Inr (r, s') \<Longrightarrow> calm s0 s \<Longrightarrow> calm s0 s'"
  by (auto simp: unlink_bad_def res_iff elim!: fail_op_calm fs_calm)

lemma isdirempty_calm: "isdirempty dp s = Inr (r, s') \<Longrightarrow> calm s0 s \<Longrightarrow> calm s0 s'"
proof -
  have "isdirempty_loop dp off sz s = Inr (r, s') \<Longrightarrow> calm s0 s \<Longrightarrow> calm s0 s'" for off sz
  proof (induction "sz - off" arbitrary: off s rule: less_induct)
    case less
    have IH: "isdirempty_loop dp (off + 16) sz t = Inr (r, s') \<Longrightarrow> calm s0 t \<Longrightarrow> calm s0 s'" if "off < sz" for t
      using less.hyps [of "off + 16" t] that by simp
    from less.prems show ?case
      by (subst (asm) isdirempty_loop.simps) (auto simp: res_iff split: if_splits elim!: IH [rotated] fs_calm)
  qed
  then show "isdirempty dp s = Inr (r, s') \<Longrightarrow> calm s0 s \<Longrightarrow> calm s0 s'" by (auto simp: isdirempty_def)
qed

lemma unlink_entry_calm: "unlink_entry dp ip off s = Inr (r, s') \<Longrightarrow> calm s0 s \<Longrightarrow> calm s0 s'"
  by (auto simp: unlink_entry_def res_iff split: if_splits elim!: fs_calm)

lemma create_new_calm: "create_new dp nm t mj mn s = Inr (r, s') \<Longrightarrow> calm s0 s \<Longrightarrow> calm s0 s'"
  by (auto simp: create_new_def res_iff split: if_splits elim!: fs_calm)

lemma create_calm: "create path t mj mn s = Inr (r, s') \<Longrightarrow> calm s0 s \<Longrightarrow> calm s0 s'"
  by (auto simp: create_def res_iff split: if_splits option.splits elim!: create_new_calm fs_calm)

lemma open_inode_calm: "open_inode path m s = Inr (r, s') \<Longrightarrow> calm s0 s \<Longrightarrow> calm s0 s'"
  by (auto simp: open_inode_def res_iff split: if_splits option.splits elim!: create_calm fs_calm)

lemma made_calm: "made (r, s) = Inr (v, s') \<Longrightarrow> calm s0 s \<Longrightarrow> calm s0 s'"
  by (auto simp: made_def res_iff split: option.splits elim!: fail_op_calm fs_calm)

lemma kill_calm: "kill pid s = (r, s') \<Longrightarrow> calm s0 s \<Longrightarrow> calm s0 s'"
  by (auto simp: kill_def Let_def same_proc_def split: option.splits)

lemma set_priority_calm: "set_priority pid pr s = (r, s') \<Longrightarrow> calm s0 s \<Longrightarrow> calm s0 s'"
  by (auto simp: set_priority_def same_proc_def split: if_splits option.splits)

named_theorems sys_calm \<open>system calls that are calm whatever the devices do\<close>

lemma sys_rw_calm:
  "sys_read devsw s = Inr (r, s') \<Longrightarrow> calm s0 s \<Longrightarrow> calm_devs devsw \<Longrightarrow> calm s0 s'"
  "sys_write devsw s = Inr (r, s') \<Longrightarrow> calm s0 s \<Longrightarrow> calm_devs devsw \<Longrightarrow> calm s0 s'"
  "sys_exec devsw s = Inr (r, s') \<Longrightarrow> calm s0 s \<Longrightarrow> calm_devs devsw \<Longrightarrow> calm s0 s'"
  by (auto simp: sys_read_def sys_write_def sys_exec_def res_iff elim!: fileread_calm filewrite_calm exec_calm vm_calm)

lemma sys_fs_calm [sys_calm]:
  "sys_fstat s = Inr (r, s') \<Longrightarrow> calm s0 s \<Longrightarrow> calm s0 s'"
  "sys_mkdir s = Inr (r, s') \<Longrightarrow> calm s0 s \<Longrightarrow> calm s0 s'"
  "sys_mknod s = Inr (r, s') \<Longrightarrow> calm s0 s \<Longrightarrow> calm s0 s'"
  by (auto simp: sys_fstat_def sys_mkdir_def sys_mknod_def res_iff split: option.splits
      elim!: filestat_calm ustore_stat_calm made_calm create_calm fail_op_calm fs_calm)

lemma sys_link_calm [sys_calm]: "sys_link s = Inr (r, s') \<Longrightarrow> calm s0 s \<Longrightarrow> calm s0 s'"
  by (auto simp: sys_link_def res_iff split: if_splits option.splits elim!: link_bad_calm fail_op_calm fs_calm)

lemma sys_unlink_calm [sys_calm]: "sys_unlink s = Inr (r, s') \<Longrightarrow> calm s0 s \<Longrightarrow> calm s0 s'"
  by (auto simp: sys_unlink_def res_iff split: if_splits option.splits
      elim!: unlink_bad_calm unlink_entry_calm isdirempty_calm fail_op_calm fs_calm)

lemma sys_chdir_calm [sys_calm]: "sys_chdir s = Inr (r, s') \<Longrightarrow> calm s0 s \<Longrightarrow> calm s0 s'"
  by (auto simp: sys_chdir_def res_iff same_proc_def split: if_splits option.splits elim!: fail_op_calm fs_calm)

lemma sys_proc_calm [sys_calm]:
  "sys_kill s = Inr (r, s') \<Longrightarrow> calm s0 s \<Longrightarrow> calm s0 s'"
  "sys_set_priority s = Inr (r, s') \<Longrightarrow> calm s0 s \<Longrightarrow> calm s0 s'"
  "sys_getpid s = Inr (r, s') \<Longrightarrow> calm s0 s \<Longrightarrow> calm s0 s'"
  "sys_sbrk s = Inr (r, s') \<Longrightarrow> calm s0 s \<Longrightarrow> calm s0 s'"
  "sys_sleep s = Inr (r, s') \<Longrightarrow> calm s0 s \<Longrightarrow> calm s0 s'"
  "sys_uptime s = Inr (r, s') \<Longrightarrow> calm s0 s \<Longrightarrow> calm s0 s'"
  "sys_getpinfo s = Inr (r, s') \<Longrightarrow> calm s0 s \<Longrightarrow> calm s0 s'"
  "sys_ps s = Inr (r, s') \<Longrightarrow> calm s0 s \<Longrightarrow> calm s0 s'"
  by (auto simp: sys_kill_def sys_set_priority_def sys_getpid_def sys_sbrk_def sys_sleep_def sleep_loop_def
      sys_uptime_def sys_getpinfo_def sys_ps_def getpinfo_def Let_def res_iff split: if_splits option.splits
      elim!: growproc_calm kill_calm set_priority_calm vm_calm)

section \<open>Calm interrupts\<close>

lemma aincr_length: "aincr a i = Inr b \<Longrightarrow> length b = length a"
  by (auto simp: aincr_def res_iff aput_Inr_iff)

lemma charge_tick_calm: "charge_tick cur s = Inr s' \<Longrightarrow> calm s0 s \<Longrightarrow> calm s0 s'"
  by (auto simp: charge_tick_def Let_def res_iff same_proc_def dest!: aincr_length split: if_splits
      intro!: calm_modp_at)

lemma timer_tick_calm: "timer_tick s = Inr s' \<Longrightarrow> calm s0 s \<Longrightarrow> calm s0 s'"
  by (auto simp: timer_tick_def Let_def split: option.splits elim!: charge_tick_calm)

lemma trap_switch_calm: "trap_switch cpu input tf s = Inr s' \<Longrightarrow> calm s0 s \<Longrightarrow> calm s0 s'"
  by (auto simp: trap_switch_def Let_def res_iff kbdintr_def uartintr_def same_proc_def
      split: if_splits option.splits prod.splits elim!: timer_tick_calm consoleintr_calm)

lemma set_eax_calm: "calm s0 s \<Longrightarrow> calm s0 (set_eax cur r s)"
  by (auto simp: set_eax_def same_proc_def)

end
