(* ===== verification/Kernel_Inv.thy ===== *)
theory Kernel_Inv
  imports Calm
begin

text \<open>
  The invariant of the running kernel over the process table and the open-file table, and the steps that
  keep it. It says that the tables have their C sizes, that processes in use have distinct identifiers that
  \<open>allocproc\<close> has given out, that a process that can run has a kernel stack and a page directory, that a free
  slot or a zombie has no descriptor, and that the reference count of every open file is the number
  of descriptors that stand for it. Inside a system call the last may be off by a debt, which is a
  parameter: it says by how much each count exceeds the descriptors.
\<close>

section \<open>The invariant\<close>

definition held :: "nat \<Rightarrow> nat option list \<Rightarrow> int" where
  "held f fds = sum_list (map (\<lambda>d. of_bool (d = Some f)) fds)"

definition refs :: "'a ptable_st_scheme \<Rightarrow> nat \<Rightarrow> int" where
  "refs s f = sum_list (map (\<lambda>p. held f (p_ofile p)) (procs s))"

definition ref_of :: "'a file_st_scheme \<Rightarrow> nat \<Rightarrow> int" where
  "ref_of s f = (if f < length (ftable s) then f_ref (file_at s f) else 0)"

definition shaped :: "proc \<Rightarrow> bool" where
  "shaped p \<longleftrightarrow> length (p_ofile p) = NOFILE \<and> length (p_ticks p) = 5 \<and> length (p_total_ticks p) = 5 \<and>
     (\<forall>q. p_parent p = Some q \<longrightarrow> q < NPROC)"

definition proc_ok :: "int \<Rightarrow> proc \<Rightarrow> bool" where
  "proc_ok n p \<longleftrightarrow> shaped p \<and> (p_state p \<noteq> UNUSED \<longrightarrow> 0 < p_pid p \<and> p_pid p < n) \<and>
     (p_state p = UNUSED \<or> p_state p = ZOMBIE \<longrightarrow> set (p_ofile p) \<subseteq> {None}) \<and>
     (p_state p \<in> {SLEEPING, RUNNABLE, RUNNING} \<longrightarrow> p_kstack p \<noteq> 0 \<and> p_pgdir p \<noteq> 0)"

definition kinv :: "(nat \<Rightarrow> int) \<Rightarrow> 'a file_st_scheme \<Rightarrow> bool" where
  "kinv X s \<longleftrightarrow> length (procs s) = NPROC \<and> length (ftable s) = NFILE \<and> 0 < nextpid s \<and>
     (\<forall>i < NPROC. proc_ok (nextpid s) (proc_at s i)) \<and>
     (\<forall>i < NPROC. \<forall>j < NPROC. p_state (proc_at s i) \<noteq> UNUSED \<longrightarrow> p_state (proc_at s j) \<noteq> UNUSED \<longrightarrow>
        p_pid (proc_at s i) = p_pid (proc_at s j) \<longrightarrow> i = j) \<and>
     (\<forall>c. cpu_proc s = Some c \<longrightarrow> c < NPROC \<and> p_state (proc_at s c) \<noteq> UNUSED) \<and>
     (\<forall>c. initproc s = Some c \<longrightarrow> c < NPROC) \<and>
     (\<forall>f. ref_of s f = refs s f + X f)"

abbreviation no_debt :: "nat \<Rightarrow> int" where "no_debt \<equiv> \<lambda>_. 0"

definition bump :: "nat \<Rightarrow> int \<Rightarrow> (nat \<Rightarrow> int) \<Rightarrow> nat \<Rightarrow> int" where
  "bump f d X = X(f := X f + d)"

lemma bump_simps [simp]: "bump f a (bump f b X) = bump f (a + b) X" "bump f 0 X = X"
  by (simp_all add: bump_def add.commute add.left_commute)

lemma bump_commute: "bump f a (bump g b X) = bump g b (bump f a X)"
  by (auto simp: bump_def fun_eq_iff)

lemma held_nonneg: "0 \<le> held f fds"
  by (induction fds) (simp_all add: held_def)

lemma held_pos: "Some f \<in> set fds \<Longrightarrow> 0 < held f fds"
proof (induction fds)
  case (Cons d fds)
  then show ?case using held_nonneg [of f fds] by (cases "d = Some f") (auto simp: held_def)
qed simp

lemma held_update: "fd < length fds \<Longrightarrow> held f (fds[fd := d]) = held f fds - of_bool (fds ! fd = Some f) + of_bool (d = Some f)"
  by (simp add: held_def map_update sum_list_update_int)

lemma refs_modp:
  "i < length (procs s) \<Longrightarrow> refs (modp i g s) f = refs s f - held f (p_ofile (proc_at s i)) + held f (p_ofile (g (proc_at s i)))"
  by (simp add: refs_def map_update sum_list_update_int)

lemma refs_pos:
  assumes "Some f \<in> set (p_ofile (proc_at s i))" "i < length (procs s)"
  shows "0 < refs s f"
proof -
  have "held f (p_ofile (proc_at s i)) \<le> refs s f"
    unfolding refs_def using nth_le_sum_list [of i "map (\<lambda>p. held f (p_ofile p)) (procs s)"] assms(2)
    by (auto simp: held_nonneg)
  then show ?thesis using held_pos [OF assms(1)] by simp
qed

lemma kinvD:
  assumes "kinv X s"
  shows "ref_of s f = refs s f + X f"
    "i < NPROC \<Longrightarrow> j < NPROC \<Longrightarrow> p_state (proc_at s i) \<noteq> UNUSED \<Longrightarrow> p_state (proc_at s j) \<noteq> UNUSED \<Longrightarrow>
      p_pid (proc_at s i) = p_pid (proc_at s j) \<Longrightarrow> i = j"
    "length (procs s) = NPROC" "length (ftable s) = NFILE" "i < NPROC \<Longrightarrow> proc_ok (nextpid s) (proc_at s i)"
    "cpu_proc s = Some i \<Longrightarrow> i < NPROC" "cpu_proc s = Some i \<Longrightarrow> p_state (proc_at s i) \<noteq> UNUSED"
    "initproc s = Some i \<Longrightarrow> i < NPROC" "0 < nextpid s"
  using assms by (simp_all add: kinv_def)

lemma ref_of_modp [simp]: "ref_of (modp i g s) f = ref_of s f"
  by (simp add: ref_of_def modp_def)

lemma kinv_file:
  assumes "kinv X s" "Some f \<in> set (p_ofile (proc_at s i))" "i < NPROC" "0 \<le> X f"
  shows "f < NFILE \<and> 0 < f_ref (file_at s f)"
  using refs_pos [OF assms(2)] assms unfolding kinv_def ref_of_def
  by (metis add_pos_nonneg less_irrefl)

section \<open>Calm steps keep it\<close>

lemma same_proc_ok: "same_proc p q \<Longrightarrow> proc_ok n p \<Longrightarrow> proc_ok n q"
  by (cases "p_state p"; cases "p_state q") (auto simp: same_proc_def proc_ok_def shaped_def)

lemma calm_nth:
  assumes "calm s s'"
  shows "length (procs s') = length (procs s)"
    "i < length (procs s) \<Longrightarrow> same_proc (proc_at s i) (proc_at s' i)"
    "nextpid s' = nextpid s" "cpu_proc s' = cpu_proc s" "initproc s' = initproc s"
  using assms by (auto simp: calm_def list_all2_conv_all_nth)

lemma calm_refs: "calm s s' \<Longrightarrow> refs s' f = refs s f"
proof -
  assume "calm s s'"
  then have "map p_ofile (procs s') = map p_ofile (procs s)"
    by (auto simp: list_eq_iff_nth_eq calm_nth dest!: calm_nth(2) simp: same_proc_def)
  then have "map (held f) (map p_ofile (procs s')) = map (held f) (map p_ofile (procs s))" by simp
  then show ?thesis by (simp add: refs_def comp_def)
qed

lemma calm_ref_of: "calm s s' \<Longrightarrow> ref_of s' f = ref_of s f"
proof -
  assume "calm s s'"
  then have m: "map f_ref (ftable s') = map f_ref (ftable s)" by (simp add: calm_def)
  then have "length (ftable s') = length (ftable s)" by (rule map_eq_imp_length_eq)
  with m show ?thesis unfolding ref_of_def by (metis nth_map)
qed

lemma calm_ftable: "calm s s' \<Longrightarrow> length (ftable s') = length (ftable s)"
  by (auto simp: calm_def dest: map_eq_imp_length_eq)

lemma kinv_calm:
  assumes "calm s s'" "kinv X s"
  shows "kinv X s'"
proof -
  have n: "length (procs s) = NPROC" using assms(2) by (simp add: kinv_def)
  have sp: "same_proc (proc_at s i) (proc_at s' i)" if "i < NPROC" for i
    using calm_nth(2) [OF assms(1)] that n by simp
  have "proc_ok (nextpid s') (proc_at s' i)" if "i < NPROC" for i
    using same_proc_ok [OF sp [OF that]] assms(2) that calm_nth(3) [OF assms(1)] by (simp add: kinv_def)
  moreover have "p_pid (proc_at s' i) = p_pid (proc_at s i)"
    "p_state (proc_at s' i) = UNUSED \<longleftrightarrow> p_state (proc_at s i) = UNUSED" if "i < NPROC" for i
    using sp [OF that] by (simp_all add: same_proc_def)
  ultimately show ?thesis
    using assms(2) unfolding kinv_def
    by (simp add: calm_nth [OF assms(1)] calm_ftable [OF assms(1)] calm_refs [OF assms(1)] calm_ref_of [OF assms(1)])
qed

lemma kinv_tweak: "kinv X s \<Longrightarrow> (\<And>p. same_proc p (g p)) \<Longrightarrow> kinv X (modp i g s)"
  by (rule kinv_calm [OF calm_modp [OF _ calm_refl]])

section \<open>Steps on open files\<close>

lemma kinv_modf:
  assumes "kinv X s" "f < NFILE" "f_ref (g (file_at s f)) = f_ref (file_at s f) + d"
  shows "kinv (bump f d X) (modf f g s)"
proof -
  have "ref_of (modf f g s) h = ref_of s h + (if h = f then d else 0)" "refs (modf f g s) h = refs s h" for h
    using assms by (simp_all add: kinv_def ref_of_def refs_def modf_def)
  then show ?thesis using assms(1) by (simp add: kinv_def bump_def) (simp add: modf_def)
qed

lemma filealloc_kinv:
  assumes "filealloc s = (Some f, s')" "kinv X s"
  shows "f < NFILE" "kinv (bump f 1 X) s'"
proof -
  from assms have f: "f < NFILE" "f_ref (file_at s f) = 0" "s' = modf f (\<lambda>x. x\<lparr>f_ref := 1\<rparr>) s"
    by (auto simp: filealloc_def kinv_def split: option.splits dest: first_idx_SomeD)
  then show "f < NFILE" "kinv (bump f 1 X) s'" using kinv_modf [OF assms(2)] by simp_all
qed

lemma filedup_kinv: "filedup f s = Inr (f', s') \<Longrightarrow> kinv X s \<Longrightarrow> f < NFILE \<Longrightarrow> f' = f \<and> kinv (bump f 1 X) s'"
  by (auto simp: filedup_def split: if_splits intro!: kinv_modf)

lemma fileclose_calm:
  assumes "fileclose f s = Inr s'" "f < length (ftable s)"
  shows "calm (modf f (\<lambda>x. x\<lparr>f_ref := f_ref x - 1\<rparr>) s) s'"
proof -
  let ?s1 = "modf f (\<lambda>x. x\<lparr>f_ref := f_ref x - 1\<rparr>) s"
  have "calm ?s1 (modf f (\<lambda>x. x\<lparr>f_ref := 0, f_type := FD_NONE\<rparr>) ?s1)" if "f_ref (file_at s f) = 1"
    using that assms(2) calm_refl [of ?s1] by (simp add: calm_def modf_def map_update)
  then show ?thesis
    using assms
    by (auto simp: fileclose_def Let_def res_iff modf_def calm_refl split: if_splits fd_type.splits
        elim!: fs_calm pipeclose_calm)
qed

lemma fileclose_kinv: "fileclose f s = Inr s' \<Longrightarrow> kinv X s \<Longrightarrow> f < NFILE \<Longrightarrow> kinv (bump f (- 1) X) s'"
proof -
  assume a: "fileclose f s = Inr s'" "kinv X s" "f < NFILE"
  then have "calm (modf f (\<lambda>x. x\<lparr>f_ref := f_ref x - 1\<rparr>) s) s'" by (intro fileclose_calm) (auto simp: kinv_def)
  then show ?thesis by (rule kinv_calm) (rule kinv_modf [OF a(2,3)], simp)
qed

section \<open>Steps on descriptors\<close>

lemma kinv_modp:
  assumes "kinv X s" "i < NPROC" "proc_ok (nextpid s) (g (proc_at s i))"
    and "p_state (g (proc_at s i)) \<noteq> UNUSED \<Longrightarrow>
      p_state (proc_at s i) \<noteq> UNUSED \<and> p_pid (g (proc_at s i)) = p_pid (proc_at s i)"
    and "cpu_proc s = Some i \<Longrightarrow> p_state (g (proc_at s i)) \<noteq> UNUSED"
    and "\<And>f. Y f = X f + held f (p_ofile (proc_at s i)) - held f (p_ofile (g (proc_at s i)))"
  shows "kinv Y (modp i g s)"
proof -
  have n: "length (procs s) = NPROC" using assms(1) by (simp add: kinv_def)
  have used: "p_state (proc_at s j) \<noteq> UNUSED" "p_pid (proc_at (modp i g s) j) = p_pid (proc_at s j)"
    if "j < NPROC" "p_state (proc_at (modp i g s) j) \<noteq> UNUSED" for j
    using that assms(2,4) n by (cases "j = i"; simp)+
  have "ref_of (modp i g s) f = refs (modp i g s) f + Y f" for f
    using kinvD(1) [OF assms(1)] assms(2,6) n by (simp add: refs_modp)
  moreover have "length (ftable (modp i g s)) = length (ftable s)" by (simp add: modp_def)
  moreover have "\<forall>j < NPROC. \<forall>k < NPROC. p_state (proc_at (modp i g s) j) \<noteq> UNUSED \<longrightarrow>
      p_state (proc_at (modp i g s) k) \<noteq> UNUSED \<longrightarrow>
      p_pid (proc_at (modp i g s) j) = p_pid (proc_at (modp i g s) k) \<longrightarrow> j = k"
    using kinvD(2) [OF assms(1)] used by metis
  moreover have "\<forall>j < NPROC. proc_ok (nextpid s) (proc_at (modp i g s) j)"
    "\<forall>c. cpu_proc s = Some c \<longrightarrow> c < NPROC \<and> p_state (proc_at (modp i g s) c) \<noteq> UNUSED"
    using assms(1-3,5) n by (simp_all add: kinv_def nth_list_update)
  ultimately show ?thesis
    using kinvD(3,4,8,9) [OF assms(1)] unfolding kinv_def by simp
qed

lemma kinv_set_fd:
  assumes "kinv X s" "i < NPROC" "fd < NOFILE" "d = None \<or> p_state (proc_at s i) \<notin> {UNUSED, ZOMBIE}"
    and "\<And>f. Y f = X f + of_bool (p_ofile (proc_at s i) ! fd = Some f) - of_bool (d = Some f)"
  shows "kinv Y (modp i (\<lambda>p. p\<lparr>p_ofile := (p_ofile p)[fd := d]\<rparr>) s)"
proof -
  have ok: "proc_ok (nextpid s) (proc_at s i)" using assms(1,2) by (simp add: kinv_def)
  have "set ((p_ofile (proc_at s i))[fd := d]) \<subseteq> {None}" if "p_state (proc_at s i) \<in> {UNUSED, ZOMBIE}"
    using that ok assms(4) set_update_subset_insert [of "p_ofile (proc_at s i)" fd d] by (auto simp: proc_ok_def)
  then have "proc_ok (nextpid s) ((proc_at s i)\<lparr>p_ofile := (p_ofile (proc_at s i))[fd := d]\<rparr>)"
    using ok by (auto simp: proc_ok_def shaped_def)
  moreover have "length (p_ofile (proc_at s i)) = NOFILE" using ok by (simp add: proc_ok_def shaped_def)
  moreover have "cpu_proc s = Some i \<Longrightarrow> p_state (proc_at s i) \<noteq> UNUSED" using assms(1) by (simp add: kinv_def)
  ultimately show ?thesis
    using assms(1-3,5) by (intro kinv_modp) (simp_all add: held_update)
qed

text \<open>A current process that is not a zombie.\<close>

definition current :: "nat \<Rightarrow> 'a ptable_st_scheme \<Rightarrow> bool" where
  "current c s \<longleftrightarrow> cpu_proc s = Some c \<and> p_state (proc_at s c) \<noteq> ZOMBIE"

lemma kinv_currentD: "kinv X s \<Longrightarrow> current c s \<Longrightarrow> c < NPROC \<and> p_state (proc_at s c) \<notin> {UNUSED, ZOMBIE}"
  by (auto simp: kinv_def current_def)

lemma fdalloc_kinv:
  assumes "fdalloc f s = Inr (fd, s')" "kinv X s" "current c s"
  shows "if fd < 0 then s' = s else kinv (bump f (- 1) X) s' \<and> current c s' \<and> nat fd < NOFILE \<and>
     p_ofile (proc_at s' c) ! nat fd = Some f"
proof (cases "first_idx (\<lambda>o'. o' = None) (p_ofile (proc_at s c))")
  case None
  with assms show ?thesis by (auto simp: fdalloc_def current_def)
next
  case (Some k)
  have c: "c < NPROC" "p_state (proc_at s c) \<notin> {UNUSED, ZOMBIE}" using kinv_currentD [OF assms(2,3)] by simp_all
  have l: "length (p_ofile (proc_at s c)) = NOFILE" "length (procs s) = NPROC"
    using kinvD(3,5) [OF assms(2)] c by (simp_all add: proc_ok_def shaped_def)
  have k: "k < NOFILE" "p_ofile (proc_at s c) ! k = None" using first_idx_SomeD [OF Some] l by simp_all
  from assms Some have s': "fd = int k" "s' = modp c (\<lambda>p. p\<lparr>p_ofile := (p_ofile p)[k := Some f]\<rparr>) s"
    by (auto simp: fdalloc_def current_def)
  have "kinv (bump f (- 1) X) s'" unfolding s'(2)
    by (rule kinv_set_fd [OF assms(2) c(1) k(1)]) (use c k in \<open>auto simp: bump_def\<close>)
  then show ?thesis using k c l assms(3) by (simp add: s' current_def)
qed

lemma clear_fd_kinv:
  assumes "clear_fd fd s = Inr s'" "kinv X s" "current c s" "fd < NOFILE" "p_ofile (proc_at s c) ! fd = Some f"
  shows "kinv (bump f 1 X) s' \<and> current c s'"
proof -
  have c: "c < NPROC" using kinv_currentD [OF assms(2,3)] by simp
  have s': "s' = modp c (\<lambda>p. p\<lparr>p_ofile := (p_ofile p)[fd := None]\<rparr>) s"
    using assms(1,3) by (auto simp: clear_fd_def current_def)
  have "kinv (bump f 1 X) s'" unfolding s'
    by (rule kinv_set_fd [OF assms(2) c assms(4)]) (use assms(5) in \<open>auto simp: bump_def\<close>)
  then show ?thesis using kinvD(3) [OF assms(2)] assms(3) c by (simp add: s' current_def)
qed

lemma argfd_kinv:
  assumes "argfd n s = Inr (Some (fd, f))" "kinv no_debt s" "current c s"
  shows "fd < NOFILE" "p_ofile (proc_at s c) ! fd = Some f" "f < NFILE"
proof -
  have c: "c < NPROC" using kinv_currentD [OF assms(2,3)] by simp
  have l: "length (p_ofile (proc_at s c)) = NOFILE" using kinvD(5) [OF assms(2) c] by (simp add: proc_ok_def shaped_def)
  show fd: "fd < NOFILE" "p_ofile (proc_at s c) ! fd = Some f"
    using assms(1,3) by (auto simp: argfd_def res_iff current_def split: option.splits if_splits)
  have "Some f \<in> set (p_ofile (proc_at s c))" using fd l nth_mem [of fd "p_ofile (proc_at s c)"] by simp
  then show "f < NFILE" using kinv_file [OF assms(2) _ c] by simp
qed

lemma sys_dup_kinv:
  assumes "sys_dup s = Inr (r, s')" "kinv no_debt s" "current c s"
  shows "kinv no_debt s'"
  using assms(1,2)
  by (auto simp: sys_dup_def res_iff split: if_splits dest!: fdalloc_kinv [OF _ assms(2,3)] filedup_kinv
      dest: argfd_kinv [OF _ assms(2,3)])

lemma sys_close_kinv:
  assumes "sys_close s = Inr (r, s')" "kinv no_debt s" "current c s"
  shows "kinv no_debt s'"
proof -
  from assms(1,2) consider "s' = s" | fd f s1 where "argfd 0 s = Inr (Some (fd, f))" "clear_fd fd s = Inr s1" "fileclose f s1 = Inr s'"
    by (auto simp: sys_close_def res_iff)
  then show ?thesis
  proof cases
    case 2
    note a = argfd_kinv [OF 2(1) assms(2,3)]
    from fileclose_kinv [OF 2(3) _ a(3)] clear_fd_kinv [OF 2(2) assms(2,3) a(1,2)] show ?thesis by fastforce
  qed (use assms(2) in simp)
qed

section \<open>Opening files and pipes\<close>

definition alive :: "(nat \<Rightarrow> int) \<Rightarrow> nat \<Rightarrow> 'a file_st_scheme \<Rightarrow> bool" where
  "alive X c s \<longleftrightarrow> kinv X s \<and> current c s"

lemma alive_calm: "calm s s' \<Longrightarrow> alive X c s \<Longrightarrow> alive X c s'"
proof -
  assume a: "calm s s'" "alive X c s"
  then have "same_proc (proc_at s c) (proc_at s' c)"
    using kinvD(3,6) [of X s] calm_nth(2) [of s s' c] by (auto simp: alive_def current_def)
  then show ?thesis using a kinv_calm [OF a(1)] calm_nth(4) [OF a(1)] by (auto simp: alive_def current_def same_proc_def)
qed

lemmas fs_alive = fs_calm [OF _ calm_refl, THEN alive_calm]
lemmas vm_alive = vm_calm [OF _ calm_refl, THEN alive_calm]

lemma alive_modf: "alive X c s \<Longrightarrow> f < NFILE \<Longrightarrow> f_ref (g (file_at s f)) = f_ref (file_at s f) + d \<Longrightarrow> alive (bump f d X) c (modf f g s)"
  using kinv_modf [of X s f g d] by (simp add: alive_def current_def modf_def)

lemma alive_modf0: "alive X c s \<Longrightarrow> f < NFILE \<Longrightarrow> f_ref (g (file_at s f)) = f_ref (file_at s f) \<Longrightarrow> kinv X (modf f g s)"
  using alive_modf [of X c s f g 0] by (simp add: alive_def)

lemma filealloc_alive: "filealloc s = (r, s') \<Longrightarrow> alive X c s \<Longrightarrow>
    case r of None \<Rightarrow> s' = s | Some f \<Rightarrow> f < NFILE \<and> alive (bump f 1 X) c s'"
  using filealloc_kinv [of s _ s' X]
  by (auto simp: alive_def split: option.splits) (auto simp: filealloc_def modf_def current_def split: option.splits)

lemma fileclose_alive: "fileclose f s = Inr s' \<Longrightarrow> alive X c s \<Longrightarrow> f < NFILE \<Longrightarrow> alive (bump f (- 1) X) c s'"
proof -
  assume a: "fileclose f s = Inr s'" "alive X c s" "f < NFILE"
  then have "calm (modf f (\<lambda>x. x\<lparr>f_ref := f_ref x - 1\<rparr>) s) s'"
    by (intro fileclose_calm) (auto simp: alive_def kinvD(4))
  then show ?thesis by (rule alive_calm) (rule alive_modf [OF a(2,3)], simp)
qed

lemma fdalloc_alive:
  "fdalloc f s = Inr (fd, s') \<Longrightarrow> alive X c s \<Longrightarrow> if fd < 0 then s' = s else alive (bump f (- 1) X) c s' \<and>
     nat fd < NOFILE \<and> p_ofile (proc_at s' c) ! nat fd = Some f"
  using fdalloc_kinv [of f s fd s' X c] by (auto simp: alive_def split: if_splits)

lemma clear_fd_alive:
  "clear_fd fd s = Inr s' \<Longrightarrow> alive X c s \<Longrightarrow> fd < NOFILE \<Longrightarrow> p_ofile (proc_at s c) ! fd = Some f \<Longrightarrow> alive (bump f 1 X) c s'"
  using clear_fd_kinv [of fd s s' X c f] by (simp add: alive_def)

lemma alive_kinv: "alive X c s \<Longrightarrow> kinv X s"
  by (simp add: alive_def)

lemma open_fail_kinv:
  assumes "open_fail r ip s = Inr (v, s')"
    and "case r of None \<Rightarrow> alive no_debt c s | Some f \<Rightarrow> f < NFILE \<and> alive (bump f 1 no_debt) c s"
  shows "kinv no_debt s'"
proof -
  from assms(1) obtain s1 s2 where s: "close_opt r s = Inr s1" "iunlockput ip s1 = Inr s2" "fail_op s2 = Inr (v, s')"
    by (auto simp: open_fail_def res_iff)
  have "alive no_debt c s1"
    using s(1) assms(2) fileclose_alive [of _ s s1 _ c] by (fastforce simp: close_opt_def split: option.splits)
  then show ?thesis using s(2,3) fail_op_calm [OF _ calm_refl] by (blast intro: alive_kinv alive_calm fs_alive)
qed

lemma open_file_kinv:
  assumes "open_file ip omode s = Inr (r, s')" "alive no_debt c s"
  shows "kinv no_debt s'"
proof (cases "filealloc s")
  case (Pair ff s1)
  note fa = filealloc_alive [OF Pair assms(2)]
  show ?thesis
  proof (cases ff)
    case None
    with assms fa Pair show ?thesis by (auto simp: open_file_def elim: open_fail_kinv [where c = c])
  next
    case (Some f)
    with assms(1) Pair obtain fd s2 where fd: "fdalloc f s1 = Inr (fd, s2)" by (auto simp: open_file_def res_iff)
    note s2 = fdalloc_alive [OF fd]
    show ?thesis
    proof (cases "fd < 0")
      case True
      with assms(1) Pair Some fd have "open_fail (Some f) ip s2 = Inr (r, s')" by (simp add: open_file_def)
      then show ?thesis by (rule open_fail_kinv [where c = c]) (use fa Some s2 True in auto)
    next
      case False
      with s2 fa Some have "f < NFILE" "alive no_debt c s2" by fastforce+
      with assms(1) Pair Some fd False show ?thesis
        by (auto simp: open_file_def res_iff Let_def intro!: alive_modf0 [where c = c] elim!: fs_alive)
    qed
  qed
qed

lemma sys_open_kinv: "sys_open s = Inr (r, s') \<Longrightarrow> alive no_debt c s \<Longrightarrow> kinv no_debt s'"
  by (auto simp: sys_open_def res_iff split: option.splits
      elim!: open_file_kinv open_inode_calm [OF _ calm_refl, THEN alive_calm, THEN alive_kinv]
       open_inode_calm [OF _ calm_refl, THEN alive_calm] fs_alive intro: alive_kinv)

lemma pipealloc_alive:
  assumes "pipealloc s = Inr (r, rd, wr, s')" "alive no_debt c s"
  shows "if r < 0 then kinv no_debt s'
    else \<exists>f g. rd = Some f \<and> wr = Some g \<and> f < NFILE \<and> g < NFILE \<and> alive (bump f 1 (bump g 1 no_debt)) c s'"
proof -
  obtain r0 s0 where f0: "filealloc s = (r0, s0)" by fastforce
  obtain r1 s1 where f1: "filealloc s0 = (r1, s1)" by fastforce
  obtain p s2 where k: "kalloc s1 = (p, s2)" by fastforce
  note a0 = filealloc_alive [OF f0 assms(2)]
  show ?thesis
  proof (cases r0)
    case None
    then show ?thesis using assms f0 a0 by (auto simp: pipealloc_def pipealloc_bad_def close_opt_def alive_def)
  next
    case (Some f)
    then have f: "f < NFILE" "alive (bump f 1 no_debt) c s0" using a0 by auto
    note a1 = filealloc_alive [OF f1 f(2)]
    show ?thesis
    proof (cases r1)
      case None
      then show ?thesis using assms f0 f1 a1 Some f fileclose_alive [OF _ f(2), of f s']
        by (auto simp: pipealloc_def pipealloc_bad_def res_iff close_opt_def intro: alive_kinv)
    next
      case g: (Some g)
      then have g': "g < NFILE" "alive (bump g 1 (bump f 1 no_debt)) c s1" using a1 by auto
      have a2: "alive (bump g 1 (bump f 1 no_debt)) c s2" using vm_alive k g'(2) by blast
      show ?thesis
      proof (cases "p = 0")
        case True
        then obtain s3 where s3: "fileclose f s2 = Inr s3" "fileclose g s3 = Inr s'" "r = -1"
          using assms f0 f1 k Some g by (auto simp: pipealloc_def pipealloc_bad_def close_opt_def res_iff)
        from fileclose_alive [OF s3(2) fileclose_alive [OF s3(1) a2 f(1)] g'(1)] s3(3)
        show ?thesis by (simp add: bump_commute [of g _ f] alive_def)
      next
        case False
        have "alive (bump f 1 (bump g 1 no_debt)) c (modf g h2 (modf f h1 (setpipe p j s2)))"
          if "\<And>x. f_ref (h1 x) = f_ref x" "\<And>x. f_ref (h2 x) = f_ref x" for h1 h2 j
          by (rule alive_calm [OF _ a2 [unfolded bump_commute [of g _ f]]]) (simp add: calm_modf that calm_refl)
        then show ?thesis using assms f0 f1 k Some g False f(1) g'(1) by (auto simp: pipealloc_def Let_def)
      qed
    qed
  qed
qed

lemma pipe_undo_kinv:
  assumes "pipe_undo fd0 f g s = Inr (v, s')" "f < NFILE" "g < NFILE"
    and "if fd0 < 0 then alive (bump f 1 (bump g 1 no_debt)) c s
      else alive (bump g 1 no_debt) c s \<and> nat fd0 < NOFILE \<and> p_ofile (proc_at s c) ! nat fd0 = Some f"
  shows "kinv no_debt s'"
proof -
  from assms(1) obtain s1 s2 where s: "(if fd0 \<ge> 0 then clear_fd (nat fd0) s else Inr s) = Inr s1"
    "fileclose f s1 = Inr s2" "fileclose g s2 = Inr s'" by (auto simp: pipe_undo_def res_iff)
  have "alive (bump f 1 (bump g 1 no_debt)) c s1"
    using s(1) assms(4) by (auto split: if_splits elim!: clear_fd_alive)
  from fileclose_alive [OF s(3) fileclose_alive [OF s(2) this assms(2)] assms(3)] show ?thesis by (simp add: alive_def)
qed

lemma pipe_fds_kinv:
  assumes "pipe_fds fd f g s = Inr (v, s')" "f < NFILE" "g < NFILE" "alive (bump f 1 (bump g 1 no_debt)) c s"
  shows "kinv no_debt s'"
proof -
  from assms(1) obtain fd0 s1 fd1 s2 where a: "fdalloc f s = Inr (fd0, s1)"
    "(if fd0 < 0 then Inr (-1, s1) else fdalloc g s1) = Inr (fd1, s2)"
    "(if fd0 < 0 \<or> fd1 < 0 then pipe_undo fd0 f g s2
      else bnd (ustore32 fd (uint_of_int fd0) s2) (\<lambda>s.
           bnd (ustore32 (fd + 4) (uint_of_int fd1) s) (\<lambda>s. Inr (0, s)))) = Inr (v, s')"
    unfolding pipe_fds_def by (auto simp: bnd_Inr_iff)
  note s1 = fdalloc_alive [OF a(1) assms(4)]
  show ?thesis
  proof (cases "fd0 < 0")
    case True
    with a s1 assms show ?thesis by (auto elim!: pipe_undo_kinv [where c = c])
  next
    case False
    with s1 have s1': "alive (bump g 1 no_debt) c s1" "nat fd0 < NOFILE" "p_ofile (proc_at s1 c) ! nat fd0 = Some f" by simp_all
    note s2 = fdalloc_alive [OF _ s1'(1), of g fd1 s2]
    show ?thesis
    proof (cases "fd1 < 0")
      case True
      with False a s1' s2 assms(2,3) show ?thesis by (auto elim!: pipe_undo_kinv [where c = c])
    next
      case F1: False
      with False a s2 have "alive no_debt c s2" by fastforce
      with False F1 a(3) show ?thesis by (auto simp: res_iff intro!: alive_kinv [where c = c] elim!: vm_alive)
    qed
  qed
qed

lemma sys_pipe_kinv: "sys_pipe s = Inr (v, s') \<Longrightarrow> alive no_debt c s \<Longrightarrow> kinv no_debt s'"
  by (auto simp: sys_pipe_def res_iff split: if_splits
      dest!: pipealloc_alive elim: pipe_fds_kinv intro: alive_kinv)

section \<open>Creating a process\<close>

lemma refs_upd [simp]:
  "ref_of (s\<lparr>nextpid := n\<rparr>) f = ref_of s f" "refs (s\<lparr>nextpid := n\<rparr>) f = refs s f"
  by (simp_all add: ref_of_def refs_def)

lemma kinv_upd [simp]:
  "kinv X (setq k q s) = kinv X s" "kinv X (s\<lparr>queues := qs\<rparr>) = kinv X s"
  by (simp_all add: kinv_def ref_of_def refs_def setq_def)

text \<open>A free slot is given a new identifier.\<close>

lemma kinv_new_pid:
  assumes "kinv X s" "i < NPROC" "p_state (proc_at s i) = UNUSED"
  shows "kinv X (new_pid i s)" (is "kinv X ?s")
proof -
  let ?g = "\<lambda>p. p\<lparr>p_state := EMBRYO, p_pid := nextpid s, p_current_queue := 0, p_ticks := [0, 0, 0, 0, 0], p_waittime := 5\<rparr>"
  have n: "length (procs s) = NPROC" by (rule kinvD(3) [OF assms(1)])
  have ok: "proc_ok (nextpid s) (proc_at s j)" if "j < NPROC" for j using kinvD(5) [OF assms(1) that] .
  have new: "proc_at ?s j = (if j = i then ?g (proc_at s i) else proc_at s j)" if "j < NPROC" for j
    using that n by (simp add: new_pid_def Let_def)
  have lt: "p_pid (proc_at s j) < nextpid s" if "j < NPROC" "p_state (proc_at s j) \<noteq> UNUSED" for j
    using ok [OF that(1)] that(2) by (simp add: proc_ok_def)
  have uniq: "j = k" if "j < NPROC" "k < NPROC" "p_state (proc_at ?s j) \<noteq> UNUSED" "p_state (proc_at ?s k) \<noteq> UNUSED"
      "p_pid (proc_at ?s j) = p_pid (proc_at ?s k)" for j k
    using that(3-5) kinvD(2) [OF assms(1) that(1,2)] lt [OF that(1)] lt [OF that(2)]
    unfolding new [OF that(1)] new [OF that(2)] by (cases "j = i"; cases "k = i") auto
  have "proc_ok (nextpid s + 1) (proc_at ?s j)" if "j < NPROC" for j
    using ok [OF that] assms(3) kinvD(9) [OF assms(1)] that unfolding new [OF that]
    by (auto simp: proc_ok_def shaped_def)
  moreover have "\<forall>j < NPROC. \<forall>k < NPROC. p_state (proc_at ?s j) \<noteq> UNUSED \<longrightarrow> p_state (proc_at ?s k) \<noteq> UNUSED \<longrightarrow>
      p_pid (proc_at ?s j) = p_pid (proc_at ?s k) \<longrightarrow> j = k"
    using uniq by blast
  moreover have "p_state (proc_at ?s c) \<noteq> UNUSED" if "cpu_proc s = Some c" for c
    using kinvD(6,7) [OF assms(1) that] by (simp add: new)
  moreover have "ref_of ?s f = refs ?s f + X f" for f
    using kinvD(1) [OF assms(1), of f] refs_modp [of i s ?g f] assms(2) n
    by (simp add: new_pid_def Let_def)
  ultimately show ?thesis
    using kinvD(3,4,6,8,9) [OF assms(1)] unfolding kinv_def by (simp add: new_pid_def Let_def) (simp add: modp_def)
qed

text \<open>What \<open>allocproc\<close> returns: a slot that was free, in the state \<open>EMBRYO\<close>, with a stack and no descriptor.\<close>

definition embryo :: "nat \<Rightarrow> 'a ptable_st_scheme \<Rightarrow> bool" where
  "embryo i s \<longleftrightarrow> i < NPROC \<and> p_state (proc_at s i) = EMBRYO \<and> set (p_ofile (proc_at s i)) \<subseteq> {None} \<and>
     p_kstack (proc_at s i) \<noteq> 0"

lemma vmf_sel:
  assumes "vmf s s'"
  shows "procs s' = procs s" "cpu_proc s' = cpu_proc s" "nextpid s' = nextpid s" "initproc s' = initproc s"
  by (subst assms [unfolded vmf_def], simp)+

lemma alloc_stack_kinv:
  assumes "alloc_stack lnk i s = (r, s')" "kinv X s" "i < NPROC" "p_state (proc_at s i) = EMBRYO"
    and "set (p_ofile (proc_at s i)) \<subseteq> {None}" "cpu_proc s \<noteq> Some i"
  shows "kinv X s'" "r = Some j \<Longrightarrow> j = i \<and> embryo i s'"
proof -
  obtain k s1 where k: "kalloc s = (k, s1)" by fastforce
  have s1: "kinv X s1" by (rule kinv_calm [OF calm_vm [OF kalloc_vmf [OF k vmf_refl] calm_refl] assms(2)])
  have p: "procs s1 = procs s" "cpu_proc s1 = cpu_proc s" "nextpid s1 = nextpid s"
    using vmf_sel [OF kalloc_vmf [OF k vmf_refl]] by simp_all
  have n: "length (procs s) = NPROC" "proc_ok (nextpid s) (proc_at s i)"
    using kinvD(3,5) [OF assms(2)] assms(3) by simp_all
  show "kinv X s'"
  proof (cases "k = 0")
    case True
    have "kinv X (modp i (\<lambda>p. p\<lparr>p_kstack := 0, p_state := UNUSED\<rparr>) s1)"
      by (rule kinv_modp [OF s1 assms(3)]) (use n assms(4-6) in \<open>auto simp: p proc_ok_def shaped_def\<close>)
    with True assms(1) k show ?thesis by (simp add: alloc_stack_def)
  next
    case False
    let ?s2 = "set_page k (put32 (4096 - 76 - 4) (trapret_pc lnk) (pmem s1 k)) s1"
    let ?s3 = "modp i (\<lambda>p. p\<lparr>p_kstack := k, p_context := zero_context\<lparr>cx_eip := forkret_pc lnk\<rparr>,
      p_ctime := int_of_uint (ticks s1), p_etime := 0, p_rtime := 0, p_iotime := 0, p_num_run := 0\<rparr>) ?s2"
    have "kinv X ?s2" by (rule kinv_calm [OF calm_set_page [OF calm_refl] s1])
    then have "kinv X ?s3" 
      by (rule kinv_modp [OF _ assms(3)]) (use n assms(4-6) in \<open>auto simp: p set_page_def proc_ok_def shaped_def\<close>)
    then have "kinv X (modp i (\<lambda>p. p\<lparr>p_priority := (if p_pid p = 1 \<or> p_pid p = 2 then 1 else 60)\<rparr>) ?s3)"
      by (rule kinv_tweak) (simp add: same_proc_def)
    with False assms(1) k show ?thesis by (simp add: alloc_stack_def Let_def set_page_def)
  qed
  show "r = Some j \<Longrightarrow> j = i \<and> embryo i s'" using assms k n p
    by (auto simp: alloc_stack_def Let_def embryo_def set_page_def split: if_splits)
qed

lemma alloc_stack_frame:
  "alloc_stack lnk i s = (r, s') \<Longrightarrow> cpu_proc s' = cpu_proc s" "alloc_stack lnk i s = (r, s') \<Longrightarrow> j \<noteq> i \<Longrightarrow> proc_at s' j = proc_at s j"
proof -
  obtain k s1 where k: "kalloc s = (k, s1)" by fastforce
  note v = vmf_sel [OF kalloc_vmf [OF k vmf_refl]]
  assume "alloc_stack lnk i s = (r, s')"
  then show "cpu_proc s' = cpu_proc s" "j \<noteq> i \<Longrightarrow> proc_at s' j = proc_at s j"
    by (auto simp: alloc_stack_def Let_def set_page_def k v split: if_splits)
qed

lemma allocproc_kinv:
  assumes "allocproc lnk s = Inr (r, s')" "kinv X s"
  shows "kinv X s' \<and> cpu_proc s' = cpu_proc s \<and> (\<forall>i. r = Some i \<longrightarrow> p_state (proc_at s i) = UNUSED \<and> embryo i s') \<and>
    (\<forall>j. p_state (proc_at s j) \<noteq> UNUSED \<longrightarrow> proc_at s' j = proc_at s j)"
proof (cases "first_idx (\<lambda>p. p_state p = UNUSED) (procs s)")
  case None
  with assms show ?thesis by (auto simp: allocproc_def)
next
  case (Some i)
  have i: "i < NPROC" "p_state (proc_at s i) = UNUSED" and n: "length (procs s) = NPROC"
    using first_idx_SomeD [OF Some] kinvD(3) [OF assms(2)] by simp_all
  from assms(1) Some obtain q where s': "alloc_stack lnk i (setq 0 q (new_pid i s)) = (r, s')"
    by (auto simp: allocproc_def Let_def res_iff)
  have new: "p_state (proc_at (new_pid i s) i) = EMBRYO" "p_ofile (proc_at (new_pid i s) i) = p_ofile (proc_at s i)"
    "cpu_proc (new_pid i s) = cpu_proc s" "\<And>j. j \<noteq> i \<Longrightarrow> proc_at (new_pid i s) j = proc_at s j"
    using i n by (simp_all add: new_pid_def Let_def)
  have free: "cpu_proc s \<noteq> Some i" "set (p_ofile (proc_at s i)) \<subseteq> {None}"
    using kinvD(5,7) [OF assms(2)] i by (auto simp: proc_ok_def)
  have "kinv X (setq 0 q (new_pid i s))" using kinv_new_pid [OF assms(2) i] by simp
  note alloc_stack_kinv [OF s' this i(1)]
  moreover have "proc_at s' j = proc_at s j" if "p_state (proc_at s j) \<noteq> UNUSED" for j
    using alloc_stack_frame(2) [OF s', of j] new(4) [of j] i(2) that by auto
  ultimately show ?thesis
    using new(1-3) free alloc_stack_frame(1) [OF s'] i(2) by (auto simp: new(3))
qed

section \<open>fork\<close>

text \<open>The current process \<open>c\<close> is making the child \<open>i\<close>; the child's descriptors from \<open>fd\<close> on are free.\<close>

definition forking :: "nat \<Rightarrow> nat \<Rightarrow> nat \<Rightarrow> 'a file_st_scheme \<Rightarrow> bool" where
  "forking c i fd s \<longleftrightarrow> alive no_debt c s \<and> c \<noteq> i \<and> i < NPROC \<and> p_state (proc_at s i) = EMBRYO \<and>
     p_kstack (proc_at s i) \<noteq> 0 \<and> (\<forall>k. fd \<le> k \<and> k < NOFILE \<longrightarrow> p_ofile (proc_at s i) ! k = None)"

lemma forkingD:
  assumes "forking c i fd s"
  shows "kinv no_debt s" "current c s" "c < NPROC" "c \<noteq> i" "i < NPROC" "length (procs s) = NPROC"
    "length (p_ofile (proc_at s i)) = NOFILE" "length (p_ofile (proc_at s c)) = NOFILE"
    "p_state (proc_at s i) = EMBRYO" "p_kstack (proc_at s i) \<noteq> 0"
proof -
  show *: "kinv no_debt s" "current c s" "c \<noteq> i" "i < NPROC" "p_state (proc_at s i) = EMBRYO" "p_kstack (proc_at s i) \<noteq> 0"
    using assms by (simp_all add: forking_def alive_def)
  show c: "c < NPROC" using kinv_currentD [OF *(1,2)] by simp
  show "length (procs s) = NPROC" "length (p_ofile (proc_at s i)) = NOFILE" "length (p_ofile (proc_at s c)) = NOFILE"
    using kinvD(3,5) [OF *(1)] c *(4) by (simp_all add: proc_ok_def shaped_def)
qed

lemma forking_calm: "calm s s' \<Longrightarrow> forking c i fd s \<Longrightarrow> forking c i fd s'"
proof -
  assume a: "calm s s'" "forking c i fd s"
  then have "same_proc (proc_at s i) (proc_at s' i)" using forkingD(5,6) [OF a(2)] calm_nth(2) [of s s' i] by simp
  then show ?thesis using a alive_calm [OF a(1)] by (auto simp: forking_def same_proc_def)
qed

text \<open>Members of the child may be set while no one else can see it.\<close>

lemma forking_set:
  assumes "forking c i fd s" "shaped (g (proc_at s i))"
    and "p_state (g (proc_at s i)) = p_state (proc_at s i)" "p_pid (g (proc_at s i)) = p_pid (proc_at s i)"
    and "p_ofile (g (proc_at s i)) = p_ofile (proc_at s i)" "p_kstack (g (proc_at s i)) = p_kstack (proc_at s i)"
  shows "forking c i fd (modp i g s)"
proof -
  note f = forkingD [OF assms(1)]
  have "kinv no_debt (modp i g s)"
    by (rule kinv_modp [OF f(1,5)]) (use kinvD(5) [OF f(1,5)] assms(2-6) f(9) in \<open>auto simp: proc_ok_def\<close>)
  then show ?thesis using assms f by (auto simp: forking_def alive_def current_def)
qed

lemma dup_fd_forking:
  assumes "dup_fd c i fd s = Inr s'" "forking c i fd s" "fd < NOFILE"
  shows "forking c i (Suc fd) s'" "p_pgdir (proc_at s' i) = p_pgdir (proc_at s i)"
proof -
  note k = forkingD [OF assms(2)]
  have free: "p_ofile (proc_at s i) ! fd = None" using assms(2,3) by (simp add: forking_def)
  consider "s' = s" | f where "p_ofile (proc_at s c) ! fd = Some f"
      "s' = modp i (\<lambda>p. p\<lparr>p_ofile := (p_ofile p)[fd := Some f]\<rparr>) (modf f (\<lambda>x. x\<lparr>f_ref := f_ref x + 1\<rparr>) s)"
    using assms(1) by (auto simp: dup_fd_def res_iff filedup_def split: if_splits option.splits)
  then have "forking c i (Suc fd) s' \<and> p_pgdir (proc_at s' i) = p_pgdir (proc_at s i)"
  proof cases
    case 2
    have "Some f \<in> set (p_ofile (proc_at s c))" using 2(1) assms(3) k(8) nth_mem [of fd "p_ofile (proc_at s c)"] by simp
    then have f: "f < NFILE" using kinv_file [OF k(1) _ k(3)] by simp
    let ?s1 = "modf f (\<lambda>x. x\<lparr>f_ref := f_ref x + 1\<rparr>) s"
    have p: "procs ?s1 = procs s" "cpu_proc ?s1 = cpu_proc s" by (simp_all add: modf_def)
    have "kinv (bump f 1 no_debt) ?s1" by (rule kinv_modf [OF k(1) f]) simp
    then have "kinv no_debt s'" unfolding 2(2)
      by (rule kinv_set_fd [OF _ k(5) assms(3)]) (use k free in \<open>auto simp: p bump_def\<close>)
    then show ?thesis
      using assms(2,3) k by (auto simp: forking_def alive_def current_def 2(2) p)
  qed (use assms(2) in \<open>simp add: forking_def\<close>)
  then show "forking c i (Suc fd) s'" "p_pgdir (proc_at s' i) = p_pgdir (proc_at s i)" by simp_all
qed

lemma fork_child_kinv:
  assumes "fork_child c i s = Inr (r, s')" "forking c i 0 s" "p_pgdir (proc_at s i) \<noteq> 0"
  shows "kinv no_debt s'"
proof -
  let ?c = "proc_at s c"
  let ?s1 = "modp i (\<lambda>p. p\<lparr>p_sz := p_sz ?c, p_parent := Some c, p_tf := (p_tf ?c)\<lparr>tf_eax := 0\<rparr>\<rparr>) s"
  note f = forkingD [OF assms(2)]
  from assms(1) obtain s2 cwd where s2: "foreach (dup_fd c i) 0 NOFILE ?s1 = Inr s2"
    and s': "s' = modp i (\<lambda>p. p\<lparr>p_cwd := Some cwd, p_name := p_name (proc_at (idup cwd s2) c),
         p_state := RUNNABLE, p_start := int_of_uint (ticks (idup cwd s2))\<rparr>) (idup cwd s2)"
    by (auto simp: fork_child_def Let_def res_iff)
  have "forking c i 0 ?s1"
    by (rule forking_set [OF assms(2)]) (use kinvD(5) [OF f(1,5)] f(3) in \<open>auto simp: proc_ok_def shaped_def\<close>)
  then have "forking c i (0 + NOFILE) s2 \<and> p_pgdir (proc_at s2 i) \<noteq> 0"
    by (intro foreach_keeps [OF s2, of "\<lambda>k s. forking c i k s \<and> p_pgdir (proc_at s i) \<noteq> 0"])
      (use assms(3) f in \<open>auto dest: dup_fd_forking\<close>)
  then have s3: "forking c i NOFILE (idup cwd s2)" "p_pgdir (proc_at (idup cwd s2) i) \<noteq> 0"
    using forking_calm [of s2 "idup cwd s2" c i NOFILE] by (simp_all add: calm_refl idup_def modi_def)
  note g = forkingD [OF s3(1)]
  show ?thesis unfolding s'
    by (rule kinv_modp [OF g(1,5)]) (use kinvD(5) [OF g(1,5)] g(9,10) s3(2) in \<open>auto simp: proc_ok_def shaped_def\<close>)
qed

lemma set_subset_nth: "set xs \<subseteq> {v} \<longleftrightarrow> (\<forall>k < length xs. xs ! k = v)"
  by (auto simp: set_conv_nth)

lemma embryo_forking:
  "embryo i s \<Longrightarrow> alive no_debt c s \<Longrightarrow> c \<noteq> i \<Longrightarrow> forking c i 0 s"
proof -
  assume a: "embryo i s" "alive no_debt c s" "c \<noteq> i"
  then have "length (p_ofile (proc_at s i)) = NOFILE"
    using kinvD(5) [of no_debt s i] by (simp add: embryo_def alive_def proc_ok_def shaped_def)
  then have "p_ofile (proc_at s i) ! k = None" if "k < NOFILE" for k
    using a(1) that by (simp add: embryo_def set_subset_nth)
  with a show ?thesis by (simp add: forking_def embryo_def)
qed

lemma forking_blank: "forking c i 0 s \<Longrightarrow> set (p_ofile (proc_at s i)) \<subseteq> {None}"
  using forkingD(7) [of c i 0 s] by (simp add: forking_def set_subset_nth)

lemma fork_kinv:
  assumes "fork lnk s = Inr (r, s')" "alive no_debt c s"
  shows "kinv no_debt s'"
proof -
  have c: "cpu_proc s = Some c" "kinv no_debt s" "p_state (proc_at s c) \<notin> {UNUSED, ZOMBIE}"
    using assms(2) kinv_currentD [of no_debt s c] by (auto simp: alive_def current_def)
  from assms(1) obtain np s1 where s1: "allocproc lnk s = Inr (np, s1)" by (auto simp: fork_def c res_iff)
  note a = allocproc_kinv [OF s1 c(2)]
  have s1_alive: "alive no_debt c s1" using a c by (auto simp: alive_def current_def)
  show ?thesis
  proof (cases np)
    case None
    with assms(1) s1 a show ?thesis by (simp add: fork_def c)
  next
    case (Some i)
    with a c have i: "embryo i s1" "c \<noteq> i" by auto
    from assms(1) s1 Some obtain pgdir s2 where s2: "copyuvm (p_pgdir (proc_at s1 c)) (p_sz (proc_at s1 c)) s1 = Inr (pgdir, s2)"
      and r: "(let s = modp i (\<lambda>p. p\<lparr>p_pgdir := pgdir\<rparr>) s2 in
        if pgdir = 0 then bnd (kfree (p_kstack (proc_at s i)) s) (\<lambda>s.
              Inr (-1, modp i (\<lambda>p. p\<lparr>p_kstack := 0, p_state := UNUSED\<rparr>) s))
        else fork_child c i s) = Inr (r, s')"
      by (auto simp: fork_def c bnd_Inr_iff)
    have "forking c i 0 s2"
      by (rule forking_calm [OF calm_vm [OF copyuvm_vmf [OF s2 vmf_refl] calm_refl]]) (rule embryo_forking [OF i(1) s1_alive i(2)])
    then have f: "forking c i 0 (modp i (\<lambda>p. p\<lparr>p_pgdir := pgdir\<rparr>) s2)"
      by (rule forking_set) (use kinvD(5) [OF forkingD(1,5) [OF \<open>forking c i 0 s2\<close>]] in \<open>auto simp: proc_ok_def shaped_def\<close>)
    show ?thesis
    proof (cases "pgdir = 0")
      case True
      with r obtain s3 where s3: "kfree (p_kstack (proc_at (modp i (\<lambda>p. p\<lparr>p_pgdir := pgdir\<rparr>) s2) i)) (modp i (\<lambda>p. p\<lparr>p_pgdir := pgdir\<rparr>) s2) = Inr s3"
        "s' = modp i (\<lambda>p. p\<lparr>p_kstack := 0, p_state := UNUSED\<rparr>) s3" by (auto simp: Let_def res_iff)
      have g: "forking c i 0 s3" by (rule forking_calm [OF calm_vm [OF kfree_vmf [OF s3(1) vmf_refl] calm_refl] f])
      note g' = forkingD [OF g]
      show ?thesis unfolding s3(2)
        by (rule kinv_modp [OF g'(1,5)])
          (use kinvD(5) [OF g'(1,5)] forking_blank [OF g] g' in \<open>auto simp: proc_ok_def shaped_def current_def\<close>)
    next
      case False
      with r have "fork_child c i (modp i (\<lambda>p. p\<lparr>p_pgdir := pgdir\<rparr>) s2) = Inr (r, s')" by (simp add: Let_def)
      then show ?thesis by (rule fork_child_kinv [OF _ f]) (use False forkingD(5,6) [OF f] in simp)
    qed
  qed
qed

section \<open>exit\<close>

lemma close_fd_kinv:
  assumes "close_fd c fd s = Inr s'" "kinv no_debt s" "cpu_proc s = Some c" "fd < NOFILE"
    and "\<forall>k < fd. p_ofile (proc_at s c) ! k = None"
  shows "kinv no_debt s' \<and> cpu_proc s' = Some c \<and> (\<forall>k < Suc fd. p_ofile (proc_at s' c) ! k = None)"
proof (cases "p_ofile (proc_at s c) ! fd")
  case None
  with assms show ?thesis by (auto simp: close_fd_def less_Suc_eq)
next
  case (Some f)
  have c: "c < NPROC" using kinvD(6) [OF assms(2,3)] .
  have l: "length (p_ofile (proc_at s c)) = NOFILE" using kinvD(5) [OF assms(2) c] by (simp add: proc_ok_def shaped_def)
  have f: "f < NFILE" using kinv_file [OF assms(2) _ c] Some assms(4) l nth_mem [of fd "p_ofile (proc_at s c)"] by simp
  from assms(1) Some obtain s1 where s1: "fileclose f s = Inr s1" "s' = modp c (\<lambda>p. p\<lparr>p_ofile := (p_ofile p)[fd := None]\<rparr>) s1"
    by (auto simp: close_fd_def res_iff)
  have k: "kinv (bump f (- 1) no_debt) s1" by (rule fileclose_kinv [OF s1(1) assms(2) f])
  have calm: "calm (modf f (\<lambda>x. x\<lparr>f_ref := f_ref x - 1\<rparr>) s) s1" using fileclose_calm [OF s1(1)] f kinvD(4) [OF assms(2)] by simp
  have o1: "p_ofile (proc_at s1 c) = p_ofile (proc_at s c)" "cpu_proc s1 = Some c"
    using calm_nth(2) [OF calm, of c] calm_nth(4) [OF calm] c kinvD(3) [OF assms(2)] assms(3)
    by (auto simp: modf_def same_proc_def)
  have "kinv no_debt s'" unfolding s1(2)
    by (rule kinv_set_fd [OF k c assms(4)]) (use o1 Some in \<open>auto simp: bump_def\<close>)
  then show ?thesis
    using c l kinvD(3) [OF k] o1 assms(4,5) by (auto simp: s1(2) less_Suc_eq)
qed

text \<open>A process on its way out: it has closed its files.\<close>

definition leaving :: "nat \<Rightarrow> 'a file_st_scheme \<Rightarrow> bool" where
  "leaving c s \<longleftrightarrow> kinv no_debt s \<and> cpu_proc s = Some c \<and> set (p_ofile (proc_at s c)) \<subseteq> {None}"

lemma leaving_calm: "calm s s' \<Longrightarrow> leaving c s \<Longrightarrow> leaving c s'"
proof -
  assume a: "calm s s'" "leaving c s"
  then have "same_proc (proc_at s c) (proc_at s' c)"
    using kinvD(3,6) [of no_debt s] calm_nth(2) [of s s' c] by (auto simp: leaving_def)
  then show ?thesis using a kinv_calm [OF a(1)] calm_nth(4) [OF a(1)] by (auto simp: leaving_def same_proc_def)
qed

lemmas fs_leaving = fs_calm [OF _ calm_refl, THEN leaving_calm]

lemma pass_child_leaving:
  assumes "leaving c s" "k < NPROC"
  shows "leaving c (pass_child c k s)"
proof (cases "p_parent (proc_at s k) = Some c")
  case True
  let ?s = "modp k (\<lambda>p. p\<lparr>p_parent := initproc s\<rparr>) s"
  have k: "kinv no_debt s" and n: "length (procs s) = NPROC" using assms(1) kinvD(3) by (auto simp: leaving_def)
  have "kinv no_debt ?s"
    by (rule kinv_modp [OF k assms(2)])
      (use kinvD(5) [OF k assms(2)] kinvD(7,8) [OF k] in \<open>auto simp: proc_ok_def shaped_def\<close>)
  then have l: "leaving c ?s" using assms(1) n assms(2) by (cases "k = c") (auto simp: leaving_def)
  have "leaving c (wakeup1 ch ?s)" for ch by (rule leaving_calm [OF calm_wakeup1 [OF calm_refl] l])
  with True l show ?thesis by (simp add: pass_child_def Let_def)
qed (use assms in \<open>simp add: pass_child_def\<close>)

lemma pass_children_leaving: "leaving c s \<Longrightarrow> leaving c (pass_children c s)"
proof -
  have "leaving c s \<Longrightarrow> \<forall>k \<in> set ks. k < NPROC \<Longrightarrow> leaving c (fold (pass_child c) ks s)" for ks
    by (induction ks arbitrary: s) (simp_all add: pass_child_leaving)
  moreover assume "leaving c s"
  moreover have "length (procs s) = NPROC" using \<open>leaving c s\<close> kinvD(3) unfolding leaving_def by blast
  ultimately show ?thesis by (simp add: pass_children_def)
qed

lemma exit_kinv:
  assumes "exit s = Inr s'" "kinv no_debt s"
  shows "kinv no_debt s'"
proof -
  from assms(1) obtain c where c: "cpu_proc s = Some c" by (auto simp: exit_def res_iff)
  from assms(1) obtain s1 s2 cwd s3 s4 where s: "foreach (close_fd c) 0 NOFILE s = Inr s1" "begin_op s1 = Inr s2"
    "iput cwd s2 = Inr s3" "end_op s3 = Inr s4"
    and s': "s' = (let s = modp c (\<lambda>p. p\<lparr>p_cwd := None\<rparr>) s4;
           s = wakeup1 (map_option ChProc (p_parent (proc_at s c))) s;
           s = pass_children c s
       in modp c (\<lambda>p. p\<lparr>p_state := ZOMBIE, p_etime := int_of_uint (ticks s)\<rparr>) s)"
    unfolding exit_def c by (simp only: deref_simps bnd_simps bnd_Inr_iff Let_def sum.inject split: if_splits) blast+
  have "kinv no_debt s1 \<and> cpu_proc s1 = Some c \<and> (\<forall>k < 0 + NOFILE. p_ofile (proc_at s1 c) ! k = None)"
    by (rule foreach_keeps [OF s(1), of "\<lambda>k s. kinv no_debt s \<and> cpu_proc s = Some c \<and> (\<forall>j < k. p_ofile (proc_at s c) ! j = None)"])
      (use assms(2) c close_fd_kinv in auto)
  then have "leaving c s1" using kinvD(5,6) [of no_debt s1 c]
    by (auto simp: leaving_def set_subset_nth proc_ok_def shaped_def)
  with s(2-4) have "leaving c s4" by (auto elim!: fs_leaving)
  then have s5: "leaving c (modp c (\<lambda>p. p\<lparr>p_cwd := None\<rparr>) s4)" (is "leaving c ?s5")
    by (rule leaving_calm [OF calm_modp [OF _ calm_refl], rotated]) (simp add: same_proc_def)
  have "leaving c (pass_children c (wakeup1 ch ?s5))" for ch
    by (rule pass_children_leaving) (rule leaving_calm [OF calm_wakeup1 [OF calm_refl] s5])
  then obtain s6 where s6: "leaving c s6" "s' = modp c (\<lambda>p. p\<lparr>p_state := ZOMBIE, p_etime := int_of_uint (ticks s6)\<rparr>) s6"
    unfolding s' Let_def by blast
  then have k: "kinv no_debt s6" "c < NPROC" "p_state (proc_at s6 c) \<noteq> UNUSED"
    using kinvD(6,7) [of no_debt s6 c] by (simp_all add: leaving_def)
  show ?thesis unfolding s6(2)
    by (rule kinv_modp [OF k(1,2)]) (use k s6(1) kinvD(5) [OF k(1,2)] in \<open>auto simp: leaving_def proc_ok_def shaped_def\<close>)
qed

end
