(* ===== verification/Kvm.thy ===== *)
theory Kvm
  imports Vm
begin

text \<open>
  The kernel's half of every address space, \<open>setupkvm\<close> of \<open>vm.c\<close>, and the segment descriptors of
  \<open>seginit\<close>. With enough free pages for the page tables, \<open>setupkvm\<close> succeeds and the new directory has exactly the
  layout that the comment above \<open>kmap\<close> draws: nothing below \<open>KERNBASE\<close>, the I/O space and
  the kernel's text and data at their physical addresses plus \<open>KERNBASE\<close>, and the devices at the top.
\<close>

section \<open>Segments\<close>

text \<open>The bit fields of \<open>struct segdesc\<close>, the macros \<open>SEG\<close> and \<open>SEG16\<close>, and the table of a CPU.\<close>

record segdesc =
  sd_lim_15_0 :: u32
  sd_base_15_0 :: u32
  sd_base_23_16 :: u32
  sd_type :: u32
  sd_s :: u32
  sd_dpl :: u32
  sd_p :: u32
  sd_lim_19_16 :: u32
  sd_avl :: u32
  sd_rsv1 :: u32
  sd_db :: u32
  sd_g :: u32
  sd_base_31_24 :: u32

definition SEG :: "u32 \<Rightarrow> u32 \<Rightarrow> u32 \<Rightarrow> u32 \<Rightarrow> segdesc" where
  "SEG type base lim dpl =
     \<lparr>sd_lim_15_0 = drop_bit 12 lim AND 0xFFFF, sd_base_15_0 = base AND 0xFFFF, sd_base_23_16 = drop_bit 16 base AND 0xFF,
      sd_type = type, sd_s = 1, sd_dpl = dpl, sd_p = 1, sd_lim_19_16 = drop_bit 28 lim, sd_avl = 0, sd_rsv1 = 0,
      sd_db = 1, sd_g = 1, sd_base_31_24 = drop_bit 24 base\<rparr>"

definition SEG16 :: "u32 \<Rightarrow> u32 \<Rightarrow> u32 \<Rightarrow> u32 \<Rightarrow> segdesc" where
  "SEG16 type base lim dpl =
     \<lparr>sd_lim_15_0 = lim AND 0xFFFF, sd_base_15_0 = base AND 0xFFFF, sd_base_23_16 = drop_bit 16 base AND 0xFF,
      sd_type = type, sd_s = 1, sd_dpl = dpl, sd_p = 1, sd_lim_19_16 = drop_bit 16 lim, sd_avl = 0, sd_rsv1 = 0,
      sd_db = 1, sd_g = 0, sd_base_31_24 = drop_bit 24 base\<rparr>"

definition STA_X :: u32 where "STA_X = 8"
definition STA_W :: u32 where "STA_W = 2"
definition STA_R :: u32 where "STA_R = 2"

definition seginit :: "segdesc list \<Rightarrow> segdesc list" where
  "seginit gdt = gdt[1 := SEG (STA_X OR STA_R) 0 0xFFFFFFFF 0, 2 := SEG STA_W 0 0xFFFFFFFF 0,
     3 := SEG (STA_X OR STA_R) 0 0xFFFFFFFF 3, 4 := SEG STA_W 0 0xFFFFFFFF 3]"

text \<open>The segment a descriptor stands for, as the processor reads it: base and last byte.\<close>

definition sd_base :: "segdesc \<Rightarrow> nat" where
  "sd_base d = unat (sd_base_15_0 d) + 2 ^ 16 * unat (sd_base_23_16 d) + 2 ^ 24 * unat (sd_base_31_24 d)"

definition sd_limit :: "segdesc \<Rightarrow> nat" where
  "sd_limit d = (let l = unat (sd_lim_15_0 d) + 2 ^ 16 * unat (sd_lim_19_16 d) in
     if sd_g d = 1 then l * 4096 + 4095 else l)"

lemma seginit_flat:
  assumes "length gdt = 6" "1 \<le> i" "i \<le> 4"
  shows "sd_base (seginit gdt ! i) = 0 \<and> sd_limit (seginit gdt ! i) = 2 ^ 32 - 1 \<and> sd_p (seginit gdt ! i) = 1 \<and>
    sd_dpl (seginit gdt ! i) = (if i \<le> 2 then 0 else 3)"
proof -
  have "i = 1 \<or> i = 2 \<or> i = 3 \<or> i = 4" using assms(2,3) by auto
  then show ?thesis using assms(1) by (auto simp: seginit_def SEG_def sd_base_def sd_limit_def)
qed

section \<open>The kernel's mappings\<close>

text \<open>The entry that the layout asks for at an address, with \<open>data\<close> where the kernel's data begin.\<close>

definition kernel_layout :: "u32 \<Rightarrow> u32 \<Rightarrow> u32" where
  "kernel_layout data v =
     (if v < KERNBASE then 0
      else if v < KERNLINK then V2P (PGROUNDDOWN v) OR PTE_W OR PTE_P
      else if v < data then V2P (PGROUNDDOWN v) OR 0 OR PTE_P
      else if v < P2V PHYSTOP then V2P (PGROUNDDOWN v) OR PTE_W OR PTE_P
      else if v < DEVSPACE then 0
      else PGROUNDDOWN v OR PTE_W OR PTE_P)"

lemma page_lt: "a mod PGSIZE = 0 \<Longrightarrow> v < a \<longleftrightarrow> pn v < pn a"
proof -
  assume "a mod PGSIZE = 0"
  then have "unat a mod 4096 = 0" by (simp add: unat_mod_page)
  then have "unat a = 4096 * pn a" by (auto simp: pn_def)
  then show ?thesis by (simp add: word_less_nat_alt pn_def less_mult_imp_div_less div_less_iff_less_mult mult.commute)
qed

lemma pn_top: "pn (- 1) = 0xFFFFF"
  by (simp add: pn_def unsigned_minus_1_eq_mask mask_eq_exp_minus_1)

lemma page_plus:
  assumes "va mod PGSIZE = 0" "pn va \<le> pn v"
  shows "va + of_nat (pn v - pn va) * PGSIZE = PGROUNDDOWN v"
proof -
  have pg: "PGROUNDDOWN w = of_nat (pn w) * PGSIZE" for w
  proof -
    have "PGROUNDDOWN w = of_nat (unat (PGROUNDDOWN w))" by simp
    then show ?thesis unfolding unat_PGROUNDDOWN by (simp add: PGSIZE_def)
  qed
  have "PGROUNDDOWN va = va" using assms(1) by (simp add: PGROUNDDOWN_eq)
  then show ?thesis using assms(2) pg [of va] pg [of v] by (simp add: of_nat_diff algebra_simps)
qed

text \<open>One row of \<open>kmap\<close>.\<close>

lemma setup_row:
  assumes "free_list s xs" "wf_pgdir s d xs" "va mod PGSIZE = 0" "va \<le> va + (p1 - p0) - 1"
    and ab: "pn va = a" "pn (va + (p1 - p0) - 1) = b" and "b div 1024 - a div 1024 < length xs"
    and "\<forall>v. a \<le> pn v \<and> pn v \<le> b \<longrightarrow> lookup s d v = 0"
  shows "\<exists>s' ys. setup_loop ((va, p0, p1, perm) # ks) d s = setup_loop ks d s' \<and> free_list s' ys \<and> wf_pgdir s' d ys \<and>
     length xs \<le> length ys + Suc (b div 1024 - a div 1024) \<and>
     lookup s' d = (\<lambda>v. if a \<le> pn v \<and> pn v \<le> b then (PGROUNDDOWN v + (p0 - va)) OR perm OR PTE_P else lookup s d v)"
proof -
  obtain s' ys where *: "mappages d va (p1 - p0) p0 perm s = Inr (0, s')" "free_list s' ys" "wf_pgdir s' d ys"
    "length xs \<le> length ys + Suc (b div 1024 - a div 1024)"
    "lookup s' d = (\<lambda>v. if a \<le> pn v \<and> pn v \<le> b
        then (p0 + of_nat (pn v - pn va) * PGSIZE) OR perm OR PTE_P else lookup s d v)"
    using mappages_maps [OF assms(1,2,4), of p0 perm] assms(7,8) by (auto simp: ab PDX_pn)
  have phys: "p0 + of_nat (pn v - pn va) * PGSIZE = PGROUNDDOWN v + (p0 - va)" if "pn va \<le> pn v" for v
    unfolding page_plus [OF assms(3) that, symmetric] by simp
  have "(if a \<le> pn v \<and> pn v \<le> b then (p0 + of_nat (pn v - pn va) * PGSIZE) OR perm OR PTE_P else lookup s d v) =
     (if a \<le> pn v \<and> pn v \<le> b then (PGROUNDDOWN v + (p0 - va)) OR perm OR PTE_P else lookup s d v)" for v
    using phys [of v] unfolding ab(1) by (cases "a \<le> pn v") (simp_all only: simp_thms if_False)
  with * show ?thesis by (intro exI [of _ s'] exI [of _ ys]) simp
qed

lemma layout_cases:
  fixes n m :: nat and a b c z :: u32
  assumes "0x80100 < n" "n < 0x8E000" "m < 0x100000"
  shows "(if 0xFE000 \<le> m \<and> m \<le> 0xFFFFF then a else if n \<le> m \<and> m \<le> 0x8DFFF then b
      else if 0x80100 \<le> m \<and> m \<le> n - 1 then c else if 0x80000 \<le> m \<and> m \<le> 0x800FF then b else z) =
    (if m < 0x80000 then z else if m < 0x80100 then b else if m < n then c else if m < 0x8E000 then b
      else if m < 0xFE000 then z else a)"
  using assms by auto

lemma setup_loop_layout:
  assumes "free_list s xs" "wf_pgdir s d xs" "70 \<le> length xs" "lookup s d = (\<lambda>_. 0)"
    and "kernel_data s mod PGSIZE = 0" "KERNLINK < kernel_data s" "kernel_data s < P2V PHYSTOP"
  shows "\<exists>s' ys. setup_loop (kmap s) d s = Inr (d, s') \<and> free_list s' ys \<and> wf_pgdir s' d ys \<and>
     length xs \<le> length ys + 70 \<and> lookup s' d = kernel_layout (kernel_data s)"
proof -
  let ?D = "kernel_data s"
  let ?n = "pn ?D"
  have u: "unat ?D = 4096 * ?n" using assms(5) by (auto simp: pn_def unat_mod_page)
  have n: "0x80100 < ?n" "?n < 0x8E000" using assms(6,7) page_lt [OF assms(5), of KERNLINK] page_lt [of "P2V PHYSTOP" ?D]
    by (simp_all add: KERNLINK_def EXTMEM_def P2V_def PHYSTOP_def KERNBASE_def PGSIZE_def pn_def)
  have "unat (?D - 1) = unat ?D - 1" using u n by (intro unat_minus_one) auto
  moreover have "(4096 * m - 1) div 4096 = m - 1" if "0 < m" for m :: nat
    using that by (intro div_nat_eqI) auto
  ultimately have last: "pn (?D - 1) = ?n - 1" using u n by (simp add: pn_def [of "?D - 1"])
  let ?r1 = "(KERNBASE, 0, EXTMEM, PTE_W)" and ?r2 = "(KERNLINK, V2P KERNLINK, V2P ?D, 0)"
    and ?r3 = "(?D, V2P ?D, PHYSTOP, PTE_W)" and ?r4 = "(DEVSPACE, DEVSPACE, 0, PTE_W)"
  have "\<exists>s1 ys. setup_loop [?r1, ?r2, ?r3, ?r4] d s = setup_loop [?r2, ?r3, ?r4] d s1 \<and> free_list s1 ys \<and> wf_pgdir s1 d ys \<and>
     length xs \<le> length ys + Suc (0x800FF div 1024 - 0x80000 div 1024) \<and>
     lookup s1 d = (\<lambda>v. if 0x80000 \<le> pn v \<and> pn v \<le> 0x800FF then (PGROUNDDOWN v + (0 - KERNBASE)) OR PTE_W OR PTE_P else lookup s d v)"
    by (rule setup_row [OF assms(1,2)]) (use assms(3,4) in \<open>auto simp: KERNBASE_def EXTMEM_def PGSIZE_def pn_def\<close>)
  then obtain s1 xs1 where s1: "setup_loop [?r1, ?r2, ?r3, ?r4] d s = setup_loop [?r2, ?r3, ?r4] d s1"
    "free_list s1 xs1" "wf_pgdir s1 d xs1" "length xs \<le> length xs1 + 1"
    "lookup s1 d = (\<lambda>v. if 0x80000 \<le> pn v \<and> pn v \<le> 0x800FF then (PGROUNDDOWN v + (0 - KERNBASE)) OR PTE_W OR PTE_P else 0)"
    unfolding assms(4) by auto
  have uD: "unat (?D - 1) = 4096 * ?n - 1" using u n by (subst unat_minus_one) auto
  have r2: "KERNLINK + (V2P ?D - V2P KERNLINK) - 1 = ?D - 1" "KERNLINK \<le> ?D - 1" "pn KERNLINK = 0x80100"
    "KERNLINK mod PGSIZE = 0" "V2P KERNLINK - KERNLINK = - KERNBASE"
    using n by (simp add: V2P_def, subst word_le_nat_alt, subst uD)
      (simp_all add: KERNLINK_def KERNBASE_def EXTMEM_def V2P_def pn_def [of "0x80100000"] PGSIZE_def)
  have div: "(?n - 1) div 1024 - 512 \<le> ?n div 1024 - 512" "?n div 1024 \<le> 567" "512 \<le> ?n div 1024"
    using n by (simp_all add: diff_le_mono div_le_mono)
  have c2: "(?n - 1) div 1024 - 512 < length xs1" using s1(4) assms(3) div by linarith
  have "\<exists>s2 ys. setup_loop [?r2, ?r3, ?r4] d s1 = setup_loop [?r3, ?r4] d s2 \<and> free_list s2 ys \<and> wf_pgdir s2 d ys \<and>
     length xs1 \<le> length ys + Suc ((?n - 1) div 1024 - 0x80100 div 1024) \<and>
     lookup s2 d = (\<lambda>v. if 0x80100 \<le> pn v \<and> pn v \<le> ?n - 1 then (PGROUNDDOWN v + (V2P KERNLINK - KERNLINK)) OR 0 OR PTE_P else lookup s1 d v)"
    by (rule setup_row [OF s1(2,3) r2(4)]) (use s1(5) c2 in \<open>simp_all add: r2 last\<close>)
  then obtain s2 xs2 where s2: "setup_loop [?r2, ?r3, ?r4] d s1 = setup_loop [?r3, ?r4] d s2"
    "free_list s2 xs2" "wf_pgdir s2 d xs2" "length xs1 \<le> length xs2 + Suc ((?n - 1) div 1024 - 512)"
    "lookup s2 d = (\<lambda>v. if 0x80100 \<le> pn v \<and> pn v \<le> ?n - 1 then (PGROUNDDOWN v + - KERNBASE) OR 0 OR PTE_P else lookup s1 d v)"
    unfolding r2(5) by auto
  have r3: "?D + (PHYSTOP - V2P ?D) - 1 = 0x8DFFFFFF" "?D \<le> 0x8DFFFFFF" "pn 0x8DFFFFFF = 0x8DFFF" "V2P ?D - ?D = - KERNBASE"
    using n u by (simp add: V2P_def PHYSTOP_def KERNBASE_def, subst word_le_nat_alt, subst u)
      (simp_all add: V2P_def pn_def [of "0x8DFFFFFF"])
  have c3: "567 - ?n div 1024 < length xs2" using s1(4) s2(4) assms(3) div by linarith
  have "\<exists>s3 ys. setup_loop [?r3, ?r4] d s2 = setup_loop [?r4] d s3 \<and> free_list s3 ys \<and> wf_pgdir s3 d ys \<and>
     length xs2 \<le> length ys + Suc (0x8DFFF div 1024 - ?n div 1024) \<and>
     lookup s3 d = (\<lambda>v. if ?n \<le> pn v \<and> pn v \<le> 0x8DFFF then (PGROUNDDOWN v + (V2P ?D - ?D)) OR PTE_W OR PTE_P else lookup s2 d v)"
    by (rule setup_row [OF s2(2,3) assms(5)]) (use s1(5) s2(5) c3 n in \<open>auto simp: r3\<close>)
  then obtain s3 xs3 where s3: "setup_loop [?r3, ?r4] d s2 = setup_loop [?r4] d s3"
    "free_list s3 xs3" "wf_pgdir s3 d xs3" "length xs2 \<le> length xs3 + Suc (567 - ?n div 1024)"
    "lookup s3 d = (\<lambda>v. if ?n \<le> pn v \<and> pn v \<le> 0x8DFFF then (PGROUNDDOWN v + - KERNBASE) OR PTE_W OR PTE_P else lookup s2 d v)"
    unfolding r3(4) by auto
  have c4: "7 < length xs3" "length xs \<le> length xs3 + 62" using s1(4) s2(4) s3(4) assms(3) div by linarith+
  have "\<exists>s4 ys. setup_loop [?r4] d s3 = setup_loop [] d s4 \<and> free_list s4 ys \<and> wf_pgdir s4 d ys \<and>
     length xs3 \<le> length ys + Suc (0xFFFFF div 1024 - 0xFE000 div 1024) \<and>
     lookup s4 d = (\<lambda>v. if 0xFE000 \<le> pn v \<and> pn v \<le> 0xFFFFF then (PGROUNDDOWN v + (DEVSPACE - DEVSPACE)) OR PTE_W OR PTE_P else lookup s3 d v)"
    by (rule setup_row [OF s3(2,3)])
      (use s1(5) s2(5) s3(5) c4 n in \<open>auto simp: DEVSPACE_def PGSIZE_def pn_def [of "0xFE000000"] pn_top\<close>)
  then obtain s4 xs4 where s4: "setup_loop [?r4] d s3 = Inr (d, s4)" "free_list s4 xs4" "wf_pgdir s4 d xs4"
    "length xs3 \<le> length xs4 + 8"
    "lookup s4 d = (\<lambda>v. if 0xFE000 \<le> pn v \<and> pn v \<le> 0xFFFFF then PGROUNDDOWN v OR PTE_W OR PTE_P else lookup s3 d v)"
    unfolding diff_self add_0_right by auto
  have lt: "v < KERNBASE \<longleftrightarrow> pn v < 0x80000" "v < KERNLINK \<longleftrightarrow> pn v < 0x80100" "v < ?D \<longleftrightarrow> pn v < ?n"
    "v < P2V PHYSTOP \<longleftrightarrow> pn v < 0x8E000" "v < DEVSPACE \<longleftrightarrow> pn v < 0xFE000" for v
    using page_lt [of KERNBASE v] page_lt [of KERNLINK v] page_lt [OF assms(5), of v] page_lt [of "P2V PHYSTOP" v]
      page_lt [of DEVSPACE v] r2(3,4)
    by (simp_all add: KERNBASE_def P2V_def PHYSTOP_def DEVSPACE_def PGSIZE_def pn_def [of "0x80000000"]
        pn_def [of "0x8E000000"] pn_def [of "0xFE000000"])
  have "lookup s4 d v = kernel_layout ?D v" for v
    unfolding kernel_layout_def lt s4(5) s3(5) s2(5) s1(5) V2P_def diff_conv_add_uminus add_0
    by (rule layout_cases [OF n pn_less [simplified]])
  moreover have "setup_loop (kmap s) d s = Inr (d, s4)" unfolding kmap_def s1(1) s2(1) s3(1) s4(1) ..
  ultimately show ?thesis using s4(2-4) c4(2) by (intro exI [of _ s4] exI [of _ xs4]) auto
qed

lemma setupkvm_maps:
  assumes "free_list s xs" "71 \<le> length xs"
    and "kernel_data s mod PGSIZE = 0" "KERNLINK < kernel_data s" "kernel_data s < P2V PHYSTOP"
  shows "\<exists>d s' ys. setupkvm s = Inr (d, s') \<and> d \<noteq> 0 \<and> free_list s' ys \<and> wf_pgdir s' d ys \<and> length xs \<le> length ys + 71 \<and>
     lookup s' d = kernel_layout (kernel_data s)"
proof -
  obtain d zs where xs: "xs = d # zs" using assms(2) by (cases xs) auto
  obtain s1 where k: "kalloc s = (d, s1)" "free_list s1 zs" "kernel_data s1 = kernel_data s"
    using kalloc_free_list [OF assms(1) [unfolded xs]] by (auto simp: kalloc_def Let_def)
  have d: "d \<noteq> 0" "d \<notin> set zs" using assms(1) by (auto simp: xs free_list_def page_ok_def)
  let ?s2 = "zero_page d s1"
  have t: "table_at ?s2 d i = None" if "i < 1024" for i using that by (simp add: table_at_def entry_zero_page)
  have "wf_pgdir ?s2 d zs" using d t by (auto simp: wf_pgdir_def)
  moreover have "lookup ?s2 d = (\<lambda>_. 0)" by (simp add: fun_eq_iff lookup_def t)
  moreover have "free_list ?s2 zs" by (rule free_list_frame [OF k(2)]) (use d in auto)
  ultimately obtain s' ys where "setup_loop (kmap ?s2) d ?s2 = Inr (d, s')" "free_list s' ys" "wf_pgdir s' d ys"
     "length zs \<le> length ys + 70" "lookup s' d = kernel_layout (kernel_data s)"
    using setup_loop_layout [of ?s2 zs d] assms(2-5) xs k(3) by (auto simp: zero_page_def set_page_def)
  moreover have "\<not> P2V PHYSTOP > DEVSPACE" by (simp add: P2V_def PHYSTOP_def KERNBASE_def DEVSPACE_def)
  ultimately show ?thesis using k(1) d(1) by (auto simp: setupkvm_def xs)
qed

lemma layout_no_user: "kernel_layout a v AND PTE_U = 0"
proof -
  have "x AND PTE_U = 0" if "x mod PGSIZE = 0" for x
  proof -
    have "x AND PTE_U = (x AND 0xFFF) AND PTE_U" by (simp add: PTE_U_def and.assoc)
    then show ?thesis by (simp add: page_mask [OF that])
  qed
  then have k: "(x OR p OR PTE_P) AND PTE_U = 0" if "x mod PGSIZE = 0" "p = 0 \<or> p = PTE_W" for x p
    using that by (auto simp: bit.conj_disj_distrib2 PTE_P_def PTE_W_def PTE_U_def)
  have "PGROUNDDOWN v mod PGSIZE = 0" by (simp add: unat_mod_page unat_PGROUNDDOWN)
  then show ?thesis using V2P_mod [of "PGROUNDDOWN v"] k k [of _ 0] by (simp add: kernel_layout_def)
qed

text \<open>
  (C31) \<open>setupkvm\<close> builds the kernel's half of an address space: with 71 free pages it succeeds, and the new
  directory maps exactly what the layout asks for. Below \<open>KERNBASE\<close> nothing is mapped; the first megabyte
  and the kernel's data are writable and its text is not, at \<open>KERNBASE\<close> above their physical addresses, up to
  \<open>PHYSTOP\<close>; the device space is mapped to itself; no entry has the user bit.
\<close>

theorem setupkvm_layout:
  assumes "free_list s xs" "71 \<le> length xs"
    and "kernel_data s mod PGSIZE = 0" "KERNLINK < kernel_data s" "kernel_data s < P2V PHYSTOP"
  shows "\<exists>d s'. setupkvm s = Inr (d, s') \<and> d \<noteq> 0 \<and> (\<forall>v. lookup s' d v = kernel_layout (kernel_data s) v) \<and>
     (\<forall>v. lookup s' d v AND PTE_U = 0)"
  using setupkvm_maps [OF assms] layout_no_user by fastforce

text \<open>A memory whose free pages are the 97 from \<open>0x80200000\<close> on, each with the address of the next.\<close>

definition paged :: "u32 \<Rightarrow> bytes" where
  "paged v = put32 0 (if v < 0x80260000 then v + PGSIZE else 0) (\<lambda>_. 0)"

definition many_pages :: kmem_st where
  "many_pages = small_kmem\<lparr>pmem := paged, freelist := 0x80200000, kernel_data := 0x80108000\<rparr>"

lemma paged_chain: "n \<le> 96 \<Longrightarrow> chain paged (0x80260000 - of_nat n * PGSIZE) (pages_from (0x80260000 - of_nat n * PGSIZE) (Suc n))"
proof (induction n)
  case 0
  then show ?case by (simp add: paged_def)
next
  case (Suc n)
  let ?p = "0x80260000 - of_nat (Suc n) * PGSIZE"
  have "unat (of_nat (Suc n) * PGSIZE) = 4096 * Suc n" using Suc.prems by (simp add: PGSIZE_def unat_word_ariths unat_of_nat)
  then have "unat ?p = 0x80260000 - 4096 * Suc n" using Suc.prems by (subst unat_sub) (simp_all add: word_le_nat_alt)
  then have "?p < 0x80260000" "?p \<noteq> 0" using Suc.prems unat_eq_0 [of ?p] by (simp_all only: word_less_nat_alt) auto
  moreover have e: "?p + PGSIZE = 0x80260000 - of_nat n * PGSIZE" by (simp add: algebra_simps)
  ultimately have "get32 (paged ?p) 0 = 0x80260000 - of_nat n * PGSIZE" unfolding paged_def e [symmetric] by simp
  with \<open>?p \<noteq> 0\<close> Suc show ?case unfolding pages_from_simps(2) [of ?p "Suc n"] e chain.simps(2) by simp
qed

lemma paged_free:
  assumes "pmem s = paged" "freelist s = 0x80200000" "kernel_end s \<le> 0x80200000"
  shows "free_list s (pages_from 0x80200000 97)"
proof -
  let ?p = "\<lambda>i. 0x80200000 + of_nat i * PGSIZE"
  have u: "unat (?p i) = 0x80200000 + 4096 * i" if "i < 97" for i
    using that by (simp add: PGSIZE_def unat_word_ariths unat_of_nat)
  have "inj_on ?p {0..<97}" by (rule inj_onI) (use u in \<open>metis add_left_cancel atLeastLessThan_iff mult_left_cancel zero_neq_numeral\<close>)
  moreover have "page_ok s (?p i)" if "i < 97" for i
  proof -
    have "unat (kernel_end s) \<le> 0x80200000" using assms(3) by (simp add: word_le_nat_alt)
    moreover have "unat (V2P (?p i)) = 0x200000 + 4096 * i"
      using that by (simp add: V2P_def KERNBASE_def PGSIZE_def unat_word_ariths unat_of_nat)
    moreover have "unat (?p i) mod 4096 = 0" using u [OF that] by simp
    moreover have "?p i \<noteq> 0" using u [OF that] by (metis add_is_0 unat_0 zero_neq_numeral)
    ultimately show ?thesis using that u [OF that]
      by (simp add: page_ok_def unat_mod_page word_le_nat_alt word_less_nat_alt PHYSTOP_def)
  qed
  moreover have "chain paged 0x80200000 (pages_from 0x80200000 97)" using paged_chain [of 96] by (simp add: PGSIZE_def)
  ultimately show ?thesis using assms(1,2) by (auto simp: free_list_def pages_from_def distinct_map)
qed

theorem setupkvm_layout_witness:
  "\<exists>d s'. setupkvm many_pages = Inr (d, s') \<and> d \<noteq> 0 \<and> lookup s' d 0x1000 = 0 \<and> lookup s' d 0x80100000 = 0x100001 \<and>
     lookup s' d 0x80109000 = 0x109003"
proof -
  have m: "kernel_data many_pages = 0x80108000" "pmem many_pages = paged" "freelist many_pages = 0x80200000"
    "kernel_end many_pages = 0x80100000"
    by (simp_all add: many_pages_def small_kmem_end)
  have "free_list many_pages (pages_from 0x80200000 97)" by (rule paged_free) (simp_all add: m)
  then have "\<exists>d s'. setupkvm many_pages = Inr (d, s') \<and> d \<noteq> 0 \<and>
     (\<forall>v. lookup s' d v = kernel_layout (kernel_data many_pages) v) \<and> (\<forall>v. lookup s' d v AND PTE_U = 0)"
    by (rule setupkvm_layout) (simp_all add: m KERNLINK_def KERNBASE_def EXTMEM_def P2V_def PHYSTOP_def PGSIZE_def pages_from_def)
  moreover have "kernel_layout 0x80108000 0x1000 = 0" "kernel_layout 0x80108000 0x80100000 = 0x100001"
    "kernel_layout 0x80108000 0x80109000 = 0x109003"
    by (simp_all add: kernel_layout_def KERNLINK_def KERNBASE_def EXTMEM_def P2V_def PHYSTOP_def PGSIZE_def V2P_def
        PGROUNDDOWN_def PTE_P_def PTE_W_def)
  ultimately show ?thesis by (metis m(1))
qed

end
