(* ===== verification/First_Proc.thy ===== *)
theory First_Proc
  imports Kvm Vm_Frame Proc_Life
begin

text \<open>
  The creation of the first process by \<open>userinit\<close>: with enough free pages it succeeds, and leaves
  \<open>initcode\<close> runnable. The last section holds a concrete state that boots.
\<close>

section \<open>The first user page\<close>

lemma page_zero: "pn 0 = 0" "pn (PGSIZE - 1) = 0" "PDX 0 = 0" "PDX (PGSIZE - 1) = 0"
  by (simp_all add: pn_def PGSIZE_def PDX_def)

lemma inituvm_ok:
  assumes "free_list s xs" "wf_pgdir s d xs" "2 \<le> length xs" "length init < 4096" "\<forall>v. pn v = 0 \<longrightarrow> lookup s d v = 0"
  shows "\<exists>s'. inituvm d init s = Inr s'"
proof -
  obtain m ys where xs: "xs = m # ys" "ys \<noteq> []" using assms(3) by (cases xs; cases "tl xs") auto
  obtain s1 where k: "kalloc s = (m, s1)" "free_list s1 ys" "pmem s1 = pmem s"
    using kalloc_free_list [OF assms(1) [unfolded xs]] by (auto simp: kalloc_def Let_def)
  have m: "m \<noteq> 0" "m \<notin> set ys" "m \<noteq> d" "d \<notin> set ys"
    using assms(1,2) by (auto simp: xs free_list_def page_ok_def wf_pgdir_def)
  let ?s2 = "zero_page m s1"
  have e: "entry x ?s2 = entry x s" if "fst x \<noteq> m" for x using that k(3) by (simp add: entry_def)
  have t: "table_at ?s2 d i = table_at s d i" for i using m(3) by (simp add: table_at_def e)
  have w: "wf_pgdir ?s2 d ys" using assms(2) by (auto simp: wf_pgdir_def t xs)
  have "table_at s d i = Some p \<Longrightarrow> i < 1024 \<Longrightarrow> p \<noteq> m" for i p using assms(2) by (auto simp: wf_pgdir_def xs)
  then have "lookup ?s2 d v = lookup s d v" for v
    using PDX_less [of v] by (auto simp: lookup_def t e split: option.splits)
  then have "\<forall>v. pn 0 \<le> pn v \<and> pn v \<le> pn (0 + PGSIZE - 1) \<longrightarrow> lookup ?s2 d v AND PTE_P = 0"
    using assms(5) by (simp add: page_zero)
  moreover have "free_list ?s2 ys" by (rule free_list_frame [OF k(2)]) (use m in auto)
  moreover have "PDX (0 + PGSIZE - 1) - PDX 0 < length ys" using xs(2) by (simp add: page_zero)
  ultimately obtain s3 where "mappages d 0 PGSIZE (V2P m) (PTE_W OR PTE_U) ?s2 = Inr (0, s3)"
    using mappages_maps [of ?s2 ys d 0 PGSIZE "V2P m" "PTE_W OR PTE_U"] w by (auto simp: PGSIZE_def)
  then show ?thesis using assms(4) k(1) m(1) by (simp add: inituvm_def)
qed

lemma first_space:
  assumes "free_list s ys" "74 \<le> length ys" "length init < 4096"
    and "kernel_data s mod PGSIZE = 0" "KERNLINK < kernel_data s" "kernel_data s < P2V PHYSTOP"
  shows "\<exists>d s1 s2. setupkvm s = Inr (d, s1) \<and> d \<noteq> 0 \<and> vmf s s1 \<and>
    inituvm d init (modp i (g d) s1) = Inr s2 \<and> vmf (modp i (g d) s1) s2"
proof -
  obtain d s1 zs where s1: "setupkvm s = Inr (d, s1)" "d \<noteq> 0" "free_list s1 zs" "wf_pgdir s1 d zs" "length ys \<le> length zs + 71"
    "lookup s1 d = kernel_layout (kernel_data s)"
    using setupkvm_maps [OF assms(1) _ assms(4-6)] assms(2) by auto
  let ?s = "modp i (g d) s1"
  have m: "pmem ?s = pmem s1" "freelist ?s = freelist s1" "kernel_end ?s = kernel_end s1" by (simp_all add: modp_def)
  have e: "entry x ?s = entry x s1" for x by (simp add: entry_def m)
  have t: "table_at ?s d = table_at s1 d" "lookup ?s d = lookup s1 d"
    by (simp_all add: fun_eq_iff table_at_def lookup_def e Let_def)
  have "kernel_layout (kernel_data s) v = 0" if "pn v = 0" for v
    using page_lt [of KERNBASE v] that by (simp add: kernel_layout_def KERNBASE_def PGSIZE_def pn_def)
  moreover have "free_list ?s zs" by (rule free_list_frame [OF s1(3)]) (simp_all add: m)
  moreover have "wf_pgdir ?s d zs" using s1(4) by (simp add: wf_pgdir_def t)
  ultimately obtain s2 where "inituvm d init ?s = Inr s2"
    using inituvm_ok [of ?s zs d init] s1(5,6) assms(2,3) by (auto simp: t)
  with s1(1,2) show ?thesis using setupkvm_vmf [OF s1(1) vmf_refl] inituvm_vmf [OF _ vmf_refl] by blast
qed

section \<open>userinit\<close>

lemma namei_root:
  assumes "\<exists>ip \<in> set (inodes s). i_ref ip = 0"
  shows "\<exists>ip f. namei [SLASH] s = Inr (Some ip, modi ip f s)"
proof -
  obtain j where j: "first_idx (\<lambda>ip. i_ref ip = 0) (inodes s) = Some j"
    using assms by (cases "first_idx (\<lambda>ip. i_ref ip = 0) (inodes s)") (auto simp: first_idx_None)
  have "\<exists>ip f. iget ROOTDEV ROOTINO s = Inr (ip, modi ip f s)"
    unfolding iget_def j by (simp split: option.split) blast
  then obtain ip f where "iget ROOTDEV ROOTINO s = Inr (ip, modi ip f s)" by blast
  moreover have "skipelem [SLASH] = None" by (simp add: skipelem_def)
  ultimately have "namei [SLASH] s = Inr (Some ip, modi ip f s)"
    by (simp add: namei_def namex_def namex_loop.simps [of ip "[SLASH]" False "[]" "modi ip f s"])
  then show ?thesis by blast
qed

definition pf :: "'a kmem_st_scheme \<Rightarrow> 'a kmem_st_scheme \<Rightarrow> bool" where
  "pf s0 s \<longleftrightarrow> s = s0\<lparr>procs := procs s, pmem := pmem s, freelist := freelist s\<rparr>"

lemma alloc_stack_ok:
  assumes "free_list s (k # ys)" "i < length (procs s)"
  shows "\<exists>s'. alloc_stack lnk i s = (Some i, s') \<and> free_list s' ys \<and> pf s s' \<and>
    length (procs s') = length (procs s) \<and> p_pid (proc_at s' i) = p_pid (proc_at s i) \<and> p_kstack (proc_at s' i) = k"
proof -
  have k: "k \<noteq> 0" "k \<notin> set ys" using assms(1) by (auto simp: free_list_def page_ok_def)
  define s' where "s' = snd (alloc_stack lnk i s)"
  have e: "alloc_stack lnk i s = (Some i, s')" using k(1) 
    by (simp add: s'_def alloc_stack_def kalloc_free_list [OF assms(1)] Let_def)
  have "free_list s' ys"
    by (rule free_list_frame [OF kalloc_free_list(2) [OF assms(1)]])
      (use k in \<open>auto simp: s'_def alloc_stack_def kalloc_free_list [OF assms(1)] Let_def modp_def\<close>)
  moreover have "pf s s' \<and> length (procs s') = length (procs s) \<and> p_pid (proc_at s' i) = p_pid (proc_at s i) \<and> p_kstack (proc_at s' i) = k"
    using k(1) assms(2) by (simp add: s'_def alloc_stack_def kalloc_free_list [OF assms(1)] Let_def modp_def set_page_def pf_def)
  ultimately show ?thesis using e by blast
qed

lemma userinit_ok:
  assumes "p_state (proc_at s 0) = UNUSED" "procs s \<noteq> []" "queues s = q # qs" "q_cnt q = -1" "length (q_slot q) = 64"
    and "free_list s xs" "75 \<le> length xs"
    and "kernel_data s mod PGSIZE = 0" "KERNLINK < kernel_data s" "kernel_data s < P2V PHYSTOP"
    and "length (initcode lnk) < 4096" "\<exists>ip \<in> set (inodes s). i_ref ip = 0"
  shows "\<exists>s'. userinit lnk s = Inr s' \<and> initproc s' = Some 0 \<and> (\<exists>p. proc_at s' 0 = p \<and>
    p_state p = RUNNABLE \<and> p_pid p = nextpid s \<and> p_pgdir p \<noteq> 0 \<and> p_kstack p \<noteq> 0 \<and> p_sz p = PGSIZE \<and>
    tf_eip (p_tf p) = 0 \<and> tf_cs (p_tf p) AND 3 = DPL_USER \<and> p_cwd p \<noteq> None)"
proof -
  obtain k ys where xs: "xs = k # ys" "74 \<le> length ys" using assms(7) by (cases xs) auto
  have i: "first_idx (\<lambda>p. p_state p = UNUSED) (procs s) = Some 0" using assms(1,2) by (cases "procs s") auto
  obtain q' where q: "q_push 0 q = Inr q'" using assms(4,5) by (simp add: q_push_def aput_def)
  let ?s1 = "setq 0 q' (new_pid 0 s)"
  have "free_list ?s1 (k # ys)"
    by (rule free_list_frame [OF assms(6) [unfolded xs]]) (simp_all add: setq_def new_pid_def modp_def)
  then obtain s2 where s2: "alloc_stack lnk 0 ?s1 = (Some 0, s2)" "free_list s2 ys" "pf ?s1 s2"
    "length (procs s2) = length (procs ?s1)" "p_pid (proc_at s2 0) = p_pid (proc_at ?s1 0)" "p_kstack (proc_at s2 0) = k"
    using alloc_stack_ok [of ?s1 k ys 0 lnk] assms(2) by (auto simp: setq_def new_pid_def)
  have a: "allocproc lnk s = Inr (Some 0, s2)" using i q s2(1) assms(3) by (simp add: allocproc_def getq_def aget_def new_pid_def)
  let ?s3 = "s2\<lparr>initproc := Some 0\<rparr>"
  have f2: "s2 = ?s1\<lparr>procs := procs s2, pmem := pmem s2, freelist := freelist s2\<rparr>" using s2(3) by (simp only: pf_def)
  have r2: "kernel_data s2 = kernel_data s \<and> inodes s2 = inodes s"
    by (subst (1 2) f2) (simp add: setq_def new_pid_def modp_def)
  obtain d s4 s6 where s4: "setupkvm ?s3 = Inr (d, s4)" "d \<noteq> 0" "vmf ?s3 s4"
    and s6: "inituvm d (initcode lnk) (modp 0 (\<lambda>x. x\<lparr>p_pgdir := d\<rparr>) s4) = Inr s6" "vmf (modp 0 (\<lambda>x. x\<lparr>p_pgdir := d\<rparr>) s4) s6"
    using first_space [of ?s3 ys "initcode lnk" 0 "\<lambda>d x. x\<lparr>p_pgdir := d\<rparr>"] assms(8-11) s2(2) xs(2) r2
    by (auto simp: free_list_def page_ok_def)
  let ?s5 = "modp 0 (\<lambda>x. x\<lparr>p_pgdir := d\<rparr>) s4"
  note f4 = s4(3) [unfolded vmf_def] and f6 = s6(2) [unfolded vmf_def]
  have r4: "procs s4 = procs s2 \<and> inodes s4 = inodes s \<and> initproc s4 = Some 0" by (subst (1 2 3) f4) (simp add: r2)
  have r6: "procs s6 = procs ?s5 \<and> inodes s6 = inodes s \<and> initproc s6 = Some 0" by (subst (1 2 3) f6) (simp add: modp_def r4)
  let ?s7 = "modp 0 (\<lambda>x. x\<lparr>p_sz := PGSIZE, p_tf := init_tf, p_name := ''initcode''\<rparr>) s6"
  obtain ip f where "namei [SLASH] ?s7 = Inr (Some ip, modi ip f ?s7)"
    using namei_root [of ?s7] r6 assms(12) by (auto simp: modp_def)
  then have "userinit lnk s = Inr (modp 0 (\<lambda>x. x\<lparr>p_cwd := Some ip, p_state := RUNNABLE,
      p_start := int_of_uint (ticks (modi ip f ?s7))\<rparr>) (modi ip f ?s7))"
    using a s4(1,2) s6(1) by (simp add: userinit_def deref_def)
  moreover have "p_pid (proc_at ?s1 0) = nextpid s" using assms(2) by (simp add: setq_def new_pid_def)
  moreover have "k \<noteq> 0" using assms(6) by (simp add: xs free_list_def page_ok_def)
  moreover have "length (procs s2) > 0" using s2(4) assms(2) by (simp add: setq_def new_pid_def)
  ultimately show ?thesis using r4 r6 s2(5,6) s4(2) 
    by (simp add: modi_def init_tf_def Let_def DPL_USER_def SEG_UCODE_def)
qed

text \<open>
  (C32) \<open>userinit\<close> boots: from a state whose table and first queue are empty, with 75 free pages, an
  initial program of less than a page and room in the inode cache, it succeeds. Slot 0 then holds a
  runnable process with the first pid, a page directory and a kernel stack, which starts at address 0 in user mode with
  the root directory as current directory, and it is \<open>initproc\<close>.
\<close>

theorem userinit_boots:
  assumes "p_state (proc_at s 0) = UNUSED" "procs s \<noteq> []" "queues s = q # qs" "q_cnt q = -1" "length (q_slot q) = 64"
    and "free_list s xs" "75 \<le> length xs"
    and "kernel_data s mod PGSIZE = 0" "KERNLINK < kernel_data s" "kernel_data s < P2V PHYSTOP"
    and "length (initcode lnk) < 4096" "\<exists>ip \<in> set (inodes s). i_ref ip = 0"
  shows "\<exists>s'. userinit lnk s = Inr s' \<and> initproc s' = Some 0 \<and> (\<exists>p. proc_at s' 0 = p \<and>
    p_state p = RUNNABLE \<and> p_pid p = nextpid s \<and> p_pgdir p \<noteq> 0 \<and> p_kstack p \<noteq> 0 \<and> p_sz p = PGSIZE \<and>
    tf_eip (p_tf p) = 0 \<and> tf_cs (p_tf p) AND 3 = DPL_USER \<and> p_cwd p \<noteq> None)"
  using assms by (rule userinit_ok)

text \<open>A machine about to create its first process, with an initial program of two bytes.\<close>

definition boot_files :: file_st where
  "boot_files = (small_files wrap_pipe)\<lparr>procs := replicate NPROC zero_proc, nextpid := 1, initproc := None, cpu_proc := None,
     queues := replicate 5 \<lparr>q_slot = replicate 64 None, q_cnt = -1\<rparr>, pmem := paged, freelist := 0x80200000,
     kernel_end := 0x80100000, kernel_data := 0x80108000, inodes := map (\<lambda>i. i\<lparr>i_ref := 0\<rparr>) (inodes ten_bytes),
     ftable := replicate NFILE \<lparr>f_type = FD_NONE, f_ref = 0, f_readable = 0, f_writable = 0, f_pipe = 0, f_ip = None, f_off = 0\<rparr>\<rparr>"

definition boot_lnk :: linked where
  "boot_lnk = \<lparr>forkret_pc = 0x80103000, trapret_pc = 0x80105000, initcode = [0xEB, 0xFE]\<rparr>"

lemma boot_memory:
  assumes "pmem s = paged" "freelist s = 0x80200000" "kernel_end s = 0x80100000"
  shows "free_list s (pages_from 0x80200000 97) \<and> 75 \<le> length (pages_from 0x80200000 97)"
  using paged_free [of s] assms by (simp add: pages_from_def)

lemma boot_data: "0x80108000 mod PGSIZE = 0" "KERNLINK < 0x80108000" "0x80108000 < P2V PHYSTOP"
  by (simp_all add: PGSIZE_def KERNLINK_def KERNBASE_def EXTMEM_def P2V_def PHYSTOP_def)

lemma boot_inode: "\<exists>ip \<in> set (map (\<lambda>i. i\<lparr>i_ref := 0\<rparr>) (inodes ten_bytes)). i_ref ip = 0"
  by (simp add: ten_bytes_def small_fs_def log_st.defs)

theorem userinit_boots_witness:
  "\<exists>s'. userinit boot_lnk boot_files = Inr s' \<and> initproc s' = Some 0 \<and> p_state (proc_at s' 0) = RUNNABLE \<and>
    p_pid (proc_at s' 0) = 1"
  using userinit_boots [of boot_files "\<lparr>q_slot = replicate 64 None, q_cnt = -1\<rparr>" _ "pages_from 0x80200000 97" boot_lnk]
    boot_memory [of boot_files] boot_data boot_inode
  by (simp add: boot_files_def boot_lnk_def NPROC_def zero_proc_def numeral_eq_Suc) blast

end
