(* ===== verification/Kernel_Steps.thy ===== *)
theory Kernel_Steps
  imports Kernel_Inv First_Proc
begin

text \<open>
  The steps of a running kernel and the states they reach. A step is the creation of the first process,
  a trap from entry to return, a stretch of a call that sleeps, a decision of the scheduler, or a change of
  the CPU that the model follows: the kernel runs one call at a time, on any CPU. Every
  reachable state satisfies the invariant of theory \<open>Kernel_Inv\<close>.
\<close>

section \<open>wait\<close>

lemma rem_process_calm: "rem_process pid cq s = Inr s' \<Longrightarrow> calm s0 s \<Longrightarrow> calm s0 s'"
  by (auto simp: rem_process_def res_iff setq_def split: if_splits)

lemma reap_kinv:
  assumes "reap u i s = Inr (r, s')" "kinv X s" "i < NPROC" "p_state (proc_at s i) = ZOMBIE" "cpu_proc s \<noteq> Some i"
  shows "kinv X s'"
proof -
  from assms(1) obtain s1 s2 s3 where s: "kfree (p_kstack (proc_at s i)) s = Inr s1"
    "freevm (p_pgdir (proc_at (modp i (\<lambda>p. p\<lparr>p_kstack := 0\<rparr>) s1) i)) (modp i (\<lambda>p. p\<lparr>p_kstack := 0\<rparr>) s1) = Inr s2"
    "(if u then rem_process (p_pid (proc_at s2 i)) (p_current_queue (proc_at s2 i)) s2 else Inr s2) = Inr s3"
    "s' = modp i (\<lambda>p. p\<lparr>p_pid := 0, p_parent := None, p_name := [], p_killed := 0, p_state := UNUSED\<rparr>) s3"
    unfolding reap_def Let_def by (auto simp: bnd_Inr_iff)
  define zombie where "zombie t \<longleftrightarrow> kinv X t \<and> p_state (proc_at t i) = ZOMBIE \<and> cpu_proc t \<noteq> Some i" for t :: "'a file_st_scheme"
  have calm: "zombie t'" if "calm t t'" "zombie t" for t t'
  proof -
    have "same_proc (proc_at t i) (proc_at t' i)"
      using calm_nth(2) [OF that(1), of i] kinvD(3) [of X t] that(2) assms(3) by (simp add: zombie_def)
    then show ?thesis using kinv_calm [OF that(1)] calm_nth(4) [OF that(1)] that(2) by (auto simp: zombie_def same_proc_def)
  qed
  have s1: "zombie s1"
    by (rule calm [OF calm_vm [OF kfree_vmf [OF s(1) vmf_refl] calm_refl]]) (use assms in \<open>simp add: zombie_def\<close>)
  then have k1: "kinv X s1" by (simp add: zombie_def)
  have "kinv X (modp i (\<lambda>p. p\<lparr>p_kstack := 0\<rparr>) s1)"
    by (rule kinv_modp [OF k1 assms(3)]) (use kinvD(5) [OF k1 assms(3)] s1 in \<open>auto simp: zombie_def proc_ok_def shaped_def\<close>)
  then have "zombie (modp i (\<lambda>p. p\<lparr>p_kstack := 0\<rparr>) s1)"
    using s1 kinvD(3) [OF k1] assms(3) by (simp add: zombie_def)
  then have "zombie s2" by (rule calm [OF calm_vm [OF freevm_vmf [OF s(2) vmf_refl] calm_refl]])
  moreover have "calm s2 s3" using s(3) by (auto simp: calm_refl split: if_splits elim!: rem_process_calm)
  ultimately have s3: "zombie s3" by (rule calm [rotated])
  then have k3: "kinv X s3" by (simp add: zombie_def)
  show ?thesis unfolding s(4)
    by (rule kinv_modp [OF k3 assms(3)])
      (use kinvD(5) [OF k3 assms(3)] s3 in \<open>auto simp: zombie_def proc_ok_def shaped_def\<close>)
qed

lemma wait_kinv:
  assumes "wait u s = Inr (r, s')" "alive no_debt c s"
  shows "kinv no_debt s'"
proof -
  have c: "cpu_proc s = Some c" "kinv no_debt s" "p_state (proc_at s c) \<noteq> ZOMBIE"
    using assms(2) by (auto simp: alive_def current_def)
  show ?thesis
  proof (cases "first_idx (\<lambda>p. is_child c p \<and> p_state p = ZOMBIE) (procs s)")
    case None
    with assms(1) c show ?thesis by (auto simp: wait_def split: if_splits)
  next
    case (Some i)
    then have "i < NPROC" "p_state (proc_at s i) = ZOMBIE" using first_idx_SomeD [OF Some] kinvD(3) [OF c(2)] by auto
    moreover from this c have "cpu_proc s \<noteq> Some i" by auto
    moreover have "reap u i s = Inr (r, s')" using assms(1) Some c by (simp add: wait_def)
    ultimately show ?thesis using reap_kinv [OF _ c(2)] by blast
  qed
qed

lemma waitx_kinv:
  assumes "waitx wt rt s = Inr (r, s')" "alive no_debt c s"
  shows "kinv no_debt s'"
proof -
  have c: "cpu_proc s = Some c" "kinv no_debt s" "p_state (proc_at s c) \<noteq> ZOMBIE"
    using assms(2) by (auto simp: alive_def current_def)
  show ?thesis
  proof (cases "first_idx (\<lambda>p. is_child c p \<and> p_state p = ZOMBIE) (procs s)")
    case None
    with assms(1) c show ?thesis by (auto simp: waitx_def split: if_splits)
  next
    case (Some i)
    then have i: "i < NPROC" "p_state (proc_at s i) = ZOMBIE" using first_idx_SomeD [OF Some] kinvD(3) [OF c(2)] by auto
    from assms(1) Some c obtain x y s1 s2 where s: "ustore32 wt x s = Inr s1" "ustore32 rt y s1 = Inr s2" "reap False i s2 = Inr (r, s')"
      by (auto simp: waitx_def Let_def res_iff)
    note v = ustore32_vmf [OF s(2) ustore32_vmf [OF s(1) vmf_refl]]
    have "kinv no_debt s2" by (rule kinv_calm [OF calm_vm [OF v calm_refl] c(2)])
    from reap_kinv [OF s(3) this i(1)] i(2) c vmf_sel [OF v] show ?thesis by auto
  qed
qed

section \<open>The first process\<close>

definition newborn :: "nat \<Rightarrow> 'a file_st_scheme \<Rightarrow> bool" where
  "newborn i s \<longleftrightarrow> kinv no_debt s \<and> cpu_proc s = None \<and> embryo i s"

lemma newborn_calm: "calm s s' \<Longrightarrow> newborn i s \<Longrightarrow> newborn i s'"
proof -
  assume a: "calm s s'" "newborn i s"
  then have "same_proc (proc_at s i) (proc_at s' i)"
    using kinvD(3) [of no_debt s] calm_nth(2) [of s s' i] by (auto simp: newborn_def embryo_def)
  then show ?thesis
    using a kinv_calm [OF a(1)] calm_nth(4) [OF a(1)] by (auto simp: newborn_def embryo_def same_proc_def)
qed

lemma newborn_set:
  assumes "newborn i s" "same_proc (proc_at s i) ((g (proc_at s i))\<lparr>p_pgdir := p_pgdir (proc_at s i)\<rparr>)"
  shows "newborn i (modp i g s)"
proof -
  have k: "kinv no_debt s" "i < NPROC" "length (procs s) = NPROC" "p_state (proc_at s i) = EMBRYO" "cpu_proc s = None"
    using assms(1) kinvD(3) [of no_debt s] by (auto simp: newborn_def embryo_def)
  have "kinv no_debt (modp i g s)"
    by (rule kinv_modp [OF k(1,2)])
      (use kinvD(5) [OF k(1,2)] assms(2) k in \<open>auto simp: same_proc_def proc_ok_def shaped_def\<close>)
  then show ?thesis using assms k by (auto simp: newborn_def embryo_def same_proc_def)
qed

lemma refs_cpu_upd [simp]:
  "ref_of (s\<lparr>initproc := r\<rparr>) f = ref_of s f" "ref_of (s\<lparr>cpu_proc := r\<rparr>) f = ref_of s f"
  "ref_of (s\<lparr>cpu_cr3 := a\<rparr>) f = ref_of s f" "ref_of (s\<lparr>cpu_esp0 := a\<rparr>) f = ref_of s f"
  "refs (s\<lparr>initproc := r\<rparr>) f = refs s f" "refs (s\<lparr>cpu_proc := r\<rparr>) f = refs s f"
  "refs (s\<lparr>cpu_cr3 := a\<rparr>) f = refs s f" "refs (s\<lparr>cpu_esp0 := a\<rparr>) f = refs s f"
  by (simp_all add: ref_of_def refs_def)

lemma kinv_initproc: "kinv X s \<Longrightarrow> (\<And>c. r = Some c \<Longrightarrow> c < NPROC) \<Longrightarrow> kinv X (s\<lparr>initproc := r\<rparr>)"
  by (simp add: kinv_def)

lemma userinit_kinv:
  assumes "userinit lnk s = Inr s'" "kinv no_debt s" "cpu_proc s = None"
  shows "kinv no_debt s'"
proof -
  from assms(1) obtain r s1 pgdir s2 i where s1: "allocproc lnk s = Inr (r, s1)" "setupkvm (s1\<lparr>initproc := r\<rparr>) = Inr (pgdir, s2)"
    "r = Some i" "pgdir \<noteq> 0"
    and rest: "bnd (inituvm pgdir (initcode lnk) (modp i (\<lambda>x. x\<lparr>p_pgdir := pgdir\<rparr>) s2)) (\<lambda>s.
       let s = modp i (\<lambda>x. x\<lparr>p_sz := PGSIZE, p_tf := init_tf, p_name := ''initcode''\<rparr>) s in
       bnd (namei [SLASH] s) (\<lambda>(cwd, s).
       Inr (modp i (\<lambda>x. x\<lparr>p_cwd := cwd, p_state := RUNNABLE, p_start := int_of_uint (ticks s)\<rparr>) s))) = Inr s'"
    unfolding userinit_def Let_def by (auto simp: bnd_Inr_iff deref_Inr_iff split: if_splits)
  note a = allocproc_kinv [OF s1(1) assms(2)]
  have i: "i < NPROC" using a s1(3) by (auto simp: embryo_def)
  have "newborn i (s1\<lparr>initproc := r\<rparr>)"
    using a s1(3) i assms(3) by (auto simp: newborn_def embryo_def intro!: kinv_initproc)
  then have "newborn i s2" by (rule newborn_calm [OF calm_vm [OF setupkvm_vmf [OF s1(2) vmf_refl] calm_refl]])
  then have s3: "newborn i (modp i (\<lambda>x. x\<lparr>p_pgdir := pgdir\<rparr>) s2)" (is "newborn i ?s3")
    by (rule newborn_set) (simp add: same_proc_def)
  from rest obtain s4 s5 cwd where s4: "inituvm pgdir (initcode lnk) ?s3 = Inr s4"
    "namei [SLASH] (modp i (\<lambda>x. x\<lparr>p_sz := PGSIZE, p_tf := init_tf, p_name := ''initcode''\<rparr>) s4) = Inr (cwd, s5)"
    "s' = modp i (\<lambda>x. x\<lparr>p_cwd := cwd, p_state := RUNNABLE, p_start := int_of_uint (ticks s5)\<rparr>) s5"
    unfolding Let_def by (auto simp: bnd_Inr_iff)
  define g where "g t \<longleftrightarrow> newborn i t \<and> p_pgdir (proc_at t i) \<noteq> 0" for t :: "'a file_st_scheme"
  have calm: "g t'" if "calm t t'" "g t" for t t'
    using calm_nth(2) [OF that(1), of i] newborn_calm [OF that(1)] kinvD(3) [of no_debt t] i that(2)
    by (auto simp: g_def newborn_def same_proc_def)
  have "g ?s3" using s3 s1(4) i kinvD(3) [of no_debt ?s3] by (simp add: g_def newborn_def)
  then have "g s4" by (rule calm [OF calm_vm [OF inituvm_vmf [OF s4(1) vmf_refl] calm_refl]])
  then have "g (modp i (\<lambda>x. x\<lparr>p_sz := PGSIZE, p_tf := init_tf, p_name := ''initcode''\<rparr>) s4)"
    by (rule calm [rotated]) (auto simp: same_proc_def calm_refl)
  then have s5: "g s5" by (rule calm [OF calm_fs [OF namei_fr [OF s4(2) fs_frame_refl] calm_refl]])
  then have k5: "kinv no_debt s5" "p_state (proc_at s5 i) = EMBRYO" by (auto simp: g_def newborn_def embryo_def)
  show ?thesis unfolding s4(3)
    by (rule kinv_modp [OF k5(1) i])
      (use kinvD(5) [OF k5(1) i] s5 k5 in \<open>auto simp: g_def newborn_def embryo_def proc_ok_def shaped_def\<close>)
qed

lemma alloc_stack_sel:
  assumes "alloc_stack lnk i s = (r, s')"
  shows "nextpid s' = nextpid s" "initproc s' = initproc s" "length (procs s') = length (procs s)"
    "p_pid (proc_at s' i) = p_pid (proc_at s i)" "r = None \<Longrightarrow> i < length (procs s) \<Longrightarrow> p_state (proc_at s' i) = UNUSED"
proof -
  obtain k s1 where k: "kalloc s = (k, s1)" by fastforce
  note v = vmf_sel [OF kalloc_vmf [OF k vmf_refl]]
  show "nextpid s' = nextpid s" "initproc s' = initproc s" "length (procs s') = length (procs s)"
    "p_pid (proc_at s' i) = p_pid (proc_at s i)" "r = None \<Longrightarrow> i < length (procs s) \<Longrightarrow> p_state (proc_at s' i) = UNUSED"
    using assms by (cases "i < length (procs s)";
        auto simp: alloc_stack_def Let_def set_page_def k v modp_def list_update_beyond split: if_splits)+
qed

text \<open>Every slot but a free one is left alone by \<open>allocproc\<close>, and the new process has the next identifier.\<close>

lemma allocproc_new:
  assumes "allocproc lnk s = Inr (r, s')"
  shows "initproc s' = initproc s \<and> length (procs s') = length (procs s) \<and> nextpid s' \<le> nextpid s + 1 \<and>
    (s' = s \<and> r = None \<or> (\<exists>i. i < length (procs s) \<and> p_state (proc_at s i) = UNUSED \<and>
       (\<forall>j. j \<noteq> i \<longrightarrow> proc_at s' j = proc_at s j) \<and> p_pid (proc_at s' i) = nextpid s \<and>
       (r = Some i \<or> r = None \<and> p_state (proc_at s' i) = UNUSED)))"
proof (cases "first_idx (\<lambda>p. p_state p = UNUSED) (procs s)")
  case None
  with assms show ?thesis by (simp add: allocproc_def)
next
  case (Some i)
  note i = first_idx_SomeD [OF Some]
  from assms Some obtain q where s': "alloc_stack lnk i (setq 0 q (new_pid i s)) = (r, s')"
    by (auto simp: allocproc_def Let_def res_iff)
  have "r = Some i \<or> r = None" using s' by (auto simp: alloc_stack_def Let_def split: prod.splits if_splits)
  moreover have "proc_at s' j = proc_at s j" if "j \<noteq> i" for j
    using alloc_stack_frame(2) [OF s' that] that by (simp add: new_pid_def Let_def)
  ultimately show ?thesis using i alloc_stack_sel [OF s']
    by (auto simp: new_pid_def Let_def intro!: exI [of _ i])
qed

lemma userinit_nextpid:
  assumes "userinit lnk s = Inr s'"
  shows "nextpid s' \<le> nextpid s + 1"
proof -
  from assms obtain r s1 pgdir s2 i s4 s5 cwd where s1: "allocproc lnk s = Inr (r, s1)" "setupkvm (s1\<lparr>initproc := r\<rparr>) = Inr (pgdir, s2)"
    and s4: "inituvm pgdir (initcode lnk) (modp i (\<lambda>x. x\<lparr>p_pgdir := pgdir\<rparr>) s2) = Inr s4"
    "namei [SLASH] (modp i (\<lambda>x. x\<lparr>p_sz := PGSIZE, p_tf := init_tf, p_name := ''initcode''\<rparr>) s4) = Inr (cwd, s5)"
    "s' = modp i (\<lambda>x. x\<lparr>p_cwd := cwd, p_state := RUNNABLE, p_start := int_of_uint (ticks s5)\<rparr>) s5"
    unfolding userinit_def Let_def by (auto simp: bnd_Inr_iff deref_Inr_iff split: if_splits)
  have "nextpid s2 = nextpid s1" using vmf_sel(3) [OF setupkvm_vmf [OF s1(2) vmf_refl]] by simp
  moreover have "nextpid s4 = nextpid s2" using vmf_sel(3) [OF inituvm_vmf [OF s4(1) vmf_refl]] by simp
  moreover have "nextpid s5 = nextpid s4" using calm_nth(3) [OF calm_fs [OF namei_fr [OF s4(2) fs_frame_refl] calm_refl]] by simp
  ultimately show ?thesis using allocproc_new [OF s1(1)] by (simp add: s4(3))
qed

section \<open>The scheduler\<close>

lemma kinv_cpu:
  "kinv X s \<Longrightarrow> (\<And>c. r = Some c \<Longrightarrow> c < NPROC \<and> p_state (proc_at s c) \<noteq> UNUSED) \<Longrightarrow>
     kinv X (s\<lparr>cpu_proc := r, cpu_esp0 := a, cpu_cr3 := b\<rparr>)"
  by (simp add: kinv_def)

lemma dispatch_kinv:
  assumes "dispatch p s = Inr s'" "kinv X s" "p < NPROC" "p_state (proc_at s p) = RUNNABLE"
  shows "kinv X s'"
proof -
  from assms(1) obtain a b where s': "s' = modp p (\<lambda>pr. pr\<lparr>p_state := RUNNING, p_num_run := p_num_run pr + 1\<rparr>)
      (s\<lparr>cpu_proc := Some p, cpu_esp0 := a, cpu_cr3 := b\<rparr>)" (is "_ = modp p ?g ?s")
    by (auto simp: dispatch_def switchuvm_def res_iff split: if_splits)
  have k: "kinv X ?s" by (rule kinv_cpu [OF assms(2)]) (use assms(3,4) in simp)
  show ?thesis unfolding s'
    by (rule kinv_modp [OF k assms(3)]) (use kinvD(5) [OF k assms(3)] assms(4) in \<open>auto simp: proc_ok_def shaped_def\<close>)
qed

lemma undispatch_kinv: "kinv X s \<Longrightarrow> kinv X (undispatch s)"
  by (simp add: undispatch_def switchkvm_def kinv_def)

lemma dispatch_ok:
  assumes "kinv X s" "p < NPROC" "p_state (proc_at s p) = RUNNABLE"
  shows "\<exists>s'. dispatch p s = Inr s'"
  using kinvD(3) [OF assms(1)] kinvD(5) [OF assms(1,2)] assms(2,3) by (simp add: dispatch_def switchuvm_def proc_ok_def)

lemma calm_setq [simp]: "calm s0 (setq k q s) = calm s0 s"
  by (simp add: setq_def)

lemma demote_calm: "demote k i p s = Inr s' \<Longrightarrow> calm s0 s \<Longrightarrow> calm s0 s'"
  by (auto simp: demote_def res_iff same_proc_def split: if_splits intro!: calm_modp_at)

lemma after_run_calm: "after_run k i p s = Inr s' \<Longrightarrow> calm s0 s \<Longrightarrow> calm s0 s'"
  by (auto simp: after_run_def rotate4_def res_iff split: if_splits elim!: demote_calm)

lemma age_one_calm: "age_one k p s = Inr s' \<Longrightarrow> calm s0 s \<Longrightarrow> calm s0 s'"
  by (auto simp: age_one_def Let_def res_iff same_proc_def elim!: rem_process_calm intro!: calm_modp_at)

lemma age_loop_calm: "age_loop k i s = Inr s' \<Longrightarrow> calm s0 s \<Longrightarrow> calm s0 s'"
proof (induction "nat (cnt s k + 1 - i)" arbitrary: i s rule: less_induct)
  case less
  have IH: "age_loop k (i + 1) t = Inr s' \<Longrightarrow> calm s0 t \<Longrightarrow> calm s0 s'" if "i \<le> cnt s k" "cnt t k \<le> cnt s k" for t
    using less.hyps [of t "i + 1"] that by simp
  from less.prems show ?case
    by (subst (asm) age_loop.simps)
      (auto simp: res_iff split: if_splits elim!: IH [rotated 2] age_one_calm dest: age_one_cnt)
qed

lemma ageing_calm: "ageing s = Inr s' \<Longrightarrow> calm s0 s \<Longrightarrow> calm s0 s'"
  by (auto simp: ageing_def res_iff elim!: age_loop_calm)

section \<open>Traps\<close>

definition on_cpu :: "'a ptable_st_scheme \<Rightarrow> bool" where
  "on_cpu s \<longleftrightarrow> (\<forall>c. cpu_proc s = Some c \<longrightarrow> p_state (proc_at s c) = RUNNING)"

lemma on_cpu_alive: "kinv no_debt s \<Longrightarrow> on_cpu s \<Longrightarrow> cpu_proc s = Some c \<Longrightarrow> alive no_debt c s"
  by (simp add: alive_def current_def on_cpu_def)

lemma calm_kinv [elim]: "kinv X s \<Longrightarrow> calm s s' \<Longrightarrow> kinv X s'"
  by (rule kinv_calm)

lemma syscalls_kinv:
  assumes "syscalls pol lnk num = Some f" "f s = Inr (r, s')" "alive no_debt c s"
  shows "kinv no_debt s'"
proof -
  note k = alive_kinv [OF assms(3)]
  note calm = sys_calm [OF _ calm_refl, THEN kinv_calm, OF _ k] sys_rw_calm [OF _ calm_refl cons_devsw_calm, THEN kinv_calm, OF _ k]
  have cur: "current c s" using assms(3) by (simp add: alive_def)
  show ?thesis
    using assms(1,2)
    by (auto simp: sys_fork_def sys_exit_def sys_wait_def sys_waitx_def res_iff k split: if_splits
        elim!: calm sys_dup_kinv [OF _ k cur] sys_close_kinv [OF _ k cur] sys_open_kinv [OF _ assms(3)]
          sys_pipe_kinv [OF _ assms(3)] fork_kinv [OF _ assms(3)] exit_kinv [OF _ k]
          wait_kinv [OF _ assms(3)] waitx_kinv [OF _ assms(3)])
qed

declare syscalls.simps [simp del]

lemma set_eax_kinv: "kinv X s \<Longrightarrow> kinv X (set_eax c r s)"
  by (rule kinv_calm [OF set_eax_calm [OF calm_refl]])

lemma syscall_kinv:
  assumes "syscall pol lnk s = Inr (l, s')" "alive no_debt c s"
  shows "kinv no_debt s'"
  using assms(1) syscalls_kinv [OF _ _ assms(2)] alive_kinv [OF assms(2)]
  by (auto simp: syscall_def Let_def res_iff split: option.splits if_splits intro!: set_eax_kinv)

lemma trap_syscall_kinv:
  assumes "trap_syscall pol lnk tf s = Inr (l, s')" "kinv no_debt s" "on_cpu s"
  shows "kinv no_debt s'"
proof -
  have "alive no_debt c (modp c (\<lambda>p. p\<lparr>p_tf := tf\<rparr>) s)" if "cpu_proc s = Some c" for c
    by (rule alive_calm [OF calm_modp [OF _ calm_refl] on_cpu_alive [OF assms(2,3) that]]) (simp add: same_proc_def)
  then show ?thesis
    using assms(1,2) by (auto simp: trap_syscall_def res_iff split: if_splits elim!: exit_kinv syscall_kinv)
qed

lemma exit_if_killed_kinv: "exit_if_killed tf s = Inr (b, s') \<Longrightarrow> kinv no_debt s \<Longrightarrow> kinv no_debt s'"
  by (auto simp: exit_if_killed_def res_iff split: option.splits if_splits elim!: exit_kinv)

lemma yield_kinv: "yield_enter s = Inr s' \<Longrightarrow> kinv X s \<Longrightarrow> on_cpu s \<Longrightarrow> kinv X s'"
  by (auto simp: yield_enter_def res_iff on_cpu_def same_proc_def intro!: kinv_calm [OF calm_modp_at [OF _ calm_refl]])

lemma trap_kinv:
  assumes "trap pol lnk cpu input tf s = Inr (l, s')" "kinv no_debt s" "on_cpu s"
  shows "kinv no_debt s'"
proof (cases "unat (tf_trapno tf) = T_SYSCALL")
  case True
  with assms show ?thesis by (auto simp: trap_def elim: trap_syscall_kinv)
next
  case False
  from assms(1) False obtain s1 where s1: "trap_switch cpu input tf s = Inr s1" by (auto simp: trap_def res_iff)
  have k1: "kinv no_debt s1" by (rule kinv_calm [OF trap_switch_calm [OF s1 calm_refl] assms(2)])
  have y: "kinv no_debt s3" if "yield_enter s2 = Inr s3" "kinv no_debt s2" "cpu_proc s2 = Some c" "p_state (proc_at s2 c) = RUNNING" for s2 s3 c
    by (rule yield_kinv [OF that(1,2)]) (use that(3,4) in \<open>simp add: on_cpu_def\<close>)
  from assms(1) False s1 k1 show ?thesis
    by (auto simp: trap_def res_iff split: if_splits option.splits elim!: y exit_if_killed_kinv)
qed

section \<open>Reachable states\<close>

text \<open>What static storage and the boot code leave: empty tables, and an idle CPU.\<close>

definition fresh :: "'a file_st_scheme \<Rightarrow> bool" where
  "fresh s \<longleftrightarrow> procs s = replicate NPROC zero_proc \<and> nextpid s = 1 \<and> initproc s = None \<and> cpu_proc s = None \<and>
     length (ftable s) = NFILE \<and> (\<forall>f \<in> set (ftable s). f_ref f = 0)"

inductive kstep :: "policy \<Rightarrow> linked \<Rightarrow> 'a cons_st_scheme \<Rightarrow> 'a cons_st_scheme \<Rightarrow> bool" for pol lnk where
  first: "initproc s = None \<Longrightarrow> cpu_proc s = None \<Longrightarrow> userinit lnk s = Inr s' \<Longrightarrow> kstep pol lnk s s'"
| trapped: "on_cpu s \<Longrightarrow> trap pol lnk cpu input tf s = Inr (l, s') \<Longrightarrow> kstep pol lnk s s'"
| resumed: "on_cpu s \<Longrightarrow> trap_resume tf s = Inr (l, s') \<Longrightarrow> kstep pol lnk s s'"
| asleep: "on_cpu s \<Longrightarrow> sleep_enter ch lk s = Inr s' \<Longrightarrow> kstep pol lnk s s'"
| awake: "cpu_proc s = Some c \<Longrightarrow> kstep pol lnk s (sleep_leave c s)"
| pipe_wr: "pipewrite_run p n src s = Inr (w, s') \<Longrightarrow> kstep pol lnk s s'"
| pipe_rd: "piperead_run p n s = Inr (u, bs, s') \<Longrightarrow> kstep pol lnk s s'"
| cons_rd: "consoleread_loop n target s = Inr (v, bs, s') \<Longrightarrow> kstep pol lnk s s'"
| dispatched: "cpu_proc s = None \<Longrightarrow> p < length (procs s) \<Longrightarrow> p_state (proc_at s p) = RUNNABLE \<Longrightarrow>
    dispatch p s = Inr s' \<Longrightarrow> kstep pol lnk s s'"
| undispatched: "kstep pol lnk s (undispatch s)"
| requeued: "after_run k i p s = Inr s' \<Longrightarrow> kstep pol lnk s s'"
| aged: "ageing s = Inr s' \<Longrightarrow> kstep pol lnk s s'"
| other_cpu: "(\<And>c. r = Some c \<Longrightarrow> c < length (procs s) \<and> p_state (proc_at s c) = RUNNING) \<Longrightarrow>
    kstep pol lnk s (s\<lparr>cpu_proc := r, cpu_esp0 := a, cpu_cr3 := b\<rparr>)"

inductive kreach :: "policy \<Rightarrow> linked \<Rightarrow> 'a cons_st_scheme \<Rightarrow> bool" for pol lnk where
  boot: "fresh s \<Longrightarrow> kreach pol lnk s"
| step: "kreach pol lnk s \<Longrightarrow> kstep pol lnk s s' \<Longrightarrow> kreach pol lnk s'"

text \<open>The runs in which \<open>nextpid++\<close> stays within an \<open>int\<close>; a step increments it at most once.\<close>

inductive krun :: "policy \<Rightarrow> linked \<Rightarrow> 'a cons_st_scheme \<Rightarrow> bool" for pol lnk where
  boot: "fresh s \<Longrightarrow> krun pol lnk s"
| step: "krun pol lnk s \<Longrightarrow> kstep pol lnk s s' \<Longrightarrow> nextpid s' \<le> 2147483647 \<Longrightarrow> krun pol lnk s'"

lemma krun_kreach: "krun pol lnk s \<Longrightarrow> kreach pol lnk s"
  by (induction rule: krun.induct) (auto intro: kreach.intros)

lemma krun_nextpid: "krun pol lnk s \<Longrightarrow> nextpid s \<le> 2147483647"
  by (induction rule: krun.induct) (auto simp: fresh_def)

lemma fresh_kinv: "fresh s \<Longrightarrow> kinv no_debt s"
proof -
  assume f: "fresh s"
  have "held f (replicate NOFILE None) = 0" for f by (simp add: held_def sum_list_replicate)
  then have "refs s g = 0" for g using f by (simp add: refs_def fresh_def zero_proc_def sum_list_replicate)
  moreover have "ref_of s g = 0" for g using f by (auto simp: ref_of_def fresh_def)
  moreover have "proc_ok 1 zero_proc" by (auto simp: proc_ok_def shaped_def zero_proc_def)
  ultimately show ?thesis using f by (simp add: kinv_def fresh_def zero_proc_def)
qed

lemma kstep_kinv: "kstep pol lnk s s' \<Longrightarrow> kinv no_debt s \<Longrightarrow> kinv no_debt s'"
proof (induction rule: kstep.induct)
  case (asleep s ch lk s')
  then show ?case
    by (auto simp: sleep_enter_def on_cpu_def same_proc_def split: option.splits if_splits
        intro!: kinv_calm [OF calm_modp_at [OF _ calm_refl]])
next
  case (pipe_wr p n src s w s')
  then show ?case
    by (auto simp: pipewrite_run_def res_iff split: if_splits
        elim!: pipewrite_loop_calm [OF _ calm_refl, THEN kinv_calm] intro!: kinv_calm [OF calm_wakeup [OF calm_refl]])
next
  case (pipe_rd p n s u bs s')
  then show ?case
    by (auto simp: piperead_run_def Let_def res_iff split: if_splits prod.splits
        elim!: piperead_loop_calm [OF _ calm_refl, THEN kinv_calm] intro!: kinv_calm [OF calm_wakeup [OF calm_refl]])
next
  case (cons_rd n target s v bs s')
  then show ?case using consoleread_loop_calm [OF _ calm_refl] by (blast intro: kinv_calm)
next
  case (other_cpu r s a b)
  then have "c < NPROC \<and> p_state (proc_at s c) \<noteq> UNUSED" if "r = Some c" for c
    using kinvD(3) [of no_debt s] that by simp
  with other_cpu show ?case by (intro kinv_cpu)
qed (auto simp: trap_resume_def res_iff sleep_leave_def same_proc_def kinvD(3)
    elim: userinit_kinv trap_kinv exit_if_killed_kinv dispatch_kinv
      after_run_calm [OF _ calm_refl, THEN kinv_calm] ageing_calm [OF _ calm_refl, THEN kinv_calm]
    intro: undispatch_kinv intro!: kinv_tweak)

lemma kreach_kinv: "kreach pol lnk s \<Longrightarrow> kinv no_debt s"
  by (induction rule: kreach.induct) (auto intro: fresh_kinv kstep_kinv)

section \<open>What holds in every reachable state\<close>

definition fds_of :: "'a ptable_st_scheme \<Rightarrow> nat \<Rightarrow> (nat \<times> nat) set" where
  "fds_of s f = {(i, fd). i < length (procs s) \<and> fd < length (p_ofile (proc_at s i)) \<and> p_ofile (proc_at s i) ! fd = Some f}"

lemma held_card: "held f fds = int (card {k. k < length fds \<and> fds ! k = Some f})"
proof -
  have "held f fds = (\<Sum>k<length fds. of_bool (fds ! k = Some f))"
    by (simp add: held_def sum_list_sum_nth atLeast0LessThan)
  also have "\<dots> = int (card {k. k < length fds \<and> fds ! k = Some f})"
    by (simp add: of_bool_def sum.If_cases Collect_conj_eq lessThan_def)
  finally show ?thesis .
qed

lemma refs_card: "refs s f = int (card (fds_of s f))"
proof -
  have "fds_of s f = (SIGMA i : {..<length (procs s)}. {k. k < length (p_ofile (proc_at s i)) \<and> p_ofile (proc_at s i) ! k = Some f})"
    by (auto simp: fds_of_def)
  then have "int (card (fds_of s f)) = (\<Sum>i<length (procs s). held f (p_ofile (proc_at s i)))"
    by (simp add: held_card)
  then show ?thesis by (simp add: refs_def sum_list_sum_nth atLeast0LessThan)
qed

text \<open>
  (C2) Process identifiers are unique: as long as \<open>nextpid\<close>, which is an \<open>int\<close> and only counts up, has not overflowed,
  two processes in use have different identifiers, and all of them were given out by \<open>allocproc\<close>, which
  means they are positive and below \<open>nextpid\<close>. After \<open>INT_MAX\<close> processes the next increment is undefined in C, and
  the theorem says nothing of what follows.
\<close>

theorem kernel_pids_unique:
  assumes "krun pol lnk s"
  shows "inj_on (\<lambda>i. p_pid (proc_at s i)) {i. i < length (procs s) \<and> p_state (proc_at s i) \<noteq> UNUSED} \<and>
    nextpid s \<le> 2147483647 \<and>
    (\<forall>i < length (procs s). p_state (proc_at s i) \<noteq> UNUSED \<longrightarrow> 0 < p_pid (proc_at s i) \<and> p_pid (proc_at s i) < nextpid s)"
proof -
  note k = kreach_kinv [OF krun_kreach [OF assms]]
  have n: "length (procs s) = NPROC" by (rule kinvD(3) [OF k])
  have "0 < p_pid (proc_at s i) \<and> p_pid (proc_at s i) < nextpid s" if "i < NPROC" "p_state (proc_at s i) \<noteq> UNUSED" for i
    using kinvD(5) [OF k that(1)] that(2) by (simp add: proc_ok_def)
  then show ?thesis using kinvD(2) [OF k] n krun_nextpid [OF assms] by (auto intro!: inj_onI)
qed

text \<open>
  (C1) Reference counts of open files are exact: in every reachable state the count of each entry of the open-file
  table is the number of descriptors, over all processes, that stand for it, no descriptor stands for
  anything outside the table, and free slots and zombies have no descriptors.
\<close>

theorem kernel_file_refs:
  assumes "kreach pol lnk s"
  shows "(\<forall>f < NFILE. f_ref (file_at s f) = int (card (fds_of s f))) \<and>
    (\<forall>f. fds_of s f \<noteq> {} \<longrightarrow> f < NFILE) \<and>
    (\<forall>i < NPROC. p_state (proc_at s i) = UNUSED \<or> p_state (proc_at s i) = ZOMBIE \<longrightarrow>
       (\<forall>fd < NOFILE. p_ofile (proc_at s i) ! fd = None))"
proof -
  note k = kreach_kinv [OF assms]
  have r: "ref_of s f = int (card (fds_of s f))" for f using kinvD(1) [OF k] by (simp add: refs_card)
  have "f < NFILE" if "(i, fd) \<in> fds_of s f" for i fd f
    using that kinv_file [OF k] kinvD(3) [OF k] by (auto simp: fds_of_def dest: nth_mem)
  moreover have "p_ofile (proc_at s i) ! fd = None" if "i < NPROC" "p_state (proc_at s i) \<in> {UNUSED, ZOMBIE}" "fd < NOFILE" for i fd
    using kinvD(5) [OF k that(1)] that(2,3) by (auto simp: proc_ok_def shaped_def set_subset_nth)
  moreover have "f_ref (file_at s f) = int (card (fds_of s f))" if "f < NFILE" for f
    using r [of f] that kinvD(4) [OF k] by (simp add: ref_of_def)
  ultimately show ?thesis by auto
qed

text \<open>
  (C3) The scheduler never panics on a process it may run: in every reachable state a process that is
  runnable has a kernel stack and a page directory, so \<open>switchuvm\<close> accepts it.
\<close>

theorem kernel_dispatch_ok:
  assumes "kreach pol lnk s" "p < length (procs s)" "p_state (proc_at s p) = RUNNABLE"
  shows "\<exists>s'. dispatch p s = Inr s' \<and> cpu_proc s' = Some p \<and> p_state (proc_at s' p) = RUNNING"
  using kinvD(3,5) [OF kreach_kinv [OF assms(1)]] assms(2,3) by (simp add: dispatch_eq proc_ok_def)

text \<open>The machine of \<open>boot_files\<close> with an idle console, after \<open>userinit\<close>.\<close>

definition boot_state :: cons_st where
  "boot_state = file_st.extend boot_files
     (cons_st.fields 0 0 0 [] (\<lambda>_. 0) 0 (\<lambda>_. 0) 0 0 0 0)"

lemma booted:
  "\<exists>s :: cons_st. krun P_default boot_lnk s \<and> p_state (proc_at s 0) = RUNNABLE \<and> p_pid (proc_at s 0) = 1 \<and> initproc s = Some 0"
proof -
  have "\<exists>s'. userinit boot_lnk boot_state = Inr s' \<and> initproc s' = Some 0 \<and> (\<exists>p. proc_at s' 0 = p \<and>
    p_state p = RUNNABLE \<and> p_pid p = nextpid boot_state \<and> p_pgdir p \<noteq> 0 \<and> p_kstack p \<noteq> 0 \<and> p_sz p = PGSIZE \<and>
    tf_eip (p_tf p) = 0 \<and> tf_cs (p_tf p) AND 3 = DPL_USER \<and> p_cwd p \<noteq> None)"
    by (rule userinit_ok [of _ "\<lparr>q_slot = replicate 64 None, q_cnt = -1\<rparr>" _ "pages_from 0x80200000 97"])
      (use boot_memory [of boot_state] boot_data boot_inode in
        \<open>simp_all add: boot_state_def boot_files_def boot_lnk_def NPROC_def zero_proc_def numeral_eq_Suc file_st.defs\<close>)
  then obtain s' where s': "userinit boot_lnk boot_state = Inr s'" "p_state (proc_at s' 0) = RUNNABLE"
    "p_pid (proc_at s' 0) = nextpid boot_state" "initproc s' = Some 0" by blast
  have b: "nextpid boot_state = 1" "initproc boot_state = None" "cpu_proc boot_state = None" "fresh boot_state"
    by (simp_all add: boot_state_def boot_files_def file_st.defs fresh_def)
  have "nextpid s' \<le> 2" using userinit_nextpid [OF s'(1)] b(1) by simp
  then have "krun P_default boot_lnk s'"
    by (intro krun.step [OF krun.boot [OF b(4)] kstep.first [OF b(2,3) s'(1)]]) simp
  then show ?thesis using s'(2-4) b(1) by auto
qed

theorem kernel_pids_unique_witness:
  "\<exists>s :: cons_st. krun P_default boot_lnk s \<and> p_pid (proc_at s 0) = 1 \<and>
    inj_on (\<lambda>i. p_pid (proc_at s i)) {i. i < length (procs s) \<and> p_state (proc_at s i) \<noteq> UNUSED}"
  using booted kernel_pids_unique by blast

theorem kernel_file_refs_witness:
  "\<exists>s :: cons_st. kreach P_default boot_lnk s \<and> p_state (proc_at s 0) = RUNNABLE \<and>
    (\<forall>f < NFILE. f_ref (file_at s f) = int (card (fds_of s f)))"
  using booted krun_kreach kernel_file_refs by blast

theorem kernel_dispatch_ok_witness:
  "\<exists>s s' :: cons_st. kreach P_default boot_lnk s \<and> dispatch 0 s = Inr s' \<and> cpu_proc s' = Some 0"
proof -
  obtain s :: cons_st where s: "kreach P_default boot_lnk s" "p_state (proc_at s 0) = RUNNABLE" using booted krun_kreach by blast
  moreover have "0 < length (procs s)" using kinvD(3) [OF kreach_kinv [OF s(1)]] by (simp add: NPROC_def)
  ultimately show ?thesis using kernel_dispatch_ok [of P_default boot_lnk s 0] by blast
qed

end
