(* ===== verification/Process_Tree.thy ===== *)
theory Process_Tree
  imports Kernel_Steps
begin

text \<open>
  The processes form a tree under the first one. Between the steps of the kernel no process is half made, the
  first process is alive, and every other process in use has a parent that is alive, so that someone
  can wait for it when it exits. Identifiers grow from parent to child, which makes the parents a tree.
\<close>

section \<open>Steps that leave the tree alone\<close>

definition kin :: "proc \<Rightarrow> proc \<Rightarrow> bool" where
  "kin p q \<longleftrightarrow> p_pid q = p_pid p \<and> p_parent q = p_parent p \<and>
     (p_state q = UNUSED \<longleftrightarrow> p_state p = UNUSED) \<and> (p_state q = ZOMBIE \<longleftrightarrow> p_state p = ZOMBIE) \<and>
     (p_state q = EMBRYO \<longleftrightarrow> p_state p = EMBRYO)"

definition kept :: "'a ptable_st_scheme \<Rightarrow> 'a ptable_st_scheme \<Rightarrow> bool" where
  "kept s0 s \<longleftrightarrow> list_all2 kin (procs s0) (procs s) \<and> initproc s = initproc s0"

lemma kin_refl [simp]: "kin p p"
  by (simp add: kin_def)

lemma kin_trans: "kin p q \<Longrightarrow> kin q r \<Longrightarrow> kin p r"
  by (simp add: kin_def)

lemma kept_refl: "kept s s"
  by (simp add: kept_def list.rel_refl)

lemma kept_trans: "kept s0 s1 \<Longrightarrow> kept s1 s2 \<Longrightarrow> kept s0 s2"
  using list_all2_trans [of kin kin kin, OF kin_trans] by (auto simp: kept_def)

lemma kept_calm: "calm s s' \<Longrightarrow> kept s0 s \<Longrightarrow> kept s0 s'"
proof -
  assume "calm s s'"
  then have "list_all2 same_proc (procs s) (procs s')" "initproc s' = initproc s" by (simp_all add: calm_def)
  then have "kept s s'" unfolding kept_def
    by (auto elim!: list_all2_mono simp: same_proc_def kin_def)
  then show "kept s0 s \<Longrightarrow> kept s0 s'" by (rule kept_trans [rotated])
qed

lemma kept_modp_at: "kin (proc_at s i) (f (proc_at s i)) \<Longrightarrow> kept s0 s \<Longrightarrow> kept s0 (modp i f s)"
proof -
  assume "kin (proc_at s i) (f (proc_at s i))"
  then have "kin (procs s ! k) ((procs s)[i := f (procs s ! i)] ! k)" if "k < length (procs s)" for k
    using that by (cases "k = i") auto
  then have "kept s (modp i f s)" by (simp add: kept_def modp_def list_all2_conv_all_nth)
  then show "kept s0 s \<Longrightarrow> kept s0 (modp i f s)" by (rule kept_trans [rotated])
qed

lemma kept_upd [simp]:
  "kept s0 (modf f g s) = kept s0 s" "kept s0 (setpipe p h s) = kept s0 s"
  by (simp_all add: kept_def modf_def setpipe_def)

lemma kept_cpu [simp]:
  "kept s0 (s\<lparr>cpu_proc := r\<rparr>) = kept s0 s" "kept s0 (s\<lparr>cpu_esp0 := a\<rparr>) = kept s0 s" "kept s0 (s\<lparr>cpu_cr3 := b\<rparr>) = kept s0 s"
  by (simp_all add: kept_def)

lemma kept_ofile [simp]: "kept s0 (modp i (\<lambda>p. p\<lparr>p_ofile := h p\<rparr>) s) = kept s0 s"
proof
  have *: "kept t (modp i (\<lambda>p. p\<lparr>p_ofile := h p\<rparr>) t)" for t by (rule kept_modp_at [OF _ kept_refl]) (simp add: kin_def)
  have "kept (modp i (\<lambda>p. p\<lparr>p_ofile := h p\<rparr>) s) s"
    unfolding kept_def list_all2_conv_all_nth by (cases "i < length (procs s)") (auto simp: modp_def nth_list_update kin_def list_update_beyond)
  then show "kept s0 (modp i (\<lambda>p. p\<lparr>p_ofile := h p\<rparr>) s) \<Longrightarrow> kept s0 s" by (rule kept_trans [rotated])
  show "kept s0 s \<Longrightarrow> kept s0 (modp i (\<lambda>p. p\<lparr>p_ofile := h p\<rparr>) s)" by (rule kept_trans [OF _ *])
qed

lemmas fs_kept = fs_calm [OF _ calm_refl, THEN kept_calm]
lemmas vm_kept = vm_calm [OF _ calm_refl, THEN kept_calm]

lemma file_kept:
  "filealloc s = (r, s') \<Longrightarrow> kept s0 s \<Longrightarrow> kept s0 s'"
  "filedup f s = Inr (f', s') \<Longrightarrow> kept s0 s \<Longrightarrow> kept s0 s'"
  "fdalloc f s = Inr (fd, s') \<Longrightarrow> kept s0 s \<Longrightarrow> kept s0 s'"
  "clear_fd fd' s = Inr s' \<Longrightarrow> kept s0 s \<Longrightarrow> kept s0 s'"
  by (auto simp: filealloc_def filedup_def fdalloc_def clear_fd_def res_iff split: option.splits if_splits)

lemma fileclose_kept: "fileclose f s = Inr s' \<Longrightarrow> kept s0 s \<Longrightarrow> kept s0 s'"
  by (auto simp: fileclose_def Let_def res_iff split: if_splits fd_type.splits
      elim!: fs_kept pipeclose_calm [OF _ calm_refl, THEN kept_calm])

lemma close_opt_kept: "close_opt f s = Inr s' \<Longrightarrow> kept s0 s \<Longrightarrow> kept s0 s'"
  by (auto simp: close_opt_def split: option.splits elim: fileclose_kept)

lemma open_file_kept: "open_file ip m s = Inr (r, s') \<Longrightarrow> kept s0 s \<Longrightarrow> kept s0 s'"
  by (auto simp: open_file_def open_fail_def Let_def res_iff split: prod.splits option.splits if_splits
      elim!: file_kept close_opt_kept fs_kept fail_op_calm [OF _ calm_refl, THEN kept_calm])

lemma sys_file_kept:
  "sys_dup s = Inr (r, s') \<Longrightarrow> kept s0 s \<Longrightarrow> kept s0 s'"
  "sys_close s = Inr (r, s') \<Longrightarrow> kept s0 s \<Longrightarrow> kept s0 s'"
  "sys_open s = Inr (r, s') \<Longrightarrow> kept s0 s \<Longrightarrow> kept s0 s'"
  by (auto simp: sys_dup_def sys_close_def sys_open_def res_iff split: if_splits option.splits
      elim!: file_kept fileclose_kept fs_kept open_file_kept open_inode_calm [OF _ calm_refl, THEN kept_calm])

lemma pipealloc_kept: "pipealloc s = Inr (r, a, b, s') \<Longrightarrow> kept s0 s \<Longrightarrow> kept s0 s'"
  by (auto simp: pipealloc_def pipealloc_bad_def Let_def res_iff split: prod.splits option.splits if_splits
      elim!: file_kept close_opt_kept vm_kept)

lemma sys_pipe_kept: "sys_pipe s = Inr (r, s') \<Longrightarrow> kept s0 s \<Longrightarrow> kept s0 s'"
  by (auto simp: sys_pipe_def pipe_fds_def pipe_undo_def res_iff split: if_splits
      elim!: file_kept fileclose_kept pipealloc_kept vm_kept)

section \<open>The tree\<close>

definition living :: "'a ptable_st_scheme \<Rightarrow> nat \<Rightarrow> bool" where
  "living s i \<longleftrightarrow> i < length (procs s) \<and> p_state (proc_at s i) \<in> {SLEEPING, RUNNABLE, RUNNING}"

text \<open>\<open>i\<close> has a parent that is alive, and older.\<close>

definition has_parent :: "nat \<Rightarrow> nat \<Rightarrow> 'a ptable_st_scheme \<Rightarrow> bool" where
  "has_parent r i s \<longleftrightarrow> p_pid (proc_at s r) < p_pid (proc_at s i) \<and>
     (\<exists>q. p_parent (proc_at s i) = Some q \<and> q \<noteq> i \<and> living s q \<and> p_pid (proc_at s q) < p_pid (proc_at s i))"

text \<open>The tree without the slot \<open>x\<close>, and the whole tree, where \<open>x\<close> is no slot.\<close>

definition others :: "nat \<Rightarrow> 'a ptable_st_scheme \<Rightarrow> bool" where
  "others x s \<longleftrightarrow> (case initproc s of
     None \<Rightarrow> \<forall>j < length (procs s). j \<noteq> x \<longrightarrow> p_state (proc_at s j) = UNUSED
   | Some r \<Rightarrow> r \<noteq> x \<and> living s r \<and> (\<forall>j < length (procs s). j \<noteq> x \<longrightarrow> p_state (proc_at s j) \<noteq> EMBRYO \<and>
       (j \<noteq> r \<longrightarrow> p_state (proc_at s j) \<noteq> UNUSED \<longrightarrow> p_parent (proc_at s j) \<noteq> Some x \<and> has_parent r j s)))"

definition family :: "'a ptable_st_scheme \<Rightarrow> bool" where
  "family s \<longleftrightarrow> others (length (procs s)) s"

lemma living_kin: "kin (proc_at s i) (proc_at s' i) \<Longrightarrow> length (procs s') = length (procs s) \<Longrightarrow> living s' i = living s i"
  by (cases "p_state (proc_at s i)"; cases "p_state (proc_at s' i)") (auto simp: living_def kin_def)

lemma others_cong:
  assumes o: "others x s" and n: "length (procs s') = length (procs s)" and ini: "initproc s' = initproc s"
    and k: "\<And>j. j < length (procs s) \<Longrightarrow> j \<noteq> x \<Longrightarrow> kin (proc_at s j) (proc_at s' j)"
  shows "others x s'"
proof (cases "initproc s")
  case None
  with o n ini k show ?thesis by (auto simp: others_def kin_def)
next
  case (Some r)
  have l: "living s' j" if "living s j" "j \<noteq> x" for j
    using living_kin [OF k n] that by (auto simp: living_def)
  have r: "r \<noteq> x" "living s r" "r < length (procs s)" using o Some by (auto simp: others_def living_def)
  have "has_parent r j s'" if j: "has_parent r j s" "p_parent (proc_at s j) \<noteq> Some x" "j < length (procs s)" "j \<noteq> x" for j
  proof -
    obtain q where q: "p_parent (proc_at s j) = Some q" "q \<noteq> j" "living s q" "p_pid (proc_at s q) < p_pid (proc_at s j)" "q \<noteq> x"
      using j(1,2) by (auto simp: has_parent_def)
    then have "q < length (procs s)" by (simp add: living_def)
    with q j(1) l [of q] k [of q] k [OF j(3,4)] k [OF r(3,1)] show ?thesis by (auto simp: has_parent_def kin_def)
  qed
  with o n k r l show ?thesis unfolding others_def ini Some by (simp add: kin_def)
qed

lemma family_kept: "kept s s' \<Longrightarrow> family s \<Longrightarrow> family s'"
  unfolding family_def kept_def by (metis list_all2_conv_all_nth others_cong)

lemmas family_calm = kept_calm [OF _ kept_refl, THEN family_kept]

text \<open>A slot that is no parent can be taken out, and a free one or one with a parent put in.\<close>

lemma family_out:
  assumes "family s" "initproc s \<noteq> Some x"
    and "\<And>j. j < length (procs s) \<Longrightarrow> p_state (proc_at s j) \<noteq> UNUSED \<Longrightarrow> initproc s \<noteq> Some j \<Longrightarrow> p_parent (proc_at s j) \<noteq> Some x"
  shows "others x s"
  using assms by (auto simp: family_def others_def split: option.splits)

lemma family_dead_out:
  assumes "family s" "\<not> living s x"
  shows "others x s"
proof (rule family_out [OF assms(1)])
  show "initproc s \<noteq> Some x" using assms by (auto simp: family_def others_def)
  show "p_parent (proc_at s j) \<noteq> Some x" if "j < length (procs s)" "p_state (proc_at s j) \<noteq> UNUSED" "initproc s \<noteq> Some j" for j
    using assms that by (auto simp: family_def others_def has_parent_def split: option.splits)
qed

lemma family_unused_in:
  assumes "others x s" "x < length (procs s)" "p_state (proc_at s x) = UNUSED"
  shows "family s"
proof -
  have "p_parent (proc_at s j) \<noteq> Some (length (procs s))" if "has_parent r j s" for r j
    using that by (auto simp: has_parent_def living_def)
  with assms show ?thesis by (auto simp: family_def others_def living_def split: option.splits)
qed

lemma family_in:
  assumes "others x s" "x < length (procs s)" "initproc s = Some r" "p_state (proc_at s x) \<noteq> EMBRYO" "has_parent r x s"
  shows "family s"
proof -
  have "p_parent (proc_at s j) \<noteq> Some (length (procs s))" if "has_parent r j s" for j
    using that by (auto simp: has_parent_def living_def)
  with assms show ?thesis by (auto simp: family_def others_def living_def split: option.splits)
qed

lemma family_first:
  assumes "\<And>j. j < length (procs s) \<Longrightarrow> j \<noteq> i \<Longrightarrow> p_state (proc_at s j) = UNUSED" "initproc s = Some i" "living s i"
  shows "family s"
proof -
  have "p_state (proc_at s j) \<noteq> EMBRYO" if "j < length (procs s)" for j
    using assms(1) [OF that] assms(3) by (cases "j = i") (auto simp: living_def)
  then show ?thesis using assms by (auto simp: family_def others_def living_def)
qed

lemma familyD:
  assumes "family s" "i < length (procs s)" "p_state (proc_at s i) \<noteq> UNUSED"
  shows "\<exists>r. initproc s = Some r \<and> living s r \<and> p_state (proc_at s i) \<noteq> EMBRYO \<and> (i \<noteq> r \<longrightarrow> has_parent r i s)"
  using assms by (auto simp: family_def others_def split: option.splits)

section \<open>Creating and reaping\<close>

lemma reap_family:
  fixes s :: "'a file_st_scheme"
  assumes "reap u i s = Inr (r, s')" "family s" "i < length (procs s)" "p_state (proc_at s i) = ZOMBIE"
  shows "family s'"
proof -
  from assms(1) obtain s1 s2 s3 where s: "kfree (p_kstack (proc_at s i)) s = Inr s1"
    "freevm (p_pgdir (proc_at (modp i (\<lambda>p. p\<lparr>p_kstack := 0\<rparr>) s1) i)) (modp i (\<lambda>p. p\<lparr>p_kstack := 0\<rparr>) s1) = Inr s2"
    "(if u then rem_process (p_pid (proc_at s2 i)) (p_current_queue (proc_at s2 i)) s2 else Inr s2) = Inr s3"
    "s' = modp i (\<lambda>p. p\<lparr>p_pid := 0, p_parent := None, p_name := [], p_killed := 0, p_state := UNUSED\<rparr>) s3"
    unfolding reap_def Let_def by (auto simp: bnd_Inr_iff)
  have "kept s s1" by (rule vm_kept(1) [OF s(1) kept_refl])
  then have "kept s (modp i (\<lambda>p. p\<lparr>p_kstack := 0\<rparr>) s1)" by (intro kept_modp_at) (simp_all add: kin_def)
  then have "kept s s2" by (rule vm_kept(7) [OF s(2)])
  then have k: "kept s s3" using s(3) by (auto split: if_splits elim: rem_process_calm [OF _ calm_refl, THEN kept_calm])
  then have "family s3" "length (procs s3) = length (procs s)" "p_state (proc_at s3 i) = ZOMBIE"
    using family_kept [OF k assms(2)] assms(3,4) by (auto simp: kept_def list_all2_conv_all_nth kin_def)
  then have "others i s'" unfolding s(4)
    by (intro others_cong [OF family_dead_out [of s3 i]]) (auto simp: living_def)
  then show ?thesis by (rule family_unused_in)
    (use assms(3) \<open>length (procs s3) = length (procs s)\<close> in \<open>simp_all add: s(4)\<close>)
qed

lemma wait_family:
  fixes s :: "'a file_st_scheme"
  assumes "wait u s = Inr (r, s')" "family s"
  shows "family s'"
proof -
  from assms(1) obtain c where c: "cpu_proc s = Some c" by (auto simp: wait_def res_iff)
  show ?thesis
  proof (cases "first_idx (\<lambda>p. is_child c p \<and> p_state p = ZOMBIE) (procs s)")
    case None
    with assms c show ?thesis by (auto simp: wait_def split: if_splits)
  next
    case (Some i)
    with assms(1) c have "reap u i s = Inr (r, s')" by (simp add: wait_def)
    from reap_family [OF this assms(2)] first_idx_SomeD [OF Some] show ?thesis by simp
  qed
qed

lemma waitx_family:
  fixes s :: "'a file_st_scheme"
  assumes w: "waitx wt rt s = Inr (r, s')" and f: "family s"
  shows "family s'"
proof -
  from w obtain c where c: "cpu_proc s = Some c" by (auto simp: waitx_def res_iff)
  show ?thesis
  proof (cases "first_idx (\<lambda>p. is_child c p \<and> p_state p = ZOMBIE) (procs s)")
    case None
    with w c f show ?thesis by (auto simp: waitx_def split: if_splits)
  next
    case (Some i)
    from w Some c obtain x y s1 s2 where s: "ustore32 wt x s = Inr s1" "ustore32 rt y s1 = Inr s2" "reap False i s2 = Inr (r, s')"
      by (auto simp: waitx_def Let_def res_iff)
    note v = ustore32_vmf [OF s(2) ustore32_vmf [OF s(1) vmf_refl]]
    have "family s2" by (rule family_calm [OF calm_vm [OF v calm_refl] f])
    from reap_family [OF s(3) this] first_idx_SomeD [OF Some] vmf_sel [OF v] show ?thesis by simp
  qed
qed

lemma allocproc_family:
  assumes "allocproc lnk s = Inr (r, s')" "family s"
  shows "case r of None \<Rightarrow> family s' | Some i \<Rightarrow> others i s' \<and> i < length (procs s) \<and> p_state (proc_at s i) = UNUSED \<and>
    p_pid (proc_at s' i) = nextpid s \<and> (\<forall>j. j \<noteq> i \<longrightarrow> proc_at s' j = proc_at s j)"
proof (cases "s' = s \<and> r = None")
  case False
  with allocproc_new [OF assms(1)] obtain i where i: "i < length (procs s)" "p_state (proc_at s i) = UNUSED"
    "\<And>j. j \<noteq> i \<Longrightarrow> proc_at s' j = proc_at s j" "p_pid (proc_at s' i) = nextpid s"
    "r = Some i \<or> r = None \<and> p_state (proc_at s' i) = UNUSED"
    and n: "initproc s' = initproc s" "length (procs s') = length (procs s)" by auto
  have "others i s'" by (rule others_cong [OF family_dead_out [OF assms(2), of i]]) (use i n in \<open>auto simp: living_def\<close>)
  with i n family_unused_in [of i s'] show ?thesis by auto
qed (use assms(2) in simp)

lemma dup_fd_kept: "dup_fd c i fd s = Inr s' \<Longrightarrow> kept s0 s \<Longrightarrow> kept s0 s'"
  by (auto simp: dup_fd_def res_iff split: option.splits elim!: file_kept)

lemma close_fd_kept: "close_fd c fd s = Inr s' \<Longrightarrow> kept s0 s \<Longrightarrow> kept s0 s'"
  by (auto simp: close_fd_def res_iff split: option.splits elim!: fileclose_kept)

lemma keptD:
  assumes "kept s s'"
  shows "length (procs s') = length (procs s)" "initproc s' = initproc s"
    "i < length (procs s) \<Longrightarrow> kin (proc_at s i) (proc_at s' i)"
  using assms by (auto simp: kept_def list_all2_conv_all_nth)

lemma fork_child_family:
  assumes "fork_child c i s = Inr (r, s')" "others i s" "i < length (procs s)" "c \<noteq> i" "living s c"
    and "initproc s = Some f" "p_pid (proc_at s c) < p_pid (proc_at s i)" "p_pid (proc_at s f) < p_pid (proc_at s i)"
  shows "family s'"
proof -
  let ?c = "proc_at s c"
  let ?s1 = "modp i (\<lambda>p. p\<lparr>p_sz := p_sz ?c, p_parent := Some c, p_tf := (p_tf ?c)\<lparr>tf_eax := 0\<rparr>\<rparr>) s"
  from assms(1) obtain s2 cwd where s2: "foreach (dup_fd c i) 0 NOFILE ?s1 = Inr s2"
    and s': "s' = modp i (\<lambda>p. p\<lparr>p_cwd := Some cwd, p_name := p_name (proc_at (idup cwd s2) c),
         p_state := RUNNABLE, p_start := int_of_uint (ticks (idup cwd s2))\<rparr>) (idup cwd s2)"
    by (auto simp: fork_child_def Let_def res_iff)
  have "kept ?s1 s2"
    by (rule foreach_keeps [OF s2, of "\<lambda>k. kept ?s1"]) (auto simp: kept_refl intro: dup_fd_kept)
  then have k: "kept ?s1 (idup cwd s2)"
    using kept_calm [of s2 "idup cwd s2" ?s1] by (simp add: calm_refl idup_def modi_def)
  have f: "f \<noteq> i" "f < length (procs s)" using assms(2,6) by (auto simp: others_def living_def)
  have n: "length (procs s') = length (procs s)" "initproc s' = Some f"
    using keptD(1,2) [OF k] assms(6) by (simp_all add: s')
  have j: "kin (proc_at s j) (proc_at s' j)" if "j < length (procs s)" "j \<noteq> i" for j
    using keptD(3) [OF k, of j] that by (simp add: s')
  have i: "p_pid (proc_at s' i) = p_pid (proc_at s i)" "p_parent (proc_at s' i) = Some c" "p_state (proc_at s' i) = RUNNABLE"
    using keptD(1) [OF k] keptD(3) [OF k, of i] assms(3) by (simp_all add: s' kin_def)
  have c: "c < length (procs s)" using assms(5) by (simp add: living_def)
  have "living s' c" using living_kin [OF j [OF c assms(4)] n(1)] assms(5) by simp
  then have "has_parent f i s'"
    using i assms(4,7,8) j [OF f(2,1)] j [OF c assms(4)] by (auto simp: has_parent_def kin_def)
  moreover have "others i s'" by (rule others_cong [OF assms(2) n(1)]) (use n assms(6) j in auto)
  ultimately show ?thesis using i(3) n assms(3) by (intro family_in [of i s' f]) auto
qed

lemma fork_family:
  assumes "fork lnk s = Inr (r, s')" "alive no_debt c s" "family s"
  shows "family s'"
proof -
  have c: "cpu_proc s = Some c" "kinv no_debt s" "p_state (proc_at s c) \<noteq> ZOMBIE"
    using assms(2) by (auto simp: alive_def current_def)
  have cn: "c < length (procs s)" "p_state (proc_at s c) \<noteq> UNUSED" using kinvD(3,6,7) [OF c(2)] c(1) by auto
  obtain f where f: "initproc s = Some f" "living s f" "p_state (proc_at s c) \<noteq> EMBRYO" using familyD [OF assms(3) cn] by blast
  have lc: "living s c" using cn f(3) c(3) by (cases "p_state (proc_at s c)") (auto simp: living_def)
  have pid: "p_pid (proc_at s j) < nextpid s" if "living s j" for j
    using kinvD(3,5) [OF c(2)] that by (auto simp: living_def proc_ok_def)
  from assms(1) obtain np s1 where s1: "allocproc lnk s = Inr (np, s1)" by (auto simp: fork_def c res_iff)
  note a = allocproc_family [OF s1 assms(3)]
  show ?thesis
  proof (cases np)
    case None
    with assms(1) s1 a show ?thesis by (simp add: fork_def c)
  next
    case (Some i)
    with a have i: "others i s1" "i < length (procs s)" "p_state (proc_at s i) = UNUSED" "p_pid (proc_at s1 i) = nextpid s"
      "\<And>j. j \<noteq> i \<Longrightarrow> proc_at s1 j = proc_at s j" by auto
    have ne: "c \<noteq> i" "f \<noteq> i" using lc f(2) i(3) by (auto simp: living_def)
    from assms(1) s1 Some obtain pgdir s2 where s2: "copyuvm (p_pgdir (proc_at s1 c)) (p_sz (proc_at s1 c)) s1 = Inr (pgdir, s2)"
      and r: "(let s = modp i (\<lambda>p. p\<lparr>p_pgdir := pgdir\<rparr>) s2 in
        if pgdir = 0 then bnd (kfree (p_kstack (proc_at s i)) s) (\<lambda>s.
              Inr (-1, modp i (\<lambda>p. p\<lparr>p_kstack := 0, p_state := UNUSED\<rparr>) s))
        else fork_child c i s) = Inr (r, s')"
      by (auto simp: fork_def c bnd_Inr_iff)
    let ?s3 = "modp i (\<lambda>p. p\<lparr>p_pgdir := pgdir\<rparr>) s2"
    have "kept s1 s2" by (rule vm_kept(9) [OF s2 kept_refl])
    then have k: "kept s1 ?s3" by (intro kept_modp_at) (simp_all add: kin_def)
    have n: "length (procs s1) = length (procs s)" "initproc s1 = Some f" using allocproc_new [OF s1] f(1) by auto
    have o3: "others i ?s3" by (rule others_cong [OF i(1) keptD(1,2) [OF k]]) (rule keptD(3) [OF k])
    show ?thesis
    proof (cases "pgdir = 0")
      case True
      with r obtain s4 where s4: "kfree (p_kstack (proc_at ?s3 i)) ?s3 = Inr s4"
        "s' = modp i (\<lambda>p. p\<lparr>p_kstack := 0, p_state := UNUSED\<rparr>) s4" by (auto simp: Let_def res_iff)
      have p: "procs s4 = procs ?s3" "initproc s4 = initproc ?s3" using vmf_sel [OF kfree_vmf [OF s4(1) vmf_refl]] by auto
      have "others i s'" by (rule others_cong [OF o3]) (auto simp: s4(2) p)
      then show ?thesis by (rule family_unused_in) (use i(2) n(1) keptD(1) [OF k] in \<open>simp_all add: s4(2) p\<close>)
    next
      case False
      with r have fc: "fork_child c i ?s3 = Inr (r, s')" by (simp add: Let_def)
      have j: "kin (proc_at s j) (proc_at ?s3 j)" "living ?s3 j = living s j" if "j < length (procs s)" "j \<noteq> i" for j
        using keptD(3) [OF k, of j] that i(5) [OF that(2)] n(1) keptD(1) [OF k] living_kin [of s j ?s3] by auto
      have "p_pid (proc_at ?s3 i) = nextpid s" using keptD(3) [OF k, of i] n(1) i(2,4) by (simp add: kin_def)
      then show ?thesis
        using fork_child_family [OF fc o3 _ ne(1), of f] j [OF cn(1) ne(1)] j [OF _ ne(2)] f(2) lc pid [OF lc] pid [OF f(2)]
          i(2) n keptD [OF k] by (auto simp: kin_def living_def)
    qed
  qed
qed

section \<open>exit\<close>

lemma pass_child_kin:
  assumes "k < length (procs s)"
  shows "length (procs (pass_child c k s)) = length (procs s)" "initproc (pass_child c k s) = initproc s"
    "j < length (procs s) \<Longrightarrow> kin ((proc_at s j)\<lparr>p_parent := if j = k \<and> p_parent (proc_at s k) = Some c then initproc s
        else p_parent (proc_at s j)\<rparr>) (proc_at (pass_child c k s) j)"
proof -
  let ?s = "modp k (\<lambda>p. p\<lparr>p_parent := initproc s\<rparr>) s"
  have w: "kept t (wakeup1 ch t)" for ch and t :: "'a ptable_st_scheme"
    by (auto simp: kept_def wakeup1_def list_all2_conv_all_nth wake_proc_def kin_def split: option.splits)
  then have k: "kept ?s (pass_child c k s)" if "p_parent (proc_at s k) = Some c"
    using that kept_refl [of ?s] w [of ?s] by (auto simp: pass_child_def Let_def)
  have "length (procs (pass_child c k s)) = length (procs s) \<and> initproc (pass_child c k s) = initproc s \<and>
    (j < length (procs s) \<longrightarrow> kin ((proc_at s j)\<lparr>p_parent := if j = k \<and> p_parent (proc_at s k) = Some c then initproc s
        else p_parent (proc_at s j)\<rparr>) (proc_at (pass_child c k s) j))" for j
  proof (cases "p_parent (proc_at s k) = Some c")
    case True
    note d = keptD(1,2) [OF k [OF True]] keptD(3) [OF k [OF True], of j]
    from d True assms show ?thesis by (cases "j = k") simp_all
  next
    case False
    then have "pass_child c k s = s" by (simp add: pass_child_def)
    with False show ?thesis by (simp add: kin_def)
  qed
  then show "length (procs (pass_child c k s)) = length (procs s)" "initproc (pass_child c k s) = initproc s"
    "j < length (procs s) \<Longrightarrow> kin ((proc_at s j)\<lparr>p_parent := if j = k \<and> p_parent (proc_at s k) = Some c then initproc s
        else p_parent (proc_at s j)\<rparr>) (proc_at (pass_child c k s) j)" by blast+
qed

lemma pass_child_family:
  assumes "family s" "initproc s = Some r" "r \<noteq> c" "k < length (procs s)"
  shows "family (pass_child c k s)"
proof -
  let ?t = "pass_child c k s"
  note p = pass_child_kin [OF assms(4), where c = c]
  have r: "living s r" "r < length (procs s)" using assms(1,2) by (auto simp: family_def others_def living_def)
  have st: "p_pid (proc_at ?t j) = p_pid (proc_at s j)" "living ?t j = living s j"
    "p_state (proc_at ?t j) = UNUSED \<longleftrightarrow> p_state (proc_at s j) = UNUSED" "p_state (proc_at ?t j) = EMBRYO \<longleftrightarrow> p_state (proc_at s j) = EMBRYO"
    "p_parent (proc_at ?t j) = (if j = k \<and> p_parent (proc_at s k) = Some c then initproc s else p_parent (proc_at s j))"
    if "j < length (procs s)" for j
    using p(3) [OF that] that p(1) by (cases "p_state (proc_at s j)"; cases "p_state (proc_at ?t j)"; auto simp: kin_def living_def)+
  have "has_parent r j ?t" if j: "has_parent r j s" "j < length (procs s)" "j \<noteq> r" for j
  proof -
    obtain q where q: "p_parent (proc_at s j) = Some q" "q \<noteq> j" "living s q" "p_pid (proc_at s q) < p_pid (proc_at s j)"
      "q < length (procs s)" "p_pid (proc_at s r) < p_pid (proc_at s j)"
      using j(1) by (auto simp: has_parent_def living_def)
    show ?thesis using q j(3) r st [OF j(2)] st [OF q(5)] st [OF r(2)] assms(2) by (auto simp: has_parent_def)
  qed
  moreover have "p_parent (proc_at ?t j) \<noteq> Some (length (procs s))" if "has_parent r j ?t" for j
    using that p(1) by (auto simp: has_parent_def living_def)
  ultimately show ?thesis using assms(1,2) r st p(1,2) by (auto simp: family_def others_def living_def)
qed

lemma pass_children_family:
  assumes "family s" "initproc s = Some r" "r \<noteq> c"
  shows "let t = pass_children c s in family t \<and> length (procs t) = length (procs s) \<and> initproc t = initproc s \<and>
    (\<forall>j < length (procs s). p_parent (proc_at t j) \<noteq> Some c \<and>
       (p_state (proc_at t j) = UNUSED \<longleftrightarrow> p_state (proc_at s j) = UNUSED))"
proof -
  have "let t = fold (pass_child c) ks s in family t \<and> length (procs t) = length (procs s) \<and> initproc t = initproc s \<and>
    (\<forall>j < length (procs s). (j \<in> set ks \<or> p_parent (proc_at s j) \<noteq> Some c \<longrightarrow> p_parent (proc_at t j) \<noteq> Some c) \<and>
       (p_state (proc_at t j) = UNUSED \<longleftrightarrow> p_state (proc_at s j) = UNUSED))"
    if "\<forall>k \<in> set ks. k < length (procs s)" for ks
    using assms(1,2) that
  proof (induction ks arbitrary: s)
    case (Cons k ks)
    let ?s = "pass_child c k s"
    have k: "k < length (procs s)" using Cons.prems by simp
    note p = pass_child_kin [OF k, where c = c]
    have "p_parent (proc_at ?s j) = (if j = k \<and> p_parent (proc_at s k) = Some c then Some r else p_parent (proc_at s j))"
      "p_state (proc_at ?s j) = UNUSED \<longleftrightarrow> p_state (proc_at s j) = UNUSED" if "j < length (procs s)" for j
      using p(3) [OF that] Cons.prems(2) by (auto simp: kin_def)
    then show ?case
      using Cons.IH [of ?s] pass_child_family [OF Cons.prems(1,2) assms(3) k] p(1,2) Cons.prems(2,3) assms(3)
      by (auto simp: Let_def)
  qed simp
  from this [of "[0..<length (procs s)]"] show ?thesis by (auto simp: pass_children_def Let_def)
qed

lemma exit_family:
  assumes "exit s = Inr s'" "kinv no_debt s" "family s"
  shows "family s'"
proof -
  from assms(1) obtain c where c: "cpu_proc s = Some c" by (auto simp: exit_def res_iff)
  have cn: "c < length (procs s)" "p_state (proc_at s c) \<noteq> UNUSED" using kinvD(3,6,7) [OF assms(2)] c by auto
  obtain r where r: "initproc s = Some r" using familyD [OF assms(3) cn] by blast
  from assms(1) have rc: "r \<noteq> c" using r by (auto simp: exit_def c)
  from assms(1) obtain s1 s2 cwd s3 s4 where s: "foreach (close_fd c) 0 NOFILE s = Inr s1" "begin_op s1 = Inr s2"
    "iput cwd s2 = Inr s3" "end_op s3 = Inr s4"
    and s': "s' = (let s = modp c (\<lambda>p. p\<lparr>p_cwd := None\<rparr>) s4;
           s = wakeup1 (map_option ChProc (p_parent (proc_at s c))) s;
           s = pass_children c s
       in modp c (\<lambda>p. p\<lparr>p_state := ZOMBIE, p_etime := int_of_uint (ticks s)\<rparr>) s)"
    unfolding exit_def c by (simp only: deref_simps bnd_simps bnd_Inr_iff Let_def sum.inject split: if_splits) blast+
  have "kept s s1" by (rule foreach_keeps [OF s(1), of "\<lambda>k. kept s"]) (auto simp: kept_refl intro: close_fd_kept)
  with s(2-4) have "kept s s4" by (auto elim!: fs_kept)
  then have "kept s (modp c (\<lambda>p. p\<lparr>p_cwd := None\<rparr>) s4)" by (intro kept_modp_at) (simp_all add: kin_def)
  then have "kept s (wakeup1 ch (modp c (\<lambda>p. p\<lparr>p_cwd := None\<rparr>) s4))" for ch
    by (rule kept_calm [OF calm_wakeup1 [OF calm_refl]])
  then obtain s5 where k: "kept s s5" and s6: "s' = modp c (\<lambda>p. p\<lparr>p_state := ZOMBIE, p_etime := int_of_uint (ticks (pass_children c s5))\<rparr>) (pass_children c s5)"
    unfolding s' Let_def by blast
  let ?t = "pass_children c s5"
  have t: "family ?t" "length (procs ?t) = length (procs s)" "initproc ?t = Some r" "\<And>j. j < length (procs s) \<Longrightarrow> p_parent (proc_at ?t j) \<noteq> Some c"
    "p_state (proc_at ?t c) \<noteq> UNUSED"
    using pass_children_family [OF family_kept [OF k assms(3)], of r c] keptD [OF k] r rc cn by (auto simp: Let_def kin_def)
  have "others c ?t" by (rule family_out [OF t(1)]) (use t rc in auto)
  then have o: "others c s'" by (rule others_cong) (auto simp: s6)
  have "has_parent r c ?t" using familyD [OF t(1) _ t(5)] t(2,3) cn(1) rc by auto
  moreover have "living s' q = living ?t q" if "q \<noteq> c" for q using that by (simp add: living_def s6)
  ultimately have "has_parent r c s'" using rc cn(1) t(2) by (auto simp: has_parent_def s6)
  then show ?thesis using o cn(1) t(2,3) by (intro family_in [of c s' r]) (simp_all add: s6)
qed

section \<open>Every step keeps the tree\<close>

lemma userinit_family:
  assumes "userinit lnk s = Inr s'" "family s" "initproc s = None"
  shows "family s'"
proof -
  from assms(1) obtain r s1 pgdir s2 i s4 s5 cwd where s1: "allocproc lnk s = Inr (r, s1)" "setupkvm (s1\<lparr>initproc := r\<rparr>) = Inr (pgdir, s2)"
    "r = Some i"
    and s4: "inituvm pgdir (initcode lnk) (modp i (\<lambda>x. x\<lparr>p_pgdir := pgdir\<rparr>) s2) = Inr s4"
    "namei [SLASH] (modp i (\<lambda>x. x\<lparr>p_sz := PGSIZE, p_tf := init_tf, p_name := ''initcode''\<rparr>) s4) = Inr (cwd, s5)"
    "s' = modp i (\<lambda>x. x\<lparr>p_cwd := cwd, p_state := RUNNABLE, p_start := int_of_uint (ticks s5)\<rparr>) s5"
    unfolding userinit_def Let_def by (auto simp: bnd_Inr_iff deref_Inr_iff split: if_splits)
  let ?s1 = "s1\<lparr>initproc := r\<rparr>"
  have "kept ?s1 s2" by (rule vm_kept(3) [OF s1(2) kept_refl])
  then have "kept ?s1 (modp i (\<lambda>x. x\<lparr>p_pgdir := pgdir\<rparr>) s2)" by (intro kept_modp_at) (simp_all add: kin_def)
  then have "kept ?s1 s4" by (rule vm_kept(4) [OF s4(1)])
  then have "kept ?s1 (modp i (\<lambda>x. x\<lparr>p_sz := PGSIZE, p_tf := init_tf, p_name := ''initcode''\<rparr>) s4)"
    by (intro kept_modp_at) (simp_all add: kin_def)
  then have k: "kept ?s1 s5" by (rule fs_kept(10) [OF s4(2)])
  have i: "i < length (procs s)" "\<And>j. j \<noteq> i \<Longrightarrow> proc_at s1 j = proc_at s j" "length (procs s1) = length (procs s)"
    using allocproc_family [OF s1(1) assms(2)] allocproc_new [OF s1(1)] s1(3) by auto
  have un: "p_state (proc_at s j) = UNUSED" if "j < length (procs s)" for j
    using assms(2,3) that by (simp add: family_def others_def)
  show ?thesis unfolding s4(3)
  proof (rule family_first [of _ i])
    fix j assume j: "j < length (procs (modp i (\<lambda>x. x\<lparr>p_cwd := cwd, p_state := RUNNABLE, p_start := int_of_uint (ticks s5)\<rparr>) s5))" "j \<noteq> i"
    then have "j < length (procs s)" using keptD(1) [OF k] i(3) by simp
    with un [OF this] keptD(3) [OF k, of j] j(2) i(2,3)
    show "p_state (proc_at (modp i (\<lambda>x. x\<lparr>p_cwd := cwd, p_state := RUNNABLE, p_start := int_of_uint (ticks s5)\<rparr>) s5) j) = UNUSED"
      by (simp add: kin_def)
  qed (use keptD(1,2) [OF k] i s1(3) in \<open>simp_all add: living_def\<close>)
qed

definition good :: "'a file_st_scheme \<Rightarrow> bool" where
  "good s \<longleftrightarrow> kinv no_debt s \<and> family s"

lemma good_calm: "calm s s' \<Longrightarrow> good s \<Longrightarrow> good s'"
  using kinv_calm family_calm unfolding good_def by blast

lemma exit_good: "exit s = Inr s' \<Longrightarrow> good s \<Longrightarrow> good s'"
  using exit_kinv exit_family unfolding good_def by blast

lemma exit_if_killed_good: "exit_if_killed tf s = Inr (b, s') \<Longrightarrow> good s \<Longrightarrow> good s'"
  by (auto simp: exit_if_killed_def res_iff split: option.splits if_splits elim!: exit_good)

lemma syscalls_family:
  assumes "syscalls pol lnk num = Some f" "f s = Inr (r, s')" "alive no_debt c s" "family s"
  shows "family s'"
proof -
  note k = alive_kinv [OF assms(3)]
  note calm = sys_calm [OF _ calm_refl, THEN family_calm, OF _ assms(4)]
    sys_rw_calm [OF _ calm_refl cons_devsw_calm, THEN family_calm, OF _ assms(4)]
  show ?thesis
    using assms(1,2)
    by (auto simp: syscalls.simps sys_fork_def sys_exit_def sys_wait_def sys_waitx_def res_iff assms(4) split: if_splits
        elim!: calm sys_file_kept [OF _ kept_refl, THEN family_kept, OF _ assms(4)]
          sys_pipe_kept [OF _ kept_refl, THEN family_kept, OF _ assms(4)]
          fork_family [OF _ assms(3,4)] exit_family [OF _ k assms(4)]
          wait_family [OF _ assms(4)] waitx_family [OF _ assms(4)])
qed

lemma syscall_good:
  assumes "syscall pol lnk s = Inr (l, s')" "alive no_debt c s" "family s"
  shows "good s'"
proof -
  have "good s1" if "syscalls pol lnk n = Some f" "f s = Inr (r, s1)" for n f r s1
    using syscalls_kinv [OF that assms(2)] syscalls_family [OF that assms(2,3)] by (simp add: good_def)
  moreover have "good s" using alive_kinv [OF assms(2)] assms(3) by (simp add: good_def)
  ultimately show ?thesis using assms(1)
    by (auto simp: syscall_def Let_def res_iff split: option.splits if_splits
        intro!: good_calm [OF set_eax_calm [OF calm_refl]])
qed

lemma trap_syscall_good:
  assumes "trap_syscall pol lnk tf s = Inr (l, s')" "good s" "on_cpu s"
  shows "good s'"
proof -
  have k: "kinv no_debt s" "family s" using assms(2) by (simp_all add: good_def)
  have c: "calm s (modp c (\<lambda>p. p\<lparr>p_tf := tf\<rparr>) s)" for c by (rule calm_modp [OF _ calm_refl]) (simp add: same_proc_def)
  have "good s1" if "cpu_proc s = Some c" "syscall pol lnk (modp c (\<lambda>p. p\<lparr>p_tf := tf\<rparr>) s) = Inr (l, s1)" for c l s1
    by (rule syscall_good [OF that(2) alive_calm [OF c on_cpu_alive [OF k(1) assms(3) that(1)]] family_calm [OF c k(2)]])
  then show ?thesis
    using assms(1,2) by (auto simp: trap_syscall_def res_iff split: if_splits elim!: exit_good)
qed

lemma yield_good: "yield_enter s = Inr s' \<Longrightarrow> good s \<Longrightarrow> cpu_proc s = Some c \<Longrightarrow> p_state (proc_at s c) = RUNNING \<Longrightarrow> good s'"
  by (auto simp: yield_enter_def res_iff same_proc_def intro!: good_calm [OF calm_modp_at [OF _ calm_refl]])

lemma trap_good:
  assumes "trap pol lnk cpu input tf s = Inr (l, s')" "good s" "on_cpu s"
  shows "good s'"
proof (cases "unat (tf_trapno tf) = T_SYSCALL")
  case True
  with assms show ?thesis by (auto simp: trap_def elim: trap_syscall_good)
next
  case False
  from assms(1) False obtain s1 where s1: "trap_switch cpu input tf s = Inr s1" by (auto simp: trap_def res_iff)
  have k1: "good s1" by (rule good_calm [OF trap_switch_calm [OF s1 calm_refl] assms(2)])
  from assms(1) False s1 k1 show ?thesis
    by (auto simp: trap_def res_iff split: if_splits option.splits elim!: yield_good exit_if_killed_good)
qed

lemma dispatch_kept:
  assumes "dispatch p s = Inr s'" "p_state (proc_at s p) = RUNNABLE"
  shows "kept s s'"
proof -
  from assms(1) obtain a b where s': "s' = modp p (\<lambda>pr. pr\<lparr>p_state := RUNNING, p_num_run := p_num_run pr + 1\<rparr>)
      (s\<lparr>cpu_proc := Some p, cpu_esp0 := a, cpu_cr3 := b\<rparr>)"
    by (auto simp: dispatch_def switchuvm_def res_iff split: if_splits)
  show ?thesis unfolding s' by (rule kept_modp_at) (use assms(2) in \<open>auto simp: kin_def kept_refl\<close>)
qed

lemma kstep_family: "kstep pol lnk s s' \<Longrightarrow> good s \<Longrightarrow> family s'"
proof (induction rule: kstep.induct)
  case (first s s')
  then show ?case by (auto simp: good_def intro: userinit_family)
next
  case (trapped s cpu input tf l s')
  then show ?case using trap_good good_def by blast
next
  case (resumed s tf l s')
  then show ?case by (auto simp: trap_resume_def res_iff dest!: exit_if_killed_good) (simp add: good_def)
next
  case (asleep s ch lk s')
  then show ?case
    by (auto simp: sleep_enter_def on_cpu_def same_proc_def good_def split: option.splits if_splits
        intro!: family_calm [OF calm_modp_at [OF _ calm_refl]])
next
  case (awake s c)
  then show ?case by (auto simp: sleep_leave_def same_proc_def good_def intro!: family_calm [OF calm_modp [OF _ calm_refl]])
next
  case (pipe_wr p n src s w s')
  then show ?case
    by (auto simp: pipewrite_run_def res_iff good_def split: if_splits
        elim!: pipewrite_loop_calm [OF _ calm_refl, THEN family_calm] intro!: family_calm [OF calm_wakeup [OF calm_refl]])
next
  case (pipe_rd p n s u bs s')
  then show ?case
    by (auto simp: piperead_run_def Let_def res_iff good_def split: if_splits prod.splits
        elim!: piperead_loop_calm [OF _ calm_refl, THEN family_calm] intro!: family_calm [OF calm_wakeup [OF calm_refl]])
next
  case (cons_rd n target s v bs s')
  then show ?case using consoleread_loop_calm [OF _ calm_refl] good_def by (blast intro: family_calm)
next
  case (dispatched s p s')
  then show ?case using dispatch_kept family_kept good_def by blast
next
  case (undispatched s)
  then show ?case by (auto simp: undispatch_def switchkvm_def good_def kept_refl intro: family_kept [rotated])
next
  case (requeued k i p s s')
  then show ?case using after_run_calm [OF _ calm_refl] good_calm good_def by blast
next
  case (aged s s')
  then show ?case using ageing_calm [OF _ calm_refl] good_calm good_def by blast
next
  case (other_cpu r s a b)
  then show ?case by (auto simp: good_def kept_refl intro: family_kept [rotated])
qed

lemma fresh_family: "fresh s \<Longrightarrow> family s"
  by (simp add: fresh_def family_def others_def zero_proc_def)

lemma kreach_family: "kreach pol lnk s \<Longrightarrow> family s"
proof (induction rule: kreach.induct)
  case (step s s')
  then show ?case using kreach_kinv kstep_family good_def by blast
qed (rule fresh_family)

section \<open>Ancestors\<close>

lemma ancestors:
  assumes "family s" "initproc s = Some r" "i < length (procs s)" "p_state (proc_at s i) \<noteq> UNUSED"
  shows "(\<lambda>i q. p_parent (proc_at s i) = Some q)\<^sup>*\<^sup>* i r"
  using assms(3,4)
proof (induction "nat (p_pid (proc_at s i) - p_pid (proc_at s r))" arbitrary: i rule: less_induct)
  case less
  show ?case
  proof (cases "i = r")
    case False
    then obtain q where q: "p_parent (proc_at s i) = Some q" "living s q" "p_pid (proc_at s q) < p_pid (proc_at s i)"
      "p_pid (proc_at s r) < p_pid (proc_at s i)"
      using familyD [OF assms(1) less.prems] assms(2) by (auto simp: has_parent_def)
    have "(\<lambda>i q. p_parent (proc_at s i) = Some q)\<^sup>*\<^sup>* q r"
      by (rule less.hyps) (use q in \<open>auto simp: living_def\<close>)
    with q(1) show ?thesis by (rule converse_rtranclp_into_rtranclp)
  qed simp
qed

section \<open>Properties\<close>

text \<open>
  (C4) The processes form a tree under the first one. As long as \<open>nextpid\<close> has not overflowed, between any two steps of the
  kernel no slot holds a process that is half made; before \<open>userinit\<close> the table is empty; afterwards the first process is
  alive (sleeping, runnable or running), every other process in use, zombies included, has a
  parent that is alive, so there is always someone who can wait for it, and following the parents
  leads to the first process. It rests on \<open>exit\<close>, which hands the children over to the first process and refuses to let that one exit.
\<close>

theorem kernel_process_tree:
  assumes "krun pol lnk s"
  shows "(\<forall>i < NPROC. p_state (proc_at s i) \<noteq> EMBRYO) \<and>
    (case initproc s of
       None \<Rightarrow> \<forall>i < NPROC. p_state (proc_at s i) = UNUSED
     | Some r \<Rightarrow> living s r \<and> (\<forall>i < NPROC. p_state (proc_at s i) \<noteq> UNUSED \<and> i \<noteq> r \<longrightarrow>
         (\<exists>q. p_parent (proc_at s i) = Some q \<and> living s q) \<and> (\<lambda>i q. p_parent (proc_at s i) = Some q)\<^sup>*\<^sup>* i r))"
proof -
  have f: "family s" and n: "length (procs s) = NPROC"
    using kreach_family [OF krun_kreach [OF assms]] kinvD(3) [OF kreach_kinv [OF krun_kreach [OF assms]]] by auto
  have e: "p_state (proc_at s i) \<noteq> EMBRYO" if "i < NPROC" for i
    using familyD [OF f, of i] that n by (cases "p_state (proc_at s i)") auto
  show ?thesis
  proof (cases "initproc s")
    case None
    with f n show ?thesis by (auto simp: family_def others_def)
  next
    case (Some r)
    have "living s r" using f Some by (simp add: family_def others_def)
    moreover have "\<exists>q. p_parent (proc_at s i) = Some q \<and> living s q" if "i < NPROC" "p_state (proc_at s i) \<noteq> UNUSED" "i \<noteq> r" for i
      using familyD [OF f, of i] that n Some by (auto simp: has_parent_def)
    ultimately show ?thesis using e ancestors [OF f Some] n Some by simp
  qed
qed

theorem kernel_process_tree_witness:
  "\<exists>s :: cons_st. krun P_default boot_lnk s \<and> initproc s = Some 0 \<and> living s 0"
proof -
  obtain s :: cons_st where s: "krun P_default boot_lnk s" "initproc s = Some 0" using booted by blast
  from kernel_process_tree [OF s(1)] s show ?thesis by auto
qed

end
