(* ===== verification/Grep.thy ===== *)
theory Grep
  imports Prelude
begin

text \<open>
  The user program \<open>grep.c\<close>: its regular-expression matcher and the loop that cuts the input into
  lines. Strings are lists of bytes without the terminating zero; the input is the list of what
  the successive calls of \<open>read\<close> return. The matcher is proved equivalent to a declarative reading
  of patterns, and the loop to filtering the lines of the input, as long as each chunk that
  \<open>read\<close> returns ends at least one line; without that the loop drops input.
\<close>

section \<open>The matcher\<close>

abbreviation CARET :: u8 where "CARET \<equiv> 94"
abbreviation DOLLAR :: u8 where "DOLLAR \<equiv> 36"
abbreviation STAR :: u8 where "STAR \<equiv> 42"
abbreviation PERIOD :: u8 where "PERIOD \<equiv> 46"
abbreviation NL :: u8 where "NL \<equiv> 10"

function (sequential) matchhere :: "u8 list \<Rightarrow> u8 list \<Rightarrow> bool"
  and matchstar :: "u8 \<Rightarrow> u8 list \<Rightarrow> u8 list \<Rightarrow> bool" where
  "matchhere [] text = True"
| "matchhere (c # re) text =
     (if re \<noteq> [] \<and> hd re = STAR then matchstar c (tl re) text
      else if c = DOLLAR \<and> re = [] then text = []
      else if text \<noteq> [] \<and> (c = PERIOD \<or> c = hd text) then matchhere re (tl text)
      else False)"
| "matchstar c re text =
     (if matchhere re text then True
      else if text \<noteq> [] \<and> (hd text = c \<or> c = PERIOD) then matchstar c re (tl text)
      else False)"
  by pat_completeness auto

termination
  by (relation "measure (case_sum (\<lambda>(re, text). 2 * (length re + length text))
        (\<lambda>(c, re, text). Suc (2 * (length re + length text))))")
    (auto simp: neq_Nil_conv)

fun match_from :: "u8 list \<Rightarrow> u8 list \<Rightarrow> bool" where
  "match_from re [] = matchhere re []"
| "match_from re (c # text) = (matchhere re (c # text) \<or> match_from re text)"

definition match :: "u8 list \<Rightarrow> u8 list \<Rightarrow> bool" where
  "match re text = (if re \<noteq> [] \<and> hd re = CARET then matchhere (tl re) text else match_from re text)"

section \<open>What a pattern means\<close>

datatype atom = Any | Exactly u8

datatype item = One atom | Many atom | End_of_line

fun accepts :: "atom \<Rightarrow> u8 \<Rightarrow> bool" where
  "accepts Any x = True"
| "accepts (Exactly c) x = (x = c)"

definition atom_of :: "u8 \<Rightarrow> atom" where
  "atom_of c = (if c = PERIOD then Any else Exactly c)"

fun items :: "u8 list \<Rightarrow> item list" where
  "items [] = []"
| "items [c] = [if c = DOLLAR then End_of_line else One (atom_of c)]"
| "items (c # d # re) = (if d = STAR then Many (atom_of c) # items re else One (atom_of c) # items (d # re))"

text \<open>Some beginning of the text is described by the items.\<close>

fun begins :: "item list \<Rightarrow> u8 list \<Rightarrow> bool" where
  "begins [] text = True"
| "begins (One a # is) text = (\<exists>x rest. text = x # rest \<and> accepts a x \<and> begins is rest)"
| "begins (Many a # is) text = (\<exists>xs rest. text = xs @ rest \<and> (\<forall>x \<in> set xs. accepts a x) \<and> begins is rest)"
| "begins (End_of_line # is) text = (text = [] \<and> begins is [])"

definition described :: "u8 list \<Rightarrow> u8 list \<Rightarrow> bool" where
  "described re text = (if re \<noteq> [] \<and> hd re = CARET then begins (items (tl re)) text
     else (\<exists>before rest. text = before @ rest \<and> begins (items re) rest))"

lemma begins_Many:
  "begins (Many a # is) text \<longleftrightarrow>
     begins is text \<or> (\<exists>x rest. text = x # rest \<and> accepts a x \<and> begins (Many a # is) rest)"
proof
  assume "begins (Many a # is) text"
  then obtain xs rest where "text = xs @ rest" "\<forall>x \<in> set xs. accepts a x" "begins is rest" by auto
  then show "begins is text \<or> (\<exists>x rest. text = x # rest \<and> accepts a x \<and> begins (Many a # is) rest)"
    by (cases xs) auto
next
  assume "begins is text \<or> (\<exists>x rest. text = x # rest \<and> accepts a x \<and> begins (Many a # is) rest)"
  then show "begins (Many a # is) text"
  proof
    assume "begins is text"
    then show ?thesis by (auto intro: exI [of _ "[]"])
  next
    assume "\<exists>x rest. text = x # rest \<and> accepts a x \<and> begins (Many a # is) rest"
    then obtain x xs rest where "text = (x # xs) @ rest" "\<forall>y \<in> set (x # xs). accepts a y" "begins is rest" by auto
    then show ?thesis unfolding begins.simps by blast
  qed
qed

lemma accepts_atom_of: "accepts (atom_of c) x \<longleftrightarrow> c = PERIOD \<or> c = x"
  by (auto simp: atom_of_def)

lemma matchhere_begins:
  "matchhere re text \<longleftrightarrow> begins (items re) text"
  "matchstar c re text \<longleftrightarrow> begins (Many (atom_of c) # items re) text"
proof (induction re "text" and c re "text" rule: matchhere_matchstar.induct)
  case (2 c re t)
  show ?case
  proof (cases re)
    case Nil
    then show ?thesis using 2 by (cases t) (auto simp: accepts_atom_of)
  next
    case (Cons d re')
    then show ?thesis using 2 by (cases t) (auto simp: accepts_atom_of)
  qed
next
  case (3 c re t)
  show ?case
    by (subst matchstar.simps, subst begins_Many, cases t) (use 3 in \<open>auto simp: accepts_atom_of\<close>)
qed simp

lemma match_from_begins: "match_from re text \<longleftrightarrow> (\<exists>before rest. text = before @ rest \<and> begins (items re) rest)"
  by (induction "text") (auto simp: matchhere_begins Cons_eq_append_conv)

section \<open>The loop over the input\<close>

text \<open>\<open>strchr(p, '\n')\<close> in the buffer, which ends with a zero after the data.\<close>

fun find_nl :: "u8 list \<Rightarrow> nat option" where
  "find_nl [] = None"
| "find_nl (c # cs) = (if c = NL then Some 0 else if c = 0 then None else map_option Suc (find_nl cs))"

lemma find_nl_less: "find_nl xs = Some k \<Longrightarrow> k < length xs"
  by (induction xs arbitrary: k) (auto split: if_splits)

text \<open>The inner loop: what is written, and what is left after the last line end.\<close>

function grep_lines :: "u8 list \<Rightarrow> u8 list \<Rightarrow> u8 list \<times> u8 list" where
  "grep_lines pattern p =
     (case find_nl p of
        None \<Rightarrow> ([], p)
      | Some k \<Rightarrow>
          (case grep_lines pattern (drop (Suc k) p) of
             (out, rest) \<Rightarrow> ((if match pattern (take k p) then take (Suc k) p else []) @ out, rest)))"
  by pat_completeness auto

termination
  by (relation "measure (\<lambda>(pattern, p). length p)") (auto dest: find_nl_less)

declare grep_lines.simps [simp del]

text \<open>
  One round of the outer loop with \<open>kept\<close> in the buffer and \<open>chunk\<close> read after it: if there was no line
  end in the buffer, its whole content is dropped. \<open>read\<close> returns at most the space that is left.
\<close>

definition grep_step :: "u8 list \<Rightarrow> u8 list \<Rightarrow> u8 list \<Rightarrow> u8 list \<times> u8 list" where
  "grep_step pattern kept chunk =
     (case grep_lines pattern (kept @ chunk) of
        (out, rest) \<Rightarrow> (out, if length rest = length (kept @ chunk) then [] else rest))"

fun grep :: "u8 list \<Rightarrow> u8 list \<Rightarrow> u8 list list \<Rightarrow> u8 list" where
  "grep pattern kept [] = []"
| "grep pattern kept (chunk # chunks) =
     (if chunk = [] then []
      else case grep_step pattern kept chunk of (out, kept) \<Rightarrow> out @ grep pattern kept chunks)"

section \<open>Lines\<close>

text \<open>The complete lines of an input, without their line ends, and what follows the last line end.\<close>

fun lines :: "u8 list \<Rightarrow> u8 list list \<times> u8 list" where
  "lines [] = ([], [])"
| "lines (c # cs) = (case lines cs of (ls, rest) \<Rightarrow>
     if c = NL then ([] # ls, rest) else case ls of [] \<Rightarrow> ([], c # rest) | l # ls \<Rightarrow> ((c # l) # ls, rest))"

lemma lines_no_nl: "NL \<notin> set xs \<Longrightarrow> lines xs = ([], xs)"
  by (induction xs) auto

lemma lines_cut: "NL \<notin> set u \<Longrightarrow> lines (u @ NL # v) = (u # fst (lines v), snd (lines v))"
  by (induction u) (auto split: prod.splits)

lemma find_nl_None: "0 \<notin> set p \<Longrightarrow> find_nl p = None \<longleftrightarrow> NL \<notin> set p"
  by (induction p) auto

lemma find_nl_Some: "find_nl p = Some k \<Longrightarrow> p = take k p @ NL # drop (Suc k) p \<and> take (Suc k) p = take k p @ [NL] \<and> NL \<notin> set (take k p)"
  by (induction p arbitrary: k) (auto split: if_splits)

lemma nl_cases:
  obtains "NL \<notin> set xs" | u v where "xs = u @ NL # v" "NL \<notin> set u"
  using split_list_first [of NL xs] by blast

lemma lines_append:
  "fst (lines (xs @ ys)) = fst (lines xs) @ fst (lines (snd (lines xs) @ ys)) \<and>
   snd (lines (xs @ ys)) = snd (lines (snd (lines xs) @ ys))"
proof (induction xs rule: length_induct)
  case (1 xs)
  show ?case
  proof (cases rule: nl_cases [of xs])
    case 1
    then show ?thesis by (simp add: lines_no_nl)
  next
    case (2 u v)
    with 1 [rule_format, of v] show ?thesis by (simp add: lines_cut)
  qed
qed

lemma lines_rest: "NL \<notin> set (snd (lines xs)) \<and> set (snd (lines xs)) \<subseteq> set xs"
  by (induction xs) (auto split: prod.splits list.splits)

lemma length_lines_rest: "length (snd (lines xs)) = length xs \<longleftrightarrow> NL \<notin> set xs"
proof (cases rule: nl_cases [of xs])
  case (2 u v)
  have "length (snd (lines v)) \<le> length v" for v
    by (induction v) (auto split: prod.splits list.splits)
  from this [of v] 2 show ?thesis by (simp add: lines_cut)
qed (simp add: lines_no_nl)

definition selected :: "u8 list \<Rightarrow> u8 list list \<Rightarrow> u8 list" where
  "selected pattern ls = concat (map (\<lambda>l. l @ [NL]) (filter (match pattern) ls))"

lemma selected_append: "selected pattern (xs @ ys) = selected pattern xs @ selected pattern ys"
  by (simp add: selected_def)

lemma grep_lines_spec:
  "0 \<notin> set p \<Longrightarrow> grep_lines pattern p = (selected pattern (fst (lines p)), snd (lines p))"
proof (induction pattern p rule: grep_lines.induct)
  case (1 pattern p)
  show ?case
  proof (cases "find_nl p")
    case None
    moreover from this 1(2) have "NL \<notin> set p" by (simp add: find_nl_None)
    ultimately show ?thesis by (subst grep_lines.simps) (simp add: lines_no_nl selected_def)
  next
    case (Some k)
    let ?u = "take k p" and ?v = "drop (Suc k) p"
    have p: "p = ?u @ NL # ?v" "NL \<notin> set ?u" and t: "take (Suc k) p = ?u @ [NL]"
      using find_nl_Some [OF Some] by blast+
    have "0 \<notin> set ?v" using 1(2) by (meson in_set_dropD)
    from 1(1) [OF Some this] have "grep_lines pattern ?v = (selected pattern (fst (lines ?v)), snd (lines ?v))" .
    moreover have "lines p = (?u # fst (lines ?v), snd (lines ?v))" using lines_cut [OF p(2), of ?v] p(1) by simp
    ultimately show ?thesis by (subst grep_lines.simps) (simp add: Some t selected_def)
  qed
qed

lemma grep_spec:
  assumes "\<forall>c \<in> set chunks. NL \<in> set c \<and> 0 \<notin> set c" "NL \<notin> set kept" "0 \<notin> set kept"
  shows "grep pattern kept chunks = selected pattern (fst (lines (kept @ concat chunks)))"
  using assms
proof (induction chunks arbitrary: kept)
  case Nil
  then show ?case by (simp add: lines_no_nl selected_def)
next
  case (Cons c chunks)
  let ?b = "kept @ c"
  have z: "0 \<notin> set ?b" and n: "NL \<in> set ?b" using Cons.prems by auto
  have "grep_step pattern kept c = (selected pattern (fst (lines ?b)), snd (lines ?b))"
    using length_lines_rest [of ?b] n by (auto simp: grep_step_def grep_lines_spec [OF z])
  moreover have "grep pattern (snd (lines ?b)) chunks = selected pattern (fst (lines (snd (lines ?b) @ concat chunks)))"
    using Cons.IH [of "snd (lines ?b)"] Cons.prems(1) lines_rest [of ?b] z by auto
  moreover have "c \<noteq> []" using Cons.prems(1) by auto
  ultimately show ?case using lines_append [of ?b "concat chunks"] by (simp add: selected_append)
qed

section \<open>Properties\<close>

text \<open>
  (C23) The matcher finds exactly what the pattern describes: a character, a period for any character,
  either of them starred, a dollar sign for the end at the end, from the start of the text after a caret and
  anywhere otherwise.
\<close>

theorem match_described: "match re text \<longleftrightarrow> described re text"
  by (simp add: match_def described_def matchhere_begins match_from_begins)

text \<open>
  (C24) If every chunk that \<open>read\<close> returns contains a line end, and there are no zero bytes, \<open>grep\<close> writes
  exactly the complete lines of the whole input that match, in order, however the input is cut into chunks.
\<close>

theorem grep_filters_lines:
  assumes "\<forall>c \<in> set chunks. NL \<in> set c \<and> 0 \<notin> set c"
  shows "grep pattern [] chunks = selected pattern (fst (lines (concat chunks)))"
  using grep_spec [of chunks "[]"] assms by simp

theorem grep_filters_lines_witness: "grep [98] [] [[97, 10, 98], [99, 10]] = [98, 99, 10]"
  using grep_filters_lines [of "[[97, 10, 98], [99, 10]]" "[98]"]
  by (simp add: selected_def match_def)

text \<open>
  (C25) A chunk without a line end is forgotten. Whenever the buffer holds the beginning of a line and the next
  \<open>read\<close> returns more of that line but not its end, the loop drops both, and goes on as if the input
  began after them: what it writes does not depend on them, so a matching line that is longer than the buffer, or that arrives in
  pieces, is lost, or what is left of it is matched and written as if it were the line.
\<close>

theorem grep_forgets_chunk:
  assumes "NL \<notin> set kept" "NL \<notin> set chunk" "chunk \<noteq> []"
  shows "grep pattern kept (chunk # chunks) = grep pattern [] chunks"
proof -
  have "find_nl p = None" if "NL \<notin> set p" for p using that by (induction p) auto
  then have "grep_lines pattern (kept @ chunk) = ([], kept @ chunk)"
    using assms by (subst grep_lines.simps) simp
  with assms(3) show ?thesis by (simp add: grep_step_def)
qed

theorem grep_forgets_chunk_witness:
  "match [97, 98] [97, 98] \<and> grep [97, 98] [] [[97], [98, 10]] = []"
  using grep_forgets_chunk [of "[]" "[97]" "[97, 98]" "[[98, 10]]"]
  by (simp add: grep_step_def grep_lines.simps match_def)

end
