(* ===== verification/Sh.thy ===== *)
theory Sh
  imports Sysfile
begin

text \<open>
  The shell, \<open>sh.c\<close>: its tokens, its recursive-descent parser and the commands it builds.
  A command line is the list of its bytes before the terminating zero, so that \<open>es\<close> is its length;
  a pointer into it is an index, and a counted string is the pair of its two ends. The parser terminates
  on every line, reads back the printed form of every command, and its strings are the words of the line.
  A node of a command is a constructor: \<open>malloc\<close> is taken to succeed.
\<close>

section \<open>Tokens\<close>

definition whitespace :: "u8 list" where "whitespace = [32, 9, 13, 10, 11]"
definition symbols :: "u8 list" where "symbols = [60, 124, 62, 38, 59, 40, 41]"

text \<open>\<open>strchr(str, c)\<close> as a condition, and \<open>*s\<close>.\<close>

definition has :: "u8 list \<Rightarrow> u8 \<Rightarrow> bool" where
  "has str c = (case strchr (mem_of str) 0 c of Some (Some _) \<Rightarrow> True | _ \<Rightarrow> False)"

definition chr_at :: "u8 list \<Rightarrow> nat \<Rightarrow> u8" where
  "chr_at b s = (if s < length b then b ! s else 0)"

function skip_ws :: "u8 list \<Rightarrow> nat \<Rightarrow> nat" where
  "skip_ws b s = (if s < length b \<and> has whitespace (chr_at b s) then skip_ws b (s + 1) else s)"
  by pat_completeness auto

termination by (relation "measure (\<lambda>(b, s). length b - s)") auto

function skip_word :: "u8 list \<Rightarrow> nat \<Rightarrow> nat" where
  "skip_word b s =
     (if s < length b \<and> \<not> has whitespace (chr_at b s) \<and> \<not> has symbols (chr_at b s) then skip_word b (s + 1) else s)"
  by pat_completeness auto

termination by (relation "measure (\<lambda>(b, s). length b - s)") auto

declare skip_ws.simps [simp del] skip_word.simps [simp del]

text \<open>The token, the two ends of its text and the place after it. A word is the token \<open>'a'\<close>, and \<open>>>\<close> is \<open>'+'\<close>.\<close>

definition gettoken :: "u8 list \<Rightarrow> nat \<Rightarrow> u8 \<times> nat \<times> nat \<times> nat" where
  "gettoken b s =
     (let q = skip_ws b s; c = chr_at b q;
          (ret, eq) =
            (if c = 0 then (c, q)
             else if c = 124 \<or> c = 40 \<or> c = 41 \<or> c = 59 \<or> c = 38 \<or> c = 60 then (c, q + 1)
             else if c = 62 then (if chr_at b (q + 1) = 62 then (43, q + 2) else (c, q + 1))
             else (97, skip_word b q))
      in (ret, q, eq, skip_ws b eq))"

definition peek :: "u8 list \<Rightarrow> nat \<Rightarrow> u8 list \<Rightarrow> bool \<times> nat" where
  "peek b s toks = (let s = skip_ws b s in (chr_at b s \<noteq> 0 \<and> has toks (chr_at b s), s))"

section \<open>Commands\<close>

definition MAXARGS :: nat where "MAXARGS = 10"

text \<open>
  \<open>'w\<close> is the type of the strings: the pair of \<open>argv[i]\<close> and \<open>eargv[i]\<close>, or of \<open>file\<close> and
  \<open>efile\<close>, while parsing. \<open>EXEC\<close> has the strings before the null pointer that ends the arrays.
\<close>

datatype 'w cmd = EXEC "'w list" | REDIR "'w cmd" 'w int int | PIPE "'w cmd" "'w cmd" | LIST "'w cmd" "'w cmd" | BACK "'w cmd"

text \<open>
  \<open>cmd->argv[argc] = q\<close> in \<open>parseexec\<close>, where \<open>cmd\<close> is the node at the bottom of the redirections in \<open>ret\<close>.
\<close>

fun add_arg :: "'w \<Rightarrow> 'w cmd \<Rightarrow> 'w cmd" where
  "add_arg w (EXEC ws) = EXEC (ws @ [w])"
| "add_arg w (REDIR c f mode fd) = REDIR (add_arg w c) f mode fd"
| "add_arg w c = c"

definition redirect :: "u8 \<Rightarrow> nat \<times> nat \<Rightarrow> (nat \<times> nat) cmd \<Rightarrow> (nat \<times> nat) cmd" where
  "redirect tok f c =
     (if tok = 60 then REDIR c f O_RDONLY 0
      else if tok = 62 then REDIR c f (int_of_uint (O_WRONLY OR O_CREATE)) 1
      else if tok = 43 then REDIR c f (int_of_uint (O_WRONLY OR O_CREATE)) 1
      else c)"

section \<open>The parser\<close>

lemma strchr_cstr: "cstr m p xs \<Longrightarrow> (\<exists>i. strchr m p c = Some (Some i)) \<longleftrightarrow> c \<in> set xs"
proof (induction xs arbitrary: p)
  case Nil
  then show ?case by (subst strchr.simps) (simp add: cstr_def)
next
  case (Cons x xs)
  then show ?case by (subst strchr.simps) auto
qed

lemma has_iff: "0 \<notin> set str \<Longrightarrow> has str c \<longleftrightarrow> c \<in> set str"
proof -
  assume "0 \<notin> set str"
  then have "cstr (mem_of str) 0 str"
    by (auto simp: cstr_def mem_of_def put_bytes_def bytes_at_def intro: nth_equalityI)
  then show ?thesis using strchr_cstr [of "mem_of str" 0 str c] by (auto simp: has_def split: option.splits)
qed

lemma has_set [simp]:
  "has whitespace c \<longleftrightarrow> c \<in> set whitespace" "has symbols c \<longleftrightarrow> c \<in> set symbols"
  "has [] c \<longleftrightarrow> False" "x \<noteq> 0 \<Longrightarrow> has [x] c \<longleftrightarrow> c = x" "has [60, 62] c \<longleftrightarrow> c = 60 \<or> c = 62"
  "has [124, 41, 38, 59] c \<longleftrightarrow> c = 124 \<or> c = 41 \<or> c = 38 \<or> c = 59"
  by (simp_all add: has_iff whitespace_def symbols_def)

lemma skip_ws_le: "s \<le> skip_ws b s"
  by (induction b s rule: skip_ws.induct) (metis le_add1 le_trans nle_le skip_ws.simps)

lemma skip_word_le: "s \<le> skip_word b s"
  by (induction b s rule: skip_word.induct) (metis le_add1 le_trans nle_le skip_word.simps)

lemma gettoken_le:
  assumes "gettoken b s = (tok, q, eq, s')"
  shows "q = skip_ws b s \<and> s \<le> q \<and> q \<le> eq \<and> s' = skip_ws b eq \<and> eq \<le> s'"
  using assms skip_ws_le [of s b] skip_ws_le [of eq b] skip_word_le [of "skip_ws b s" b]
  by (auto simp: gettoken_def Let_def split: if_splits)

lemma skip_ws_idem [simp]: "skip_ws b (skip_ws b s) = skip_ws b s"
  by (induction b s rule: skip_ws.induct) (metis skip_ws.simps)

text \<open>A token that was peeked at is consumed.\<close>

lemma peek_token:
  assumes "peek b s toks = (True, s1)" "gettoken b s1 = (tok, q, eq, s2)" "chr_at b s1 \<in> set symbols"
  shows "s \<le> s1 \<and> s1 < s2 \<and> s1 < length b"
proof -
  have s1: "s1 = skip_ws b s" "chr_at b s1 \<noteq> 0" using assms(1) by (auto simp: peek_def Let_def)
  then have "q = s1" "q < eq" using assms(2,3) by (auto simp: gettoken_def Let_def symbols_def split: if_splits)
  then show ?thesis using s1 skip_ws_le [of s b] gettoken_le [OF assms(2)] by (auto simp: chr_at_def split: if_splits)
qed

function parseredirs :: "u8 list \<Rightarrow> (nat \<times> nat) cmd \<Rightarrow> nat \<Rightarrow> ((nat \<times> nat) cmd \<times> nat) res" where
  "parseredirs b c s =
     (let (redir, s) = peek b s [60, 62] in
      if redir
      then let (tok, _, _, s) = gettoken b s; (tok', q, eq, s) = gettoken b s in
        if tok' \<noteq> 97 then Inl (Panic ''missing file for redirection'')
        else parseredirs b (redirect tok (q, eq) c) s
      else Inr (c, s))"
  by pat_completeness auto

termination
proof (relation "measure (\<lambda>(b, c, s). length b - s)", goal_cases)
  case (2 b c s x redir s1 y tok z q w eq s2 y' tok' z' q' w' eq' s3)
  then have p: "peek b s [60, 62] = (True, s1)" "gettoken b s1 = (tok, q, eq, s2)" "gettoken b s2 = (tok', q', eq', s3)" by auto
  then have "chr_at b s1 \<in> set symbols" by (auto simp: peek_def Let_def symbols_def)
  then show ?case using peek_token [OF p(1,2)] gettoken_le [OF p(3)] by simp linarith
qed simp

declare parseredirs.simps [simp del]

text \<open>
  The parsers call each other, each time with less fuel; \<open>None\<close> is the lack of it, which lemma
  \<open>parse_enough\<close> below excludes.
\<close>

fun obnd :: "'a res option \<Rightarrow> ('a \<Rightarrow> 'b res option) \<Rightarrow> 'b res option" where
  "obnd None f = None"
| "obnd (Some (Inl e)) f = Some (Inl e)"
| "obnd (Some (Inr x)) f = f x"

function args_loop :: "u8 list \<Rightarrow> nat \<Rightarrow> (nat \<times> nat) cmd \<Rightarrow> nat \<Rightarrow> ((nat \<times> nat) cmd \<times> nat) res" where
  "args_loop b argc ret s =
     (let (stop, s) = peek b s [124, 41, 38, 59] in
      if stop then Inr (ret, s)
      else let (tok, q, eq, s) = gettoken b s in
        if tok = 0 then Inr (ret, s)
        else if tok \<noteq> 97 then Inl (Panic ''syntax'')
        else let ret = add_arg (q, eq) ret; argc = argc + 1 in
          if argc \<ge> MAXARGS then Inl (Panic ''too many args'')
          else bnd (parseredirs b ret s) (\<lambda>(ret, s). args_loop b argc ret s))"
  by pat_completeness auto

termination by (relation "measure (\<lambda>(b, argc, ret, s). MAXARGS - argc)") auto

declare args_loop.simps [simp del]

text \<open>\<open>while(peek(ps, es, "&"))\<close> of \<open>parseline\<close>.\<close>

function back_loop :: "u8 list \<Rightarrow> (nat \<times> nat) cmd \<Rightarrow> nat \<Rightarrow> (nat \<times> nat) cmd \<times> nat" where
  "back_loop b c s =
     (let (p, s) = peek b s [38] in
      if p then let (_, _, _, s) = gettoken b s in back_loop b (BACK c) s else (c, s))"
  by pat_completeness auto

termination
proof (relation "measure (\<lambda>(b, c, s). length b - s)", goal_cases)
  case (2 b c s x p s1 y tok z q w eq s2)
  then have p: "peek b s [38] = (True, s1)" "gettoken b s1 = (tok, q, eq, s2)" by auto
  then have "chr_at b s1 \<in> set symbols" by (auto simp: peek_def Let_def symbols_def)
  then show ?case using peek_token [OF p(1,2)] by simp linarith
qed simp

declare back_loop.simps [simp del]

fun parseline :: "nat \<Rightarrow> u8 list \<Rightarrow> nat \<Rightarrow> ((nat \<times> nat) cmd \<times> nat) res option"
  and parsepipe :: "nat \<Rightarrow> u8 list \<Rightarrow> nat \<Rightarrow> ((nat \<times> nat) cmd \<times> nat) res option"
  and parseexec :: "nat \<Rightarrow> u8 list \<Rightarrow> nat \<Rightarrow> ((nat \<times> nat) cmd \<times> nat) res option"
  and parseblock :: "nat \<Rightarrow> u8 list \<Rightarrow> nat \<Rightarrow> ((nat \<times> nat) cmd \<times> nat) res option" where
  "parseline 0 b s = None"
| "parseline (Suc n) b s =
     obnd (parsepipe n b s) (\<lambda>(c, s).
       let (c, s) = back_loop b c s; (p, s) = peek b s [59] in
       if p then let (_, _, _, s) = gettoken b s in obnd (parseline n b s) (\<lambda>(r, s). Some (Inr (LIST c r, s)))
       else Some (Inr (c, s)))"
| "parsepipe 0 b s = None"
| "parsepipe (Suc n) b s =
     obnd (parseexec n b s) (\<lambda>(c, s).
       let (p, s) = peek b s [124] in
       if p then let (_, _, _, s) = gettoken b s in obnd (parsepipe n b s) (\<lambda>(r, s). Some (Inr (PIPE c r, s)))
       else Some (Inr (c, s)))"
| "parseexec 0 b s = None"
| "parseexec (Suc n) b s =
     (let (p, s) = peek b s [40] in
      if p then parseblock n b s
      else Some (bnd (parseredirs b (EXEC []) s) (\<lambda>(ret, s). args_loop b 0 ret s)))"
| "parseblock 0 b s = None"
| "parseblock (Suc n) b s =
     (let (p, s) = peek b s [40] in
      if \<not> p then Some (Inl (Panic ''parseblock''))
      else let (_, _, _, s) = gettoken b s in
        obnd (parseline n b s) (\<lambda>(c, s).
          let (p, s) = peek b s [41] in
          if \<not> p then Some (Inl (Panic ''syntax - missing )''))
          else let (_, _, _, s) = gettoken b s in Some (parseredirs b c s)))"

fun nulterminate :: "(nat \<times> nat) cmd \<Rightarrow> bytes \<Rightarrow> bytes" where
  "nulterminate (EXEC ws) m = fold (\<lambda>(_, eq) m. m(eq := 0)) ws m"
| "nulterminate (REDIR c f mode fd) m = (nulterminate c m)(snd f := 0)"
| "nulterminate (PIPE l r) m = nulterminate r (nulterminate l m)"
| "nulterminate (LIST l r) m = nulterminate r (nulterminate l m)"
| "nulterminate (BACK c) m = nulterminate c m"

text \<open>The fuel is enough for every line: four calls for each byte, and four more.\<close>

definition parsecmd :: "u8 list \<Rightarrow> ((nat \<times> nat) cmd \<times> bytes) res option" where
  "parsecmd b =
     obnd (parseline (4 * length b + 4) b 0) (\<lambda>(c, s).
       let (_, s) = peek b s [] in
       if s \<noteq> length b then Some (Inl (Panic ''syntax'')) else Some (Inr (c, nulterminate c (mem_of b))))"

lemmas parse_simps = parseline.simps parsepipe.simps parseexec.simps parseblock.simps

declare parse_simps [simp del]

section \<open>Termination\<close>

lemma peek_le: "peek b s toks = (p, s') \<Longrightarrow> s \<le> s' \<and> s' = skip_ws b s"
  using skip_ws_le [of s b] by (auto simp: peek_def Let_def)

lemma peek_mono: "peek b s toks = (p, s') \<Longrightarrow> s \<le> s'"
  by (simp add: peek_le)

lemma gettoken_mono: "gettoken b s = (tok, q, eq, s') \<Longrightarrow> s \<le> s'"
  using gettoken_le by fastforce

lemma peeked_symbol:
  assumes "peek b s [x] = (True, s1)" "gettoken b s1 = (tok, q, eq, s2)" "x \<in> set symbols"
  shows "s \<le> s1 \<and> s1 < s2 \<and> s1 < length b"
  using peek_token [OF assms(1,2)] assms(1,3) by (auto simp: peek_def Let_def symbols_def)

lemma parseredirs_step:
  assumes "peek b s [60, 62] = (p, s1)" "gettoken b s1 = (tok, q, eq, s2)" "gettoken b s2 = (tok', q', eq', s3)"
  shows "parseredirs b c s =
    (if p then if tok' \<noteq> 97 then Inl (Panic ''missing file for redirection'') else parseredirs b (redirect tok (q', eq') c) s3
     else Inr (c, s1))"
  by (subst parseredirs.simps) (simp add: assms)

lemma parseredirs_induct [case_names step]:
  assumes "\<And>c s p s1 tok q eq s2 tok' q' eq' s3. peek b s [60, 62] = (p, s1) \<Longrightarrow> gettoken b s1 = (tok, q, eq, s2) \<Longrightarrow>
    gettoken b s2 = (tok', q', eq', s3) \<Longrightarrow> (p \<Longrightarrow> P (redirect tok (q', eq') c) s3) \<Longrightarrow> P c s"
  shows "P c s"
proof (induction "length b - s" arbitrary: c s rule: less_induct)
  case less
  obtain p s1 tok q eq s2 tok' q' eq' s3 where g: "peek b s [60, 62] = (p, s1)" "gettoken b s1 = (tok, q, eq, s2)"
    "gettoken b s2 = (tok', q', eq', s3)" by (metis prod_cases4 surj_pair)
  show ?case
  proof (rule assms [OF g])
    assume p
    moreover from this have "chr_at b s1 \<in> set symbols" using g(1) by (auto simp: peek_def Let_def symbols_def)
    ultimately show "P (redirect tok (q', eq') c) s3"
      using peek_token [of b s "[60, 62]" s1] g gettoken_le [OF g(3)] by (intro less) (auto simp: diff_less_mono2)
  qed
qed

lemma parseredirs_le: "parseredirs b c s = Inr (c', s') \<Longrightarrow> s \<le> s'"
proof (induction c s rule: parseredirs_induct [of b])
  case (step c s p s1 tok q eq s2 tok' q' eq' s3)
  then show ?case using peek_le [OF step(1)] gettoken_le [OF step(2)] gettoken_le [OF step(3)]
    by (auto simp: parseredirs_step [OF step(1-3)] split: if_splits)
qed

lemma args_loop_step:
  assumes "peek b s [124, 41, 38, 59] = (p, s1)" "gettoken b s1 = (tok, q, eq, s2)"
  shows "args_loop b argc ret s =
    (if p then Inr (ret, s1) else if tok = 0 then Inr (ret, s2) else if tok \<noteq> 97 then Inl (Panic ''syntax'')
     else if argc + 1 \<ge> MAXARGS then Inl (Panic ''too many args'')
     else bnd (parseredirs b (add_arg (q, eq) ret) s2) (\<lambda>(ret, s). args_loop b (argc + 1) ret s))"
  by (subst args_loop.simps) (simp add: assms)

lemma args_loop_induct [case_names step]:
  assumes "\<And>argc ret s p s1 tok q eq s2. peek b s [124, 41, 38, 59] = (p, s1) \<Longrightarrow> gettoken b s1 = (tok, q, eq, s2) \<Longrightarrow>
    (\<And>ret' s'. argc + 1 < MAXARGS \<Longrightarrow> P (argc + 1) ret' s') \<Longrightarrow> P argc ret s"
  shows "P argc ret s"
proof (induction "MAXARGS - argc" arbitrary: argc ret s rule: less_induct)
  case (less argc ret s)
  obtain p s1 tok q eq s2 where "peek b s [124, 41, 38, 59] = (p, s1)" "gettoken b s1 = (tok, q, eq, s2)"
    by (metis prod_cases4 surj_pair)
  then show ?case by (rule assms) (auto intro!: less)
qed

lemma args_loop_le: "args_loop b argc ret s = Inr (c', s') \<Longrightarrow> s \<le> s'"
proof (induction argc ret s rule: args_loop_induct [of b])
  case (step argc ret s p s1 tok q eq s2)
  have ih: "s3 \<le> s'" if "args_loop b (Suc argc) r s3 = Inr (c', s')" "Suc argc < MAXARGS" for r s3
    using step(3) that by simp
  show ?case using step(4) peek_mono [OF step(1)] gettoken_mono [OF step(2)]
    unfolding args_loop_step [OF step(1,2)] by (auto simp: bnd_Inr_iff not_le split: if_splits dest!: ih parseredirs_le)
qed

lemma back_loop_step:
  assumes "peek b s [38] = (p, s1)" "gettoken b s1 = (tok, q, eq, s2)"
  shows "back_loop b c s = (if p then back_loop b (BACK c) s2 else (c, s1))"
  by (subst back_loop.simps) (simp add: assms)

lemma back_loop_induct [case_names step]:
  assumes "\<And>c s p s1 tok q eq s2. peek b s [38] = (p, s1) \<Longrightarrow> gettoken b s1 = (tok, q, eq, s2) \<Longrightarrow>
    (p \<Longrightarrow> P (BACK c) s2) \<Longrightarrow> P c s"
  shows "P c s"
proof (induction "length b - s" arbitrary: c s rule: less_induct)
  case (less s c)
  obtain p s1 tok q eq s2 where g: "peek b s [38] = (p, s1)" "gettoken b s1 = (tok, q, eq, s2)"
    by (metis prod_cases4 surj_pair)
  then show ?case
    by (rule assms) (use peeked_symbol [of b s 38 s1] g in \<open>intro less, auto simp: symbols_def diff_less_mono2\<close>)
qed

lemma back_loop_le: "back_loop b c s = (c', s') \<Longrightarrow> s \<le> s'"
proof (induction c s rule: back_loop_induct [of b])
  case (step c s p s1 tok q eq s2)
  then show ?case using peek_le [OF step(1)] gettoken_le [OF step(2)]
    by (auto simp: back_loop_step [OF step(1,2)] split: if_splits)
qed

lemma obnd_Some_Inr: "obnd m f = Some (Inr y) \<longleftrightarrow> (\<exists>x. m = Some (Inr x) \<and> f x = Some (Inr y))"
  by (cases "(m, f)" rule: obnd.cases) auto

lemma parselineE:
  assumes "parseline (Suc n) b s = Some (Inr (c', s'))"
  obtains c s1 c1 s2 p s3 tok q eq s4 where "parsepipe n b s = Some (Inr (c, s1))" "back_loop b c s1 = (c1, s2)"
    "peek b s2 [59] = (p, s3)" "gettoken b s3 = (tok, q, eq, s4)"
    "\<not> p \<and> c' = c1 \<and> s' = s3 \<or> p \<and> (\<exists>r. parseline n b s4 = Some (Inr (r, s')) \<and> c' = LIST c1 r)"
proof -
  obtain c s1 where c: "parsepipe n b s = Some (Inr (c, s1))" using assms by (auto simp: parse_simps obnd_Some_Inr)
  obtain c1 s2 p s3 tok q eq s4 where g: "back_loop b c s1 = (c1, s2)" "peek b s2 [59] = (p, s3)" "gettoken b s3 = (tok, q, eq, s4)"
    by (metis prod_cases4 surj_pair)
  show thesis by (rule that [OF c g]) (use assms in \<open>auto simp: parse_simps c g obnd_Some_Inr split: if_splits\<close>)
qed

lemma parsepipeE:
  assumes "parsepipe (Suc n) b s = Some (Inr (c', s'))"
  obtains c s1 p s2 tok q eq s3 where "parseexec n b s = Some (Inr (c, s1))" "peek b s1 [124] = (p, s2)"
    "gettoken b s2 = (tok, q, eq, s3)"
    "\<not> p \<and> c' = c \<and> s' = s2 \<or> p \<and> (\<exists>r. parsepipe n b s3 = Some (Inr (r, s')) \<and> c' = PIPE c r)"
proof -
  obtain c s1 where c: "parseexec n b s = Some (Inr (c, s1))" using assms by (auto simp: parse_simps obnd_Some_Inr)
  obtain p s2 tok q eq s3 where g: "peek b s1 [124] = (p, s2)" "gettoken b s2 = (tok, q, eq, s3)" by (metis prod_cases4 surj_pair)
  show thesis by (rule that [OF c g]) (use assms in \<open>auto simp: parse_simps c g obnd_Some_Inr split: if_splits\<close>)
qed

lemma parseexecE:
  assumes "parseexec (Suc n) b s = Some (Inr (c', s'))"
  obtains p s1 where "peek b s [40] = (p, s1)"
    "p \<and> parseblock n b s1 = Some (Inr (c', s')) \<or>
     \<not> p \<and> (\<exists>ret s2. parseredirs b (EXEC []) s1 = Inr (ret, s2) \<and> args_loop b 0 ret s2 = Inr (c', s'))"
  using assms by (auto simp: parse_simps bnd_Inr_iff split: prod.splits if_splits)

lemma parseblockE:
  assumes "parseblock (Suc n) b s = Some (Inr (c', s'))"
  obtains s1 tok q eq s2 c s3 s4 tok' q' eq' s5 where "peek b s [40] = (True, s1)" "gettoken b s1 = (tok, q, eq, s2)"
    "parseline n b s2 = Some (Inr (c, s3))" "peek b s3 [41] = (True, s4)" "gettoken b s4 = (tok', q', eq', s5)"
    "parseredirs b c s5 = Inr (c', s')"
proof -
  obtain p s1 tok q eq s2 where g: "peek b s [40] = (p, s1)" "gettoken b s1 = (tok, q, eq, s2)" by (metis prod_cases4 surj_pair)
  then have p and "\<exists>c s3. parseline n b s2 = Some (Inr (c, s3))"
    using assms by (auto simp: parse_simps obnd_Some_Inr split: if_splits)
  then obtain c s3 where c: "parseline n b s2 = Some (Inr (c, s3))" by blast
  obtain p' s4 tok' q' eq' s5 where g': "peek b s3 [41] = (p', s4)" "gettoken b s4 = (tok', q', eq', s5)"
    by (metis prod_cases4 surj_pair)
  show thesis by (rule that [of s1 tok q eq s2 c s3 s4 tok' q' eq' s5])
    (use assms g' in \<open>auto simp: parse_simps \<open>p\<close> c g obnd_Some_Inr split: if_splits\<close>)
qed

lemma parse_le:
  "(parseline n b s = Some (Inr (c, s')) \<longrightarrow> s \<le> s') \<and> (parsepipe n b s = Some (Inr (c, s')) \<longrightarrow> s \<le> s') \<and>
   (parseexec n b s = Some (Inr (c, s')) \<longrightarrow> s \<le> s') \<and> (parseblock n b s = Some (Inr (c, s')) \<longrightarrow> s \<le> s')"
proof (induction n arbitrary: s c s')
  case (Suc n)
  have ih: "parseline n b s = Some (Inr (c, s')) \<Longrightarrow> s \<le> s'" "parsepipe n b s = Some (Inr (c, s')) \<Longrightarrow> s \<le> s'"
   "parseexec n b s = Some (Inr (c, s')) \<Longrightarrow> s \<le> s'" "parseblock n b s = Some (Inr (c, s')) \<Longrightarrow> s \<le> s'" for s c s'
    using Suc by blast+
  show ?case
    by (intro conjI impI; (erule parselineE parsepipeE parseexecE parseblockE);
      auto dest!: ih peek_mono gettoken_mono back_loop_le args_loop_le parseredirs_le)
qed (simp add: parse_simps)

lemma obnd_None [simp]: "obnd m f = None \<longleftrightarrow> m = None \<or> (\<exists>x. m = Some (Inr x) \<and> f x = None)"
  by (cases "(m, f)" rule: obnd.cases) auto

text \<open>A call that lacks fuel made a call that lacks fuel, in the same place or past a token.\<close>

definition past :: "u8 list \<Rightarrow> nat \<Rightarrow> nat \<Rightarrow> bool" where
  "past b s s' \<longleftrightarrow> s < s' \<and> s < length b"

lemma past_token:
  assumes "s \<le> s1" "peek b s1 [x] = (True, s2)" "gettoken b s2 = (tok, q, eq, s3)" "x \<in> set symbols"
  shows "past b s s3"
  using peeked_symbol [OF assms(2-4)] assms(1) by (auto simp: past_def)

lemma parseline_None:
  assumes "parseline (Suc n) b s = None"
  shows "parsepipe n b s = None \<or> (\<exists>s'. past b s s' \<and> parseline n b s' = None)"
proof (rule ccontr)
  assume no: "\<not> ?thesis"
  with assms obtain c s1 where c: "parsepipe n b s = Some (Inr (c, s1))" by (auto simp: parse_simps)
  obtain c1 s2 p s3 tok q eq s4 where g: "back_loop b c s1 = (c1, s2)" "peek b s2 [59] = (p, s3)" "gettoken b s3 = (tok, q, eq, s4)"
    by (metis prod_cases4 surj_pair)
  from assms have "p" "parseline n b s4 = None" by (auto simp: parse_simps c g split: if_splits)
  moreover have "s \<le> s2" using parse_le [of n b s c s1] back_loop_le [OF g(1)] c by simp
  ultimately show False using no g past_token [of s s2 b 59 s3] by (auto simp: symbols_def)
qed

lemma parsepipe_None:
  assumes "parsepipe (Suc n) b s = None"
  shows "parseexec n b s = None \<or> (\<exists>s'. past b s s' \<and> parsepipe n b s' = None)"
proof (rule ccontr)
  assume no: "\<not> ?thesis"
  with assms obtain c s1 where c: "parseexec n b s = Some (Inr (c, s1))" by (auto simp: parse_simps)
  obtain p s2 tok q eq s3 where g: "peek b s1 [124] = (p, s2)" "gettoken b s2 = (tok, q, eq, s3)" by (metis prod_cases4 surj_pair)
  from assms have "p" "parsepipe n b s3 = None" by (auto simp: parse_simps c g split: if_splits)
  moreover have "s \<le> s1" using parse_le [of n b s c s1] c by simp
  ultimately show False using no g past_token [of s s1 b 124 s2] by (auto simp: symbols_def)
qed

lemma parseexec_None: "parseexec (Suc n) b s = None \<Longrightarrow> \<exists>s'. s \<le> s' \<and> parseblock n b s' = None"
  by (auto simp: parse_simps split: prod.splits if_splits dest!: peek_mono)

lemma parseblock_None:
  assumes "parseblock (Suc n) b s = None"
  shows "\<exists>s'. past b s s' \<and> parseline n b s' = None"
proof -
  obtain p s1 tok q eq s2 where g: "peek b s [40] = (p, s1)" "gettoken b s1 = (tok, q, eq, s2)" by (metis prod_cases4 surj_pair)
  have p using assms by (auto simp: parse_simps g split: if_splits)
  moreover have "parseline n b s2 = None"
  proof (rule ccontr)
    assume "parseline n b s2 \<noteq> None"
    then obtain c s3 where c: "parseline n b s2 = Some (Inr (c, s3))" using assms by (auto simp: parse_simps g \<open>p\<close>)
    obtain p' s4 tok' q' eq' s5 where "peek b s3 [41] = (p', s4)" "gettoken b s4 = (tok', q', eq', s5)"
      by (metis prod_cases4 surj_pair)
    then show False using assms by (auto simp: parse_simps g \<open>p\<close> c split: if_splits)
  qed
  ultimately show ?thesis using past_token [of s s b 40 s1] g by (auto simp: symbols_def)
qed

lemma parse_enough:
  "(4 * (length b - s) + 4 \<le> n \<longrightarrow> parseline n b s \<noteq> None) \<and> (4 * (length b - s) + 3 \<le> n \<longrightarrow> parsepipe n b s \<noteq> None) \<and>
   (4 * (length b - s) + 2 \<le> n \<longrightarrow> parseexec n b s \<noteq> None) \<and>
   (4 * (length b - s) + 1 \<le> n \<longrightarrow> parseblock n b s \<noteq> None)"
proof (induction n arbitrary: s)
  case (Suc n)
  have less: "4 * (length b - s') + 4 \<le> 4 * (length b - s)" if "past b s s'" for s' using that unfolding past_def by linarith
  have line: "parseline n b s' \<noteq> None" if "past b s s'" "4 * (length b - s) \<le> n" for s'
    using less [OF that(1)] that(2) Suc by (meson le_trans)
  have pipe: "parsepipe n b s' \<noteq> None" if "past b s s'" "4 * (length b - s) \<le> n" for s'
    using less [OF that(1)] that(2) Suc [of s'] by linarith
  have block: "parseblock n b s' \<noteq> None" if "s \<le> s'" "4 * (length b - s) + 1 \<le> n" for s'
    using that Suc [of s'] by linarith
  have "4 * (length b - s) + 4 \<le> Suc n \<Longrightarrow> parseline (Suc n) b s \<noteq> None"
    using parseline_None [of n b s] line Suc [of s] by (auto simp del: not_None_eq)
  moreover have "4 * (length b - s) + 3 \<le> Suc n \<Longrightarrow> parsepipe (Suc n) b s \<noteq> None"
    using parsepipe_None [of n b s] pipe Suc [of s] by (auto simp del: not_None_eq)
  moreover have "4 * (length b - s) + 2 \<le> Suc n \<Longrightarrow> parseexec (Suc n) b s \<noteq> None"
    using parseexec_None [of n b s] block by (auto simp del: not_None_eq)
  moreover have "4 * (length b - s) + 1 \<le> Suc n \<Longrightarrow> parseblock (Suc n) b s \<noteq> None"
    using parseblock_None [of n b s] line by (auto simp del: not_None_eq)
  ultimately show ?case by blast
qed simp

lemma parsecmd_total: "\<exists>r. parsecmd b = Some r"
proof -
  have "parsecmd b \<noteq> None" using parse_enough [of b 0 "4 * length b + 4"] by (auto simp: parsecmd_def split: if_splits prod.splits)
  then show ?thesis by blast
qed

section \<open>What the parser builds\<close>

definition plain :: "u8 \<Rightarrow> bool" where
  "plain c \<longleftrightarrow> c \<noteq> 0 \<and> c \<notin> set whitespace \<and> c \<notin> set symbols"

definition word_ok :: "u8 list \<Rightarrow> bool" where
  "word_ok w \<longleftrightarrow> w \<noteq> [] \<and> (\<forall>c \<in> set w. plain c)"

definition word_at :: "u8 list \<Rightarrow> nat \<times> nat \<Rightarrow> u8 list" where
  "word_at b = (\<lambda>(q, eq). take (eq - q) (drop q b))"

text \<open>The ends of a longest run of plain characters.\<close>

definition tok_ok :: "u8 list \<Rightarrow> nat \<times> nat \<Rightarrow> bool" where
  "tok_ok b = (\<lambda>(q, eq). q < eq \<and> eq \<le> length b \<and> (\<forall>i. q \<le> i \<and> i < eq \<longrightarrow> plain (b ! i)) \<and> \<not> plain (chr_at b eq))"

text \<open>A command that fits its arrays, whose redirections are the two kinds that the shell has.\<close>

fun wf_cmd :: "('w \<Rightarrow> bool) \<Rightarrow> 'w cmd \<Rightarrow> bool" where
  "wf_cmd P (EXEC ws) \<longleftrightarrow> length ws < MAXARGS \<and> (\<forall>w \<in> set ws. P w)"
| "wf_cmd P (REDIR c f mode fd) \<longleftrightarrow> wf_cmd P c \<and> P f \<and>
     (mode = O_RDONLY \<and> fd = 0 \<or> mode = int_of_uint (O_WRONLY OR O_CREATE) \<and> fd = 1)"
| "wf_cmd P (PIPE l r) \<longleftrightarrow> wf_cmd P l \<and> wf_cmd P r"
| "wf_cmd P (LIST l r) \<longleftrightarrow> wf_cmd P l \<and> wf_cmd P r"
| "wf_cmd P (BACK c) \<longleftrightarrow> wf_cmd P c"

lemma wf_cmd_map: "wf_cmd P c \<Longrightarrow> (\<And>w. P w \<Longrightarrow> Q (f w)) \<Longrightarrow> wf_cmd Q (map_cmd f c)"
  by (induction c) auto

lemma wf_cmd_set: "wf_cmd P c \<Longrightarrow> w \<in> set_cmd c \<Longrightarrow> P w"
  by (induction c) auto

lemma skip_word_plain:
  assumes "0 \<notin> set b" "s \<le> length b"
  shows "skip_word b s \<le> length b \<and> (\<forall>i. s \<le> i \<and> i < skip_word b s \<longrightarrow> plain (b ! i)) \<and> \<not> plain (chr_at b (skip_word b s))"
  using assms
proof (induction b s rule: skip_word.induct)
  case (1 b s)
  show ?case
  proof (cases "s < length b \<and> plain (b ! s)")
    case True
    then have e: "skip_word b s = skip_word b (Suc s)" by (subst skip_word.simps) (simp add: chr_at_def plain_def)
    have g: "s < length b \<and> \<not> has whitespace (chr_at b s) \<and> \<not> has symbols (chr_at b s)" using True by (simp add: chr_at_def plain_def)
    have ih: "skip_word b (Suc s) \<le> length b \<and> (\<forall>i. Suc s \<le> i \<and> i < skip_word b (Suc s) \<longrightarrow> plain (b ! i)) \<and>
       \<not> plain (chr_at b (skip_word b (Suc s)))" using 1(1) [OF g 1(2)] True by simp
    have "plain (b ! i)" if "s \<le> i" "i < skip_word b (Suc s)" for i using ih True that by (cases "i = s") auto
    then show ?thesis using ih e by simp
  next
    case False
    moreover have "b ! s \<noteq> 0" if "s < length b" using that 1(2) by (metis nth_mem)
    ultimately have "skip_word b s = s" by (subst skip_word.simps) (auto simp: chr_at_def plain_def)
    then show ?thesis using 1(3) False by (auto simp: chr_at_def plain_def)
  qed
qed

lemma tok_word: "tok_ok b t \<Longrightarrow> word_ok (word_at b t)"
  by (auto simp: tok_ok_def word_ok_def word_at_def set_conv_nth)

lemma zero_not_ws: "0 \<notin> set whitespace"
  by (simp add: whitespace_def)

lemma skip_ws_stops: "chr_at b (skip_ws b s) \<notin> set whitespace"
  by (induction b s rule: skip_ws.induct) (subst skip_ws.simps, auto simp: chr_at_def zero_not_ws)

lemma word_token:
  assumes "0 \<notin> set b" "gettoken b s = (97, q, eq, s')"
  shows "tok_ok b (q, eq)"
proof -
  have q: "q = skip_ws b s" "plain (chr_at b q)" "eq = skip_word b q"
    using assms(2) skip_ws_stops [of b s] by (auto simp: gettoken_def Let_def plain_def symbols_def split: if_splits)
  then have "q < length b" by (auto simp: chr_at_def plain_def split: if_splits)
  moreover from this q have "skip_word b q \<noteq> q" using skip_word_plain [OF assms(1), of q] by auto
  ultimately show ?thesis using q(3) skip_word_plain [OF assms(1), of q] skip_word_le [of q b] by (auto simp: tok_ok_def)
qed

fun bottom :: "nat \<Rightarrow> 'w cmd \<Rightarrow> bool" where
  "bottom n (EXEC ws) \<longleftrightarrow> length ws = n"
| "bottom n (REDIR c f mode fd) \<longleftrightarrow> bottom n c"
| "bottom n c \<longleftrightarrow> False"

lemma add_arg_ok: "bottom n c \<Longrightarrow> bottom (Suc n) (add_arg w c)"
  "bottom n c \<Longrightarrow> Suc n < MAXARGS \<Longrightarrow> wf_cmd P c \<Longrightarrow> P w \<Longrightarrow> wf_cmd P (add_arg w c)"
  by (induction c) auto

lemma redirect_ok: "wf_cmd P c \<Longrightarrow> P f \<Longrightarrow> wf_cmd P (redirect tok f c)" "bottom n c \<Longrightarrow> bottom n (redirect tok f c)"
  by (auto simp: redirect_def)

lemma parseredirs_ok:
  assumes "0 \<notin> set b"
  shows "parseredirs b c s = Inr (c', s') \<Longrightarrow> wf_cmd (tok_ok b) c \<Longrightarrow> wf_cmd (tok_ok b) c' \<and> (bottom n c \<longrightarrow> bottom n c')"
proof (induction c s rule: parseredirs_induct [of b])
  case (step c s p s1 tok q eq s2 tok' q' eq' s3)
  show ?case
  proof (cases p)
    case True
    then have "tok' = 97" and r: "parseredirs b (redirect tok (q', eq') c) s3 = Inr (c', s')"
      using step(5) by (simp_all add: parseredirs_step [OF step(1-3)] split: if_splits)
    then have "tok_ok b (q', eq')" using word_token [OF assms] step(3) by blast
    then show ?thesis using step(4) [OF True r] redirect_ok step(6) by blast
  next
    case False
    then show ?thesis using step(5,6) by (simp add: parseredirs_step [OF step(1-3)])
  qed
qed

lemma args_loop_ok:
  assumes "0 \<notin> set b"
  shows "args_loop b argc ret s = Inr (c', s') \<Longrightarrow> wf_cmd (tok_ok b) ret \<Longrightarrow> bottom argc ret \<Longrightarrow> wf_cmd (tok_ok b) c'"
proof (induction argc ret s rule: args_loop_induct [of b])
  case (step argc ret s p s1 tok q eq s2)
  show ?case
  proof (cases "p \<or> tok = 0")
    case True
    then show ?thesis using step(4,5) by (auto simp: args_loop_step [OF step(1,2)] split: if_splits)
  next
    case False
    then obtain ret' s3 where t: "tok = 97" "argc + 1 < MAXARGS" and r: "parseredirs b (add_arg (q, eq) ret) s2 = Inr (ret', s3)"
      "args_loop b (argc + 1) ret' s3 = Inr (c', s')"
      using step(4) by (auto simp: args_loop_step [OF step(1,2)] bnd_Inr_iff split: if_splits)
    have "tok_ok b (q, eq)" using word_token [OF assms] step(2) t(1) by blast
    then have "wf_cmd (tok_ok b) (add_arg (q, eq) ret)" "bottom (argc + 1) (add_arg (q, eq) ret)"
      using add_arg_ok step(5,6) t(2) by auto
    then show ?thesis using parseredirs_ok [OF assms r(1)] step(3) [OF t(2) r(2)] by blast
  qed
qed

lemma back_loop_ok: "back_loop b c s = (c', s') \<Longrightarrow> wf_cmd P c \<Longrightarrow> wf_cmd P c'"
proof (induction c s rule: back_loop_induct [of b])
  case (step c s p s1 tok q eq s2)
  then show ?case by (auto simp: back_loop_step [OF step(1,2)] split: if_splits)
qed

lemma parse_ok:
  assumes "0 \<notin> set b"
  shows "(parseline n b s = Some (Inr (c, s')) \<longrightarrow> wf_cmd (tok_ok b) c) \<and> (parsepipe n b s = Some (Inr (c, s')) \<longrightarrow> wf_cmd (tok_ok b) c) \<and>
   (parseexec n b s = Some (Inr (c, s')) \<longrightarrow> wf_cmd (tok_ok b) c) \<and> (parseblock n b s = Some (Inr (c, s')) \<longrightarrow> wf_cmd (tok_ok b) c)"
proof (induction n arbitrary: s c s')
  case (Suc n)
  let ?w = "wf_cmd (tok_ok b)"
  have ih: "parseline n b s = Some (Inr (c, s')) \<Longrightarrow> ?w c" "parsepipe n b s = Some (Inr (c, s')) \<Longrightarrow> ?w c"
   "parseexec n b s = Some (Inr (c, s')) \<Longrightarrow> ?w c" "parseblock n b s = Some (Inr (c, s')) \<Longrightarrow> ?w c" for s c s'
    using Suc by blast+
  have e: "?w c'" if "parseredirs b (EXEC []) s = Inr (ret, s1)" "args_loop b 0 ret s1 = Inr (c', s')" for s ret s1 c' s'
    using parseredirs_ok [OF assms that(1), of 0] args_loop_ok [OF assms that(2)] by (simp add: MAXARGS_def)
  show ?case
    by (intro conjI impI; (erule parselineE parsepipeE parseexecE parseblockE))
      (auto dest!: ih back_loop_ok [of b _ _ _ _ "tok_ok b"] dest: e parseredirs_ok [OF assms])
qed (simp add: parse_simps)

lemma nulterminate_eq: "nulterminate c m = (\<lambda>i. if i \<in> snd ` set_cmd c then 0 else m i)"
proof (induction c arbitrary: m)
  case (EXEC ws)
  have "fold (\<lambda>(_, eq) m. m(eq := 0)) ws m = (\<lambda>i. if i \<in> snd ` set ws then 0 else m i)" for m
    by (induction ws arbitrary: m) (auto simp: fun_eq_iff)
  then show ?case by simp
qed (auto simp: fun_eq_iff)

section \<open>Printed commands\<close>

fun show_cmd :: "u8 list cmd \<Rightarrow> u8 list" where
  "show_cmd (EXEC ws) = concat (map (\<lambda>w. w @ [32]) ws)"
| "show_cmd (REDIR c f mode fd) = [40] @ show_cmd c @ [41, if fd = 0 then 60 else 62] @ f"
| "show_cmd (PIPE l r) = [40] @ show_cmd l @ [41, 124, 40] @ show_cmd r @ [41]"
| "show_cmd (LIST l r) = [40] @ show_cmd l @ [41, 59, 40] @ show_cmd r @ [41]"
| "show_cmd (BACK c) = [40] @ show_cmd c @ [41, 38]"

text \<open>\<open>ys\<close> is what is left of the line at \<open>s\<close>; \<open>hd0\<close> is the byte there.\<close>

definition rest :: "u8 list \<Rightarrow> nat \<Rightarrow> u8 list \<Rightarrow> bool" where
  "rest b s ys \<longleftrightarrow> s \<le> length b \<and> drop s b = ys"

definition hd0 :: "u8 list \<Rightarrow> u8" where
  "hd0 ys = (case ys of [] \<Rightarrow> 0 | y # _ \<Rightarrow> y)"

lemma hd0_simps [simp]: "hd0 [] = 0" "hd0 (y # ys) = y"
  by (simp_all add: hd0_def)

lemma rest_chr: "rest b s ys \<Longrightarrow> chr_at b s = hd0 ys"
  by (auto simp: rest_def chr_at_def hd0_def nth_via_drop split: list.splits)

lemma rest_app:
  assumes "rest b s (xs @ ys)"
  shows "rest b (s + length xs) ys"
proof -
  have "length (drop s b) = length xs + length ys" using assms by (simp add: rest_def)
  moreover have "drop (s + length xs) b = drop (length xs) (xs @ ys)"
    using assms unfolding rest_def by (metis add.commute drop_drop)
  ultimately show ?thesis using assms by (auto simp: rest_def)
qed

lemma rest_Cons: "rest b s (x # ys) \<Longrightarrow> rest b (Suc s) ys \<and> s < length b"
  using rest_app [of b s "[x]" ys] by (auto simp: rest_def)

lemma rest_word: "rest b s (w @ ys) \<Longrightarrow> word_at b (s, s + length w) = w"
  by (auto simp: rest_def word_at_def)

lemma skip_ws_none: "rest b s ys \<Longrightarrow> hd0 ys \<notin> set whitespace \<Longrightarrow> skip_ws b s = s"
  by (subst skip_ws.simps) (simp add: rest_chr)

lemma skip_ws_one: "rest b s (32 # ys) \<Longrightarrow> hd0 ys \<notin> set whitespace \<Longrightarrow> skip_ws b s = Suc s"
  using rest_Cons [of b s 32 ys] skip_ws_none [of b "Suc s" ys]
  by (subst skip_ws.simps) (simp add: rest_chr, simp add: whitespace_def)

definition ends_word :: "u8 list \<Rightarrow> bool" where
  "ends_word ys \<longleftrightarrow> ys = [] \<or> hd0 ys \<in> set whitespace \<or> hd0 ys \<in> set symbols"

lemma skip_word_word:
  "rest b s (w @ ys) \<Longrightarrow> \<forall>c \<in> set w. plain c \<Longrightarrow> ends_word ys \<Longrightarrow> skip_word b s = s + length w"
proof (induction w arbitrary: s)
  case Nil
  then show ?case by (subst skip_word.simps) (auto simp: rest_chr ends_word_def rest_def)
next
  case (Cons x w)
  then have r: "rest b (Suc s) (w @ ys)" "s < length b" using rest_Cons [of b s x "w @ ys"] by auto
  with Cons show ?case by (subst skip_word.simps) (simp add: rest_chr plain_def)
qed

lemma peek_rest:
  "rest b s ys \<Longrightarrow> hd0 ys \<notin> set whitespace \<Longrightarrow> peek b s toks = (hd0 ys \<noteq> 0 \<and> has toks (hd0 ys), s)"
  by (simp add: peek_def skip_ws_none rest_chr)

lemma symbol_token:
  assumes "rest b s (c # ys)" "c \<in> set symbols" "hd0 ys \<notin> set whitespace" "c = 62 \<Longrightarrow> hd0 ys \<noteq> 62"
  shows "gettoken b s = (c, s, Suc s, Suc s)"
proof -
  have r: "rest b (Suc s) ys" using rest_Cons [OF assms(1)] by simp
  have "c \<notin> set whitespace" using assms(2) by (auto simp: symbols_def whitespace_def)
  then have "skip_ws b s = s" using skip_ws_none [OF assms(1)] by simp
  then show ?thesis using assms(2,4) skip_ws_none [OF r assms(3)] rest_chr [OF assms(1)] rest_chr [OF r]
    by (auto simp: gettoken_def symbols_def)
qed

lemma word_token_rest:
  assumes "rest b s (w @ ys)" "word_ok w" "ends_word ys"
  shows "gettoken b s = (97, s, s + length w, skip_ws b (s + length w))"
proof -
  obtain c v where w: "w = c # v" "plain c" using assms(2) by (cases w) (auto simp: word_ok_def)
  then have c: "chr_at b s = c" "skip_ws b s = s"
    using rest_chr [OF assms(1)] skip_ws_none [OF assms(1)] by (auto simp: plain_def)
  moreover have "skip_word b s = s + length w" using skip_word_word [OF assms(1) _ assms(3)] assms(2) by (simp add: word_ok_def)
  ultimately show ?thesis using w(2) by (auto simp: gettoken_def plain_def symbols_def)
qed

lemma end_token: "rest b s [] \<Longrightarrow> gettoken b s = (0, s, s, s)"
  using skip_ws_none [of b s "[]"] rest_chr [of b s "[]"] by (simp add: gettoken_def zero_not_ws)

section \<open>Reading a printed command\<close>

text \<open>A line or a block ends at the end of the input and at a closing parenthesis.\<close>

definition closes :: "u8 list \<Rightarrow> bool" where
  "closes ys \<longleftrightarrow> ys = [] \<or> hd0 ys = 41"

lemma closes_facts:
  assumes "closes ys"
  shows "hd0 ys \<notin> set whitespace" "ends_word ys" "hd0 ys \<noteq> 124" "hd0 ys \<noteq> 38" "hd0 ys \<noteq> 59" "hd0 ys \<noteq> 60" "hd0 ys \<noteq> 62" "hd0 ys \<noteq> 40"
  using assms by (auto simp: closes_def ends_word_def whitespace_def symbols_def)

lemma no_redirs: "rest b s ys \<Longrightarrow> hd0 ys \<notin> set whitespace \<Longrightarrow> hd0 ys \<noteq> 60 \<Longrightarrow> hd0 ys \<noteq> 62 \<Longrightarrow> parseredirs b c s = Inr (c, s)"
  by (subst parseredirs.simps) (simp add: peek_rest)

lemma no_back: "rest b s ys \<Longrightarrow> hd0 ys \<notin> set whitespace \<Longrightarrow> hd0 ys \<noteq> 38 \<Longrightarrow> back_loop b c s = (c, s)"
  by (subst back_loop.simps) (simp add: peek_rest)

lemma hd0_words: "\<forall>w \<in> set ws. word_ok w \<Longrightarrow> ws \<noteq> [] \<Longrightarrow> plain (hd0 (concat (map (\<lambda>w. w @ [32]) ws) @ ys))"
  by (cases ws; cases "hd ws") (auto simp: word_ok_def)

lemma plain_facts: "plain c \<Longrightarrow> c \<notin> set whitespace \<and> c \<notin> set symbols \<and> c \<noteq> 0"
  by (simp add: plain_def)

lemma args_loop_words:
  assumes "rest b s (concat (map (\<lambda>w. w @ [32]) ws) @ ys)" "\<forall>w \<in> set ws. word_ok w" "closes ys" "argc + length ws < MAXARGS"
  shows "\<exists>ts'. args_loop b argc (EXEC ts) s = Inr (EXEC (ts @ ts'), s + length (concat (map (\<lambda>w. w @ [32]) ws))) \<and>
    map (word_at b) ts' = ws"
  using assms
proof (induction ws arbitrary: argc ts s)
  case Nil
  then show ?case
    by (subst args_loop.simps) (use Nil end_token [of b s] closes_facts(1) [OF assms(3)] in \<open>auto simp: peek_rest closes_def\<close>)
next
  case (Cons w ws)
  let ?z = "concat (map (\<lambda>w. w @ [32]) ws) @ ys" and ?s = "s + length w"
  have w: "word_ok w" and r: "rest b s (w @ 32 # ?z)" using Cons.prems by auto
  have z: "hd0 ?z \<notin> set whitespace \<and> hd0 ?z \<noteq> 60 \<and> hd0 ?z \<noteq> 62"
    using closes_facts [OF Cons.prems(3)] hd0_words [of ws ys] Cons.prems(2)
    by (cases "ws = []") (auto simp: plain_def symbols_def)
  have r1: "rest b ?s (32 # ?z)" by (rule rest_app [OF r])
  have r2: "rest b (Suc ?s) ?z" using rest_Cons [OF r1] by simp
  have g: "gettoken b s = (97, s, ?s, Suc ?s)"
    using word_token_rest [OF r w] skip_ws_one [OF r1] z by (simp add: ends_word_def whitespace_def)
  have "plain (hd0 (w @ 32 # ?z))" using w by (cases w) (auto simp: word_ok_def)
  then have p: "peek b s [124, 41, 38, 59] = (False, s)" using peek_rest [OF r] by (auto simp: plain_def symbols_def)
  obtain ts' where t: "args_loop b (argc + 1) (EXEC (ts @ [(s, ?s)])) (Suc ?s) =
      Inr (EXEC ((ts @ [(s, ?s)]) @ ts'), Suc ?s + length (concat (map (\<lambda>w. w @ [32]) ws)))" "map (word_at b) ts' = ws"
    using Cons.IH [OF r2, of "argc + 1" "ts @ [(s, ?s)]"] Cons.prems by auto
  have "args_loop b argc (EXEC ts) s = args_loop b (argc + 1) (EXEC (ts @ [(s, ?s)])) (Suc ?s)"
    using Cons.prems(4) no_redirs [OF r2] z by (simp add: args_loop_step [OF p g])
  then show ?case using t rest_word [OF r] by (intro exI [of _ "(s, ?s) # ts'"]) simp
qed

lemma parsepipe_end:
  assumes "parseexec n b s = Some (Inr (c, s'))" "rest b s' ys" "hd0 ys \<notin> set whitespace" "hd0 ys \<noteq> 124"
  shows "parsepipe (Suc n) b s = Some (Inr (c, s'))"
  using assms by (simp add: parse_simps peek_rest)

lemma parseline_end:
  assumes "parsepipe n b s = Some (Inr (c, s'))" "rest b s' ys" "closes ys"
  shows "parseline (Suc n) b s = Some (Inr (c, s'))"
  using assms(1,2) closes_facts [OF assms(3)] by (simp add: parse_simps peek_rest no_back)

definition reads :: "u8 list cmd \<Rightarrow> bool" where
  "reads c \<longleftrightarrow> (\<forall>b s ys n. rest b s (show_cmd c @ ys) \<and> closes ys \<and> 4 * (length b - s) + 4 \<le> n \<longrightarrow>
     (\<exists>t. parseline n b s = Some (Inr (t, s + length (show_cmd c))) \<and> map_cmd (word_at b) t = c))"

lemma hd0_show: "wf_cmd word_ok c \<Longrightarrow> hd0 ys \<notin> set whitespace \<Longrightarrow> hd0 (show_cmd c @ ys) \<notin> set whitespace"
proof (cases c)
  case (EXEC ws)
  assume "wf_cmd word_ok c" "hd0 ys \<notin> set whitespace"
  then show ?thesis using hd0_words [of ws ys] EXEC by (cases "ws = []") (auto simp: plain_def)
qed (auto simp: whitespace_def)

lemma block_reads:
  assumes "reads c" "wf_cmd word_ok c" "rest b s (40 # show_cmd c @ 41 # ys)" "hd0 ys \<notin> set whitespace" "4 * (length b - s) + 2 \<le> n"
  shows "\<exists>t. parseexec n b s = Some (parseredirs b t (s + length (show_cmd c) + 2)) \<and> map_cmd (word_at b) t = c \<and>
    rest b (s + length (show_cmd c) + 2) ys"
proof -
  obtain k where n: "n = Suc (Suc k)" using assms(5) by (cases n; cases "n - 1") auto
  let ?s = "Suc s + length (show_cmd c)"
  have sym: "40 \<in> set symbols" "41 \<in> set symbols" "40 \<notin> set whitespace" "41 \<notin> set whitespace"
    by (simp_all add: symbols_def whitespace_def)
  have r1: "rest b (Suc s) (show_cmd c @ 41 # ys)" "s < length b" using rest_Cons [OF assms(3)] by auto
  have r2: "rest b ?s (41 # ys)" by (rule rest_app [OF r1(1)])
  have r3: "rest b (Suc ?s) ys" using rest_Cons [OF r2] by simp
  have "4 * (length b - Suc s) + 4 \<le> k" using assms(5) r1(2) n by simp
  then obtain t where t: "parseline k b (Suc s) = Some (Inr (t, ?s))" "map_cmd (word_at b) t = c"
    using assms(1) [unfolded reads_def, rule_format, of b "Suc s" "41 # ys" k] r1(1) by (auto simp: closes_def)
  have g: "gettoken b s = (40, s, Suc s, Suc s)" "gettoken b ?s = (41, ?s, Suc ?s, Suc ?s)"
    using symbol_token [OF assms(3) sym(1)] symbol_token [OF r2 sym(2) assms(4)] hd0_show [OF assms(2), of "41 # ys"] sym(4) by auto
  have p: "peek b s [40] = (True, s)" "peek b ?s [41] = (True, ?s)" using peek_rest [OF assms(3)] peek_rest [OF r2] sym by auto
  have "parseexec n b s = Some (parseredirs b t (Suc ?s))" by (simp add: n parse_simps p g t(1) del: add_Suc)
  then show ?thesis using t(2) r3 by (intro exI [of _ t]) simp
qed

lemma block_alone:
  assumes "reads c" "wf_cmd word_ok c" "rest b s (40 # show_cmd c @ 41 # ys)" "4 * (length b - s) + 2 \<le> n"
    and "hd0 ys \<notin> set whitespace" "hd0 ys \<noteq> 60" "hd0 ys \<noteq> 62"
  shows "\<exists>t. parseexec n b s = Some (Inr (t, s + length (show_cmd c) + 2)) \<and> map_cmd (word_at b) t = c \<and>
    rest b (s + length (show_cmd c) + 2) ys"
proof -
  obtain t where "parseexec n b s = Some (parseredirs b t (s + length (show_cmd c) + 2))" "map_cmd (word_at b) t = c"
    "rest b (s + length (show_cmd c) + 2) ys" using block_reads [OF assms(1-3,5,4)] by blast
  then show ?thesis using no_redirs [of b "s + length (show_cmd c) + 2" ys] assms(5-7) by simp
qed

lemma readsI:
  assumes "\<And>b s ys n. rest b s (show_cmd c @ ys) \<Longrightarrow> closes ys \<Longrightarrow> 4 * (length b - s) + 1 \<le> n \<Longrightarrow>
    \<exists>t. parseline (Suc (Suc (Suc n))) b s = Some (Inr (t, s + length (show_cmd c))) \<and> map_cmd (word_at b) t = c"
  shows "reads c"
  unfolding reads_def
proof (intro allI impI, elim conjE)
  fix b s ys n assume r: "rest b s (show_cmd c @ ys)" "closes ys" and n: "4 * (length b - s) + 4 \<le> n"
  obtain k where "n = Suc (Suc (Suc k))" using n by (cases n; cases "n - 1"; cases "n - 2") auto
  then show "\<exists>t. parseline n b s = Some (Inr (t, s + length (show_cmd c))) \<and> map_cmd (word_at b) t = c"
    using assms [OF r, of k] n by simp
qed

lemma reads_EXEC: "wf_cmd word_ok (EXEC ws) \<Longrightarrow> reads (EXEC ws)"
proof (rule readsI)
  fix b s ys n
  assume w: "wf_cmd word_ok (EXEC ws)" and r: "rest b s (show_cmd (EXEC ws) @ ys)" and c: "closes ys"
  let ?z = "show_cmd (EXEC ws) @ ys" and ?s = "s + length (show_cmd (EXEC ws))"
  have h: "hd0 ?z \<notin> set whitespace" "hd0 ?z \<noteq> 60" "hd0 ?z \<noteq> 62" "hd0 ?z \<noteq> 40"
    using closes_facts [OF c] hd0_words [of ws ys] w by (cases "ws = []"; auto simp: plain_def symbols_def)+
  obtain ts where t: "args_loop b 0 (EXEC []) s = Inr (EXEC ts, ?s)" "map (word_at b) ts = ws"
    using args_loop_words [of b s ws ys 0 "[]"] r w c by auto
  have "parseexec (Suc n) b s = Some (Inr (EXEC ts, ?s))"
    using peek_rest [OF r h(1), of "[40]"] no_redirs [OF r h(1-3)] h(4) t(1) by (simp add: parse_simps)
  then have "parsepipe (Suc (Suc n)) b s = Some (Inr (EXEC ts, ?s))"
    using parsepipe_end [OF _ rest_app [OF r]] closes_facts [OF c] by blast
  then have "parseline (Suc (Suc (Suc n))) b s = Some (Inr (EXEC ts, ?s))" by (rule parseline_end [OF _ rest_app [OF r] c])
  with t(2) show "\<exists>t. parseline (Suc (Suc (Suc n))) b s = Some (Inr (t, ?s)) \<and> map_cmd (word_at b) t = EXEC ws"
    by (intro exI [of _ "EXEC ts"]) simp
qed

lemma reads_BACK:
  assumes "reads c" "wf_cmd word_ok c"
  shows "reads (BACK c)"
proof (rule readsI)
  fix b s ys n
  assume r: "rest b s (show_cmd (BACK c) @ ys)" and c: "closes ys" and n: "4 * (length b - s) + 1 \<le> n"
  let ?s = "s + length (show_cmd c) + 2"
  have amp: "38 \<notin> set whitespace" "38 \<in> set symbols" by (simp_all add: whitespace_def symbols_def)
  obtain t where t: "parseexec (Suc n) b s = Some (Inr (t, ?s))" "map_cmd (word_at b) t = c" "rest b ?s (38 # ys)"
    using block_alone [OF assms, of b s "38 # ys" "Suc n"] r n amp by auto
  have p: "parsepipe (Suc (Suc n)) b s = Some (Inr (t, ?s))" by (rule parsepipe_end [OF t(1,3)]) (use amp in simp_all)
  have r': "rest b (Suc ?s) ys" using rest_Cons [OF t(3)] by simp
  have "back_loop b t ?s = (BACK t, Suc ?s)"
    using back_loop_step [OF peek_rest [OF t(3)] symbol_token [OF t(3) amp(2)]] amp no_back [OF r'] closes_facts [OF c] by simp
  then have "parseline (Suc (Suc (Suc n))) b s = Some (Inr (BACK t, Suc ?s))"
    using p peek_rest [OF r', of "[59]"] closes_facts [OF c] by (simp add: parse_simps(2))
  then show "\<exists>t. parseline (Suc (Suc (Suc n))) b s = Some (Inr (t, s + length (show_cmd (BACK c)))) \<and> map_cmd (word_at b) t = BACK c"
    using t(2) by (intro exI [of _ "BACK t"]) simp
qed

lemma reads_PIPE:
  assumes "reads l" "wf_cmd word_ok l" "reads r" "wf_cmd word_ok r"
  shows "reads (PIPE l r)"
proof (rule readsI)
  fix b s ys n
  assume rs: "rest b s (show_cmd (PIPE l r) @ ys)" and c: "closes ys" and n: "4 * (length b - s) + 1 \<le> n"
  let ?s = "s + length (show_cmd l) + 2" and ?z = "40 # show_cmd r @ 41 # ys"
  have bar: "124 \<notin> set whitespace" "124 \<in> set symbols" "40 \<notin> set whitespace" by (simp_all add: whitespace_def symbols_def)
  obtain t where t: "parseexec (Suc n) b s = Some (Inr (t, ?s))" "map_cmd (word_at b) t = l" "rest b ?s (124 # ?z)"
    using block_alone [OF assms(1,2), of b s "124 # ?z" "Suc n"] rs n bar by auto
  have r': "rest b (Suc ?s) ?z" "?s < length b" using rest_Cons [OF t(3)] by auto
  have "4 * (length b - Suc ?s) + 2 \<le> n" using n r'(2) by linarith
  then obtain u where u: "parseexec n b (Suc ?s) = Some (Inr (u, Suc ?s + length (show_cmd r) + 2))"
    "map_cmd (word_at b) u = r" "rest b (Suc ?s + length (show_cmd r) + 2) ys"
    using block_alone [OF assms(3,4) r'(1)] closes_facts [OF c] by blast
  have "parsepipe (Suc n) b (Suc ?s) = Some (Inr (u, Suc ?s + length (show_cmd r) + 2))"
    by (rule parsepipe_end [OF u(1,3)]) (use closes_facts [OF c] in simp_all)
  then have "parsepipe (Suc (Suc n)) b s = Some (Inr (PIPE t u, Suc ?s + length (show_cmd r) + 2))"
    using t(1) peek_rest [OF t(3)] symbol_token [OF t(3) bar(2)] bar by (simp add: parse_simps(4))
  then have "parseline (Suc (Suc (Suc n))) b s = Some (Inr (PIPE t u, Suc ?s + length (show_cmd r) + 2))"
    by (rule parseline_end [OF _ u(3) c])
  then show "\<exists>t. parseline (Suc (Suc (Suc n))) b s = Some (Inr (t, s + length (show_cmd (PIPE l r)))) \<and>
      map_cmd (word_at b) t = PIPE l r"
    using t(2) u(2) by (intro exI [of _ "PIPE t u"]) simp
qed

lemma reads_LIST:
  assumes "reads l" "wf_cmd word_ok l" "reads r" "wf_cmd word_ok r"
  shows "reads (LIST l r)"
proof (rule readsI)
  fix b s ys n
  assume rs: "rest b s (show_cmd (LIST l r) @ ys)" and c: "closes ys" and n: "4 * (length b - s) + 1 \<le> n"
  let ?s = "s + length (show_cmd l) + 2" and ?z = "40 # show_cmd r @ 41 # ys"
  have semi: "59 \<notin> set whitespace" "59 \<in> set symbols" "40 \<notin> set whitespace" by (simp_all add: whitespace_def symbols_def)
  obtain t where t: "parseexec (Suc n) b s = Some (Inr (t, ?s))" "map_cmd (word_at b) t = l" "rest b ?s (59 # ?z)"
    using block_alone [OF assms(1,2), of b s "59 # ?z" "Suc n"] rs n semi by auto
  have p: "parsepipe (Suc (Suc n)) b s = Some (Inr (t, ?s))" by (rule parsepipe_end [OF t(1,3)]) (use semi in simp_all)
  have r': "rest b (Suc ?s) ?z" "?s < length b" using rest_Cons [OF t(3)] by auto
  have "4 * (length b - Suc ?s) + 2 \<le> n" using n r'(2) by linarith
  then obtain u where u: "parseexec n b (Suc ?s) = Some (Inr (u, Suc ?s + length (show_cmd r) + 2))"
    "map_cmd (word_at b) u = r" "rest b (Suc ?s + length (show_cmd r) + 2) ys"
    using block_alone [OF assms(3,4) r'(1)] closes_facts [OF c] by blast
  have "parsepipe (Suc n) b (Suc ?s) = Some (Inr (u, Suc ?s + length (show_cmd r) + 2))"
    by (rule parsepipe_end [OF u(1,3)]) (use closes_facts [OF c] in simp_all)
  then have "parseline (Suc (Suc n)) b (Suc ?s) = Some (Inr (u, Suc ?s + length (show_cmd r) + 2))"
    by (rule parseline_end [OF _ u(3) c])
  then have "parseline (Suc (Suc (Suc n))) b s = Some (Inr (LIST t u, Suc ?s + length (show_cmd r) + 2))"
    using p no_back [OF t(3)] peek_rest [OF t(3)] symbol_token [OF t(3) semi(2)] semi by (simp add: parse_simps(2))
  then show "\<exists>t. parseline (Suc (Suc (Suc n))) b s = Some (Inr (t, s + length (show_cmd (LIST l r)))) \<and>
      map_cmd (word_at b) t = LIST l r"
    using t(2) u(2) by (intro exI [of _ "LIST t u"]) simp
qed

lemma redirection_reads:
  assumes "rest b s (x # f @ ys)" "x = 60 \<or> x = 62" "word_ok f" "closes ys"
  shows "parseredirs b c s = Inr (redirect x (Suc s, Suc s + length f) c, Suc s + length f)"
proof -
  obtain y g where f: "f = y # g" "plain y" using assms(3) by (cases f) (auto simp: word_ok_def)
  have x: "x \<in> set symbols" "x \<notin> set whitespace" using assms(2) by (auto simp: symbols_def whitespace_def)
  have y: "y \<notin> set whitespace" "y \<noteq> 62" using plain_facts [OF f(2)] by (auto simp: symbols_def)
  have r: "rest b (Suc s) (f @ ys)" "rest b (Suc s + length f) ys"
    using rest_Cons [OF assms(1)] rest_app [of b "Suc s" f ys] by auto
  have "skip_ws b (Suc s + length f) = Suc s + length f" using skip_ws_none [OF r(2)] closes_facts [OF assms(4)] by simp
  then have w: "gettoken b (Suc s) = (97, Suc s, Suc s + length f, Suc s + length f)"
    using word_token_rest [OF r(1) assms(3)] closes_facts(2) [OF assms(4)] by simp
  have "peek b s [60, 62] = (True, s)" using peek_rest [OF assms(1)] x assms(2) by auto
  moreover have "gettoken b s = (x, s, Suc s, Suc s)" using symbol_token [OF assms(1) x(1)] f y by simp
  ultimately show ?thesis
    using parseredirs_step [OF _ _ w] no_redirs [OF r(2)] closes_facts [OF assms(4)] by simp
qed

lemma reads_REDIR:
  assumes "reads c" "wf_cmd word_ok (REDIR c f mode fd)"
  shows "reads (REDIR c f mode fd)"
proof (rule readsI)
  fix b s ys n
  assume r: "rest b s (show_cmd (REDIR c f mode fd) @ ys)" and cl: "closes ys" and n: "4 * (length b - s) + 1 \<le> n"
  let ?x = "if fd = 0 then 60 else 62 :: u8" and ?s = "s + length (show_cmd c) + 2"
  let ?t = "\<lambda>t. redirect ?x (Suc ?s, Suc ?s + length f) t"
  have w: "wf_cmd word_ok c" "word_ok f" and x: "?x = 60 \<or> ?x = 62" "?x \<notin> set whitespace" using assms(2) by (auto simp: whitespace_def)
  obtain t where t: "parseexec (Suc n) b s = Some (parseredirs b t ?s)" "map_cmd (word_at b) t = c" "rest b ?s (?x # f @ ys)"
    using block_reads [OF assms(1) w(1), of b s "?x # f @ ys" "Suc n"] r n x(2) by auto
  have r': "rest b (Suc ?s + length f) ys" "word_at b (Suc ?s, Suc ?s + length f) = f"
    using rest_Cons [OF t(3)] rest_app [of b "Suc ?s" f ys] rest_word [of b "Suc ?s" f ys] by auto
  have "parseexec (Suc n) b s = Some (Inr (?t t, Suc ?s + length f))"
    using t(1) redirection_reads [OF t(3) x(1) w(2) cl] by simp
  then have "parsepipe (Suc (Suc n)) b s = Some (Inr (?t t, Suc ?s + length f))"
    using parsepipe_end [OF _ r'(1)] closes_facts [OF cl] by blast
  then have "parseline (Suc (Suc (Suc n))) b s = Some (Inr (?t t, Suc ?s + length f))" by (rule parseline_end [OF _ r'(1) cl])
  moreover have "map_cmd (word_at b) (?t t) = REDIR c f mode fd" using assms(2) t(2) r'(2) by (auto simp: redirect_def)
  ultimately show "\<exists>t. parseline (Suc (Suc (Suc n))) b s = Some (Inr (t, s + length (show_cmd (REDIR c f mode fd)))) \<and>
      map_cmd (word_at b) t = REDIR c f mode fd"
    by (intro exI [of _ "?t t"]) simp
qed

lemma show_reads: "wf_cmd word_ok c \<Longrightarrow> reads c"
proof (induction c)
  case (REDIR c f mode fd)
  then have "reads c" by simp
  then show ?case by (rule reads_REDIR [OF _ REDIR.prems])
qed (simp_all add: reads_EXEC reads_BACK reads_PIPE reads_LIST del: wf_cmd.simps(1))

lemma tok_nulterminate:
  assumes "wf_cmd (tok_ok b) c" "t \<in> set_cmd c"
  shows "cstr (nulterminate c (mem_of b)) (fst t) (word_at b t)"
proof -
  obtain q eq where t: "t = (q, eq)" by (cases t)
  have ok: "tok_ok b u" if "u \<in> set_cmd c" for u using wf_cmd_set [OF assms(1) that] .
  have r: "q < eq" "eq \<le> length b" "\<And>i. q \<le> i \<Longrightarrow> i < eq \<Longrightarrow> plain (b ! i)" using ok [OF assms(2)] by (auto simp: t tok_ok_def)
  have "i \<notin> snd ` set_cmd c" if "q \<le> i" "i < eq" for i
    using r that ok by (fastforce simp: tok_ok_def chr_at_def)
  then have "nulterminate c (mem_of b) (q + i) = b ! (q + i)" if "i < eq - q" for i
    using that r(2) by (auto simp: nulterminate_eq mem_of_def put_bytes_def)
  moreover have "nulterminate c (mem_of b) eq = 0" using assms(2) by (force simp: nulterminate_eq t)
  moreover have "0 \<notin> set (word_at b t)" using tok_word [OF ok [OF assms(2)]] by (auto simp: word_ok_def plain_def)
  ultimately show ?thesis using r(1,2) by (auto simp: cstr_def t word_at_def bytes_at_def intro!: nth_equalityI)
qed

lemma parsecmd_show:
  assumes "wf_cmd word_ok c"
  shows "\<exists>t m. parsecmd (show_cmd c) = Some (Inr (t, m)) \<and> map_cmd (word_at (show_cmd c)) t = c"
proof -
  let ?b = "show_cmd c"
  have r: "rest ?b 0 (?b @ [])" "rest ?b (length ?b) []" by (simp_all add: rest_def)
  obtain t where t: "parseline (4 * length ?b + 4) ?b 0 = Some (Inr (t, length ?b))" "map_cmd (word_at ?b) t = c"
    using show_reads [OF assms, unfolded reads_def, rule_format, of ?b 0 "[]" "4 * length ?b + 4"] r(1) by (auto simp: closes_def)
  have "peek ?b (length ?b) [] = (False, length ?b)" using peek_rest [OF r(2)] zero_not_ws by simp
  then show ?thesis using t by (intro exI [of _ t] exI [of _ "nulterminate t (mem_of ?b)"]) (simp add: parsecmd_def)
qed

section \<open>Properties\<close>

text \<open>
  (C13) The parser ends on every line, with a command or with an error, whatever the line is: the fuel of
  \<open>parsecmd\<close> is always enough.
\<close>

theorem parsecmd_ends: "\<exists>r. parsecmd b = Some r"
  by (rule parsecmd_total)

text \<open>
  (C11) What the parser returns is fit to run: no argument array overflows, a redirection opens descriptor 0 for
  reading or 1 for writing, every argument and file name is a non-empty word of the line, without spaces or symbols, and
  after \<open>nulterminate\<close> it stands in memory as a zero-terminated string.
\<close>

theorem parsecmd_words:
  assumes "0 \<notin> set b" "parsecmd b = Some (Inr (c, m))"
  shows "wf_cmd word_ok (map_cmd (word_at b) c) \<and> (\<forall>t \<in> set_cmd c. cstr m (fst t) (word_at b t))"
proof -
  obtain c' s where "parseline (4 * length b + 4) b 0 = Some (Inr (c', s))"
    using assms(2) by (auto simp: parsecmd_def obnd_Some_Inr)
  moreover obtain p s' where "peek b s [] = (p, s')" by (cases "peek b s []")
  ultimately have "parseline (4 * length b + 4) b 0 = Some (Inr (c, s))" and m: "m = nulterminate c (mem_of b)"
    using assms(2) by (auto simp: parsecmd_def split: if_splits)
  then have "wf_cmd (tok_ok b) c" using parse_ok [OF assms(1)] by blast
  then show ?thesis using wf_cmd_map [of "tok_ok b" c word_ok "word_at b"] tok_word tok_nulterminate m by blast
qed

text \<open>The command \<open>ls > f\<close>.\<close>

definition ls_cmd :: "u8 list cmd" where
  "ls_cmd = REDIR (EXEC [[108, 115]]) [102] (int_of_uint (O_WRONLY OR O_CREATE)) 1"

lemma ls_cmd_ok: "wf_cmd word_ok ls_cmd" "0 \<notin> set (show_cmd ls_cmd)"
  by (simp_all add: ls_cmd_def word_ok_def plain_def whitespace_def symbols_def MAXARGS_def)

theorem parsecmd_words_witness:
  "\<exists>c m. parsecmd (show_cmd ls_cmd) = Some (Inr (c, m)) \<and> map_cmd (word_at (show_cmd ls_cmd)) c = ls_cmd \<and>
    (\<forall>t \<in> set_cmd c. cstr m (fst t) (word_at (show_cmd ls_cmd) t))"
  using parsecmd_show [OF ls_cmd_ok(1)] parsecmd_words [OF ls_cmd_ok(2)] by blast

text \<open>
  (C10) The parser inverts printing: every command that the shell can represent, printed with a pair of parentheses
  around each part, is read back as the same command. Together with the property above, these commands are exactly
  what the parser can return.
\<close>

theorem parse_show_roundtrip:
  assumes "wf_cmd word_ok c"
  shows "\<exists>t m. parsecmd (show_cmd c) = Some (Inr (t, m)) \<and> map_cmd (word_at (show_cmd c)) t = c"
  by (rule parsecmd_show [OF assms])

theorem parse_show_roundtrip_witness:
  "\<exists>t m. parsecmd (show_cmd (PIPE (EXEC [[108, 115]]) (BACK (EXEC [[119, 99], [45]])))) = Some (Inr (t, m)) \<and>
     map_cmd (word_at (show_cmd (PIPE (EXEC [[108, 115]]) (BACK (EXEC [[119, 99], [45]]))))) t =
       PIPE (EXEC [[108, 115]]) (BACK (EXEC [[119, 99], [45]]))"
  by (rule parse_show_roundtrip) (simp add: word_ok_def plain_def whitespace_def symbols_def MAXARGS_def)

end
