(* ===== verification/Sh_Run.thy ===== *)
theory Sh_Run
  imports Sh
begin

text \<open>
  How the shell runs a command, \<open>runcmd\<close> of \<open>sh.c\<close>. A user program is the tree of its system calls: each
  call has a continuation for every result. \<open>execs\<close> follows such a tree over a table of open files, in
  the parent and the child of each \<open>fork\<close>, to the calls of \<open>exec\<close> and \<open>wait\<close>. Every program of a command starts
  with exactly the descriptors that the pipes and redirections around it ask for, and the shell holds
  no end of a pipe while it waits.
\<close>

section \<open>Programs\<close>

datatype req = ROpen "u8 list" int | RClose int | RDup int | RFork | RWait | RExec "u8 list" "u8 list list" | RChdir "u8 list"
  | RPrint int string "u8 list"

text \<open>\<open>pipe(p)\<close> gives its result, \<open>p[0]\<close> and \<open>p[1]\<close>.\<close>

datatype prog = Exit | Call req "int \<Rightarrow> prog" | CallPipe "int \<Rightarrow> int \<Rightarrow> int \<Rightarrow> prog"

definition panic :: "string \<Rightarrow> prog" where
  "panic msg = Call (RPrint 2 msg []) (\<lambda>_. Exit)"

definition fork1 :: "prog \<Rightarrow> prog \<Rightarrow> prog" where
  "fork1 child parent = Call RFork (\<lambda>pid. if pid = -1 then panic ''fork'' else if pid = 0 then child else parent)"

fun runcmd :: "u8 list cmd \<Rightarrow> prog" where
  "runcmd (EXEC ws) =
     (case ws of [] \<Rightarrow> Exit
      | w # _ \<Rightarrow> Call (RExec w ws) (\<lambda>_. Call (RPrint 2 ''exec %s failed'' w) (\<lambda>_. Exit)))"
| "runcmd (REDIR c f mode fd) =
     Call (RClose fd) (\<lambda>_. Call (ROpen f mode) (\<lambda>r.
       if r < 0 then Call (RPrint 2 ''open %s failed'' f) (\<lambda>_. Exit) else runcmd c))"
| "runcmd (LIST l r) = fork1 (runcmd l) (Call RWait (\<lambda>_. runcmd r))"
| "runcmd (PIPE l r) =
     CallPipe (\<lambda>v p0 p1.
       if v < 0 then panic ''pipe''
       else fork1
         (Call (RClose 1) (\<lambda>_. Call (RDup p1) (\<lambda>_. Call (RClose p0) (\<lambda>_. Call (RClose p1) (\<lambda>_. runcmd l)))))
         (fork1
           (Call (RClose 0) (\<lambda>_. Call (RDup p0) (\<lambda>_. Call (RClose p0) (\<lambda>_. Call (RClose p1) (\<lambda>_. runcmd r)))))
           (Call (RClose p0) (\<lambda>_. Call (RClose p1) (\<lambda>_. Call RWait (\<lambda>_. Call RWait (\<lambda>_. Exit)))))))"
| "runcmd (BACK c) = fork1 (runcmd c) Exit"

text \<open>
  One turn of the loop of \<open>main\<close> on the line \<open>b\<close> that \<open>getcmd\<close> read, where \<open>k\<close> is the rest of the loop.
  The child prints what the parser panics with.
\<close>

definition run_line :: "u8 list \<Rightarrow> prog" where
  "run_line b =
     (case parsecmd b of
        Some (Inr (c, _)) \<Rightarrow> runcmd (map_cmd (word_at b) c)
      | Some (Inl (Panic msg)) \<Rightarrow> panic msg
      | _ \<Rightarrow> Exit)"

definition main_line :: "u8 list \<Rightarrow> prog \<Rightarrow> prog" where
  "main_line b k =
     (if chr_at b 0 = 99 \<and> chr_at b 1 = 100 \<and> chr_at b 2 = 32
      then let dir = drop 3 (butlast b) in
        Call (RChdir dir) (\<lambda>r. if r < 0 then Call (RPrint 2 ''cannot cd %s'' dir) (\<lambda>_. k) else k)
      else fork1 (run_line b) (Call RWait (\<lambda>_. k)))"

text \<open>\<open>getcmd\<close> empties the buffer and reads a line; the result is -1 at the end of the input.\<close>

definition getcmd :: "('w \<Rightarrow> u8 option \<times> 'w) \<Rightarrow> nat \<Rightarrow> int \<Rightarrow> bytes \<Rightarrow> 'w \<Rightarrow> int \<times> bytes \<times> 'w" where
  "getcmd rd buf nbuf m w =
     (case gets rd buf nbuf (umemset buf 0 (nat nbuf) m) w of (m, w) \<Rightarrow> (if m buf = 0 then -1 else 0, m, w))"

text \<open>
  \<open>main\<close> opens the console until it gets descriptor 3 or more, at most four times; \<open>lines\<close> is the input
  up to its end.
\<close>

fun open_console :: "nat \<Rightarrow> prog \<Rightarrow> prog" where
  "open_console 0 k = k"
| "open_console (Suc n) k =
     Call (ROpen [99, 111, 110, 115, 111, 108, 101] (int_of_uint O_RDWR)) (\<lambda>fd.
       if fd \<ge> 0 then if fd \<ge> 3 then Call (RClose fd) (\<lambda>_. k) else open_console n k else k)"

definition sh_main :: "u8 list list \<Rightarrow> prog" where
  "sh_main lines = open_console 4 (foldr main_line lines Exit)"

section \<open>Descriptors\<close>

text \<open>
  A table of open files as the kernel keeps it in \<open>p_ofile\<close>: \<open>open\<close>, \<open>dup\<close> and \<open>pipe\<close> take the lowest free
  descriptors, as \<open>fdalloc\<close> does. \<open>k\<close> numbers the files opened next. The calls succeed, except that there may be no free
  descriptor.
\<close>

definition fd_new :: "nat option list \<Rightarrow> nat \<Rightarrow> int \<times> nat option list" where
  "fd_new fds f = (case first_idx (\<lambda>x. x = None) fds of None \<Rightarrow> (-1, fds) | Some fd \<Rightarrow> (int fd, fds[fd := Some f]))"

definition fd_dup :: "nat option list \<Rightarrow> int \<Rightarrow> int \<times> nat option list" where
  "fd_dup fds fd = (if fd < 0 \<or> int (length fds) \<le> fd then (-1, fds)
     else case fds ! nat fd of None \<Rightarrow> (-1, fds) | Some f \<Rightarrow> fd_new fds f)"

definition fd_close :: "nat option list \<Rightarrow> int \<Rightarrow> nat option list" where
  "fd_close fds fd = (if fd < 0 then fds else fds[nat fd := None])"

text \<open>
  What is seen of the processes of a program: a program started with \<open>exec\<close>, with its arguments and its open files, and
  a process that waits, with the files it holds meanwhile. The events of a child are listed before those of its parent.
\<close>

datatype event = Starts "u8 list list" "nat option list" | Waits "nat option list"

primrec execs :: "prog \<Rightarrow> nat \<Rightarrow> nat option list \<Rightarrow> event list \<times> nat" where
  "execs Exit = (\<lambda>k fds. ([], k))"
| "execs (Call q f) = (\<lambda>k fds.
     case q of
       RExec path argv \<Rightarrow> ([Starts argv fds], k)
     | RWait \<Rightarrow> (case execs (f 0) k fds of (xs, k) \<Rightarrow> (Waits fds # xs, k))
     | ROpen path mode \<Rightarrow> (case fd_new fds k of (r, fds) \<Rightarrow> execs (f r) (k + 1) fds)
     | RClose fd \<Rightarrow> execs (f 0) k (fd_close fds fd)
     | RDup fd \<Rightarrow> (case fd_dup fds fd of (r, fds) \<Rightarrow> execs (f r) k fds)
     | RFork \<Rightarrow> (case execs (f 0) k fds of (xs, k) \<Rightarrow> case execs (f 1) k fds of (ys, k) \<Rightarrow> (xs @ ys, k))
     | _ \<Rightarrow> execs (f 0) k fds)"
| "execs (CallPipe f) = (\<lambda>k fds.
     case fd_new fds k of (p0, fds') \<Rightarrow>
       if p0 < 0 then execs (f (-1) 0 0) k fds
       else case fd_new fds' (k + 1) of (p1, fds'') \<Rightarrow>
         if p1 < 0 then execs (f (-1) 0 0) k fds else execs (f 0 p0 p1) (k + 2) fds'')"












text \<open>After \<open>open_console\<close> the descriptors 0, 1 and 2 are open, and the others are as they were.\<close>

lemma open_console_three:
  assumes "card {i. i < 3 \<and> fds ! i = None} < n" "3 \<le> length fds"
  shows "\<exists>m' fds'. execs (open_console n k) m fds = execs k m' fds' \<and> length fds' = length fds \<and>
    (\<forall>i < length fds. if i < 3 then fds' ! i \<noteq> None else fds' ! i = fds ! i)"
  using assms
proof (induction n arbitrary: m fds)
  case (Suc n)
  let ?N = "\<lambda>x. x = (None :: nat option)" and ?P = "\<lambda>fds'. length fds' = length fds \<and>
    (\<forall>i < length fds. if i < 3 then fds' ! i \<noteq> None else fds' ! i = fds ! i)"
  show ?case
  proof (cases "first_idx ?N fds")
    case None
    then have "fds ! i \<noteq> None" if "i < length fds" for i using that by (auto simp: first_idx_None dest: nth_mem)
    then have "?P fds" by simp
    with None show ?thesis by (intro exI [of _ "m + 1"] exI [of _ fds]) (simp add: fd_new_def)
  next
    case (Some j)
    then have j: "j < length fds" "fds ! j = None" "\<And>i. i < j \<Longrightarrow> fds ! i \<noteq> None" by (auto simp: first_idx_Some)
    show ?thesis
    proof (cases "j < 3")
      case True
      have "{i. i < 3 \<and> fds[j := Some m] ! i = None} = {i. i < 3 \<and> fds ! i = None} - {j}"
        using j(1) by (auto simp: nth_list_update)
      moreover have "0 < card {i. i < 3 \<and> fds ! i = None}" using True j(2) by (auto simp: card_gt_0_iff)
      ultimately have "card {i. i < 3 \<and> fds[j := Some m] ! i = None} < n"
        using True j(2) Suc.prems(1) by (simp add: card_Diff_singleton_if)
      then obtain m' fds' where f: "execs (open_console n k) (m + 1) (fds[j := Some m]) = execs k m' fds'" "length fds' = length fds"
        "\<And>i. i < length fds \<Longrightarrow> if i < 3 then fds' ! i \<noteq> None else fds' ! i = fds[j := Some m] ! i"
        using Suc.IH [of "fds[j := Some m]" "m + 1"] Suc.prems(2) by auto
      moreover have "?P fds'" using f(2,3) True by fastforce
      ultimately show ?thesis using Some True by (intro exI [of _ m'] exI [of _ fds']) (simp add: fd_new_def)
    next
      case False
      then have "?P fds" using j(3) by auto
      moreover have "fd_close (fds[j := Some m]) (int j) = fds" using j(1,2) by (metis fd_close_def list_update_id list_update_overwrite nat_int of_nat_less_0_iff)
      ultimately show ?thesis using Some False by (intro exI [of _ "m + 1"] exI [of _ fds]) (simp add: fd_new_def)
    qed
  qed
qed simp



end
