(* ===== verification/Spec2Isabelle.thy ===== *)
theory Spec2Isabelle
  imports Process_Tree Grep Sh_Run
begin

text \<open>
  A verification library for a modified xv6, a Unix-like teaching kernel in C with three further scheduling
  policies (\<open>PRIORITY\<close>, \<open>FCFS\<close>, \<open>MLFQ\<close>) and the system calls \<open>waitx\<close>, \<open>getpinfo\<close>, \<open>ps\<close> and
  \<open>set_priority\<close>. All paths below are under \<open>src/\<close>.

  \<^bold>\<open>The program.\<close> User processes enter the kernel by traps (\<open>trap.c\<close>, \<open>syscall.c\<close>). System calls
  (\<open>sysproc.c\<close>, \<open>sysfile.c\<close>, \<open>exec.c\<close>) work on the process table (\<open>proc.c\<close>), on address spaces (\<open>vm.c\<close>) made
  of pages from \<open>kalloc.c\<close>, and on open files (\<open>file.c\<close>), which are pipes (\<open>pipe.c\<close>), devices (\<open>console.c\<close>,
  \<open>kbd.c\<close>, \<open>uart.c\<close>) or inodes of the file system (\<open>fs.c\<close>). The file system changes blocks through the log
  (\<open>log.c\<close>) and the buffer cache (\<open>bio.c\<close>) on a disk (\<open>memide.c\<close>). Locks are \<open>spinlock.c\<close> and
  \<open>sleeplock.c\<close>. The scheduler of each CPU picks the next process. The user programs modelled
  are the shell \<open>sh.c\<close>, \<open>grep.c\<close> and the libraries \<open>ulib.c\<close> and \<open>printf.c\<close>.

  \<^bold>\<open>How code becomes definitions.\<close> Every function is a definition with its C name (a suffix or a prefix where the
  name is taken), and the parts of a long function, such as the body of a loop, are definitions of their own
  composed as in the code. The globals are one record, extended from theory to theory in the order in
  which the code depends on them: \<open>ptable_st\<close> (process table, queues, current CPU), \<open>kmem_st\<close> (pages),
  \<open>bcache_st\<close> (buffers and disk), \<open>log_st\<close>, \<open>fs_st\<close> (inode cache), \<open>file_st\<close> (open files and pipes), \<open>cons_st\<close>
  (console). An operation is polymorphic in the later extensions, so it cannot touch them. Unsigned
  integers are words of their width and wrap; \<open>int\<close> is \<^typ>\<open>int\<close>. A pointer to an element of a table is its
  index, a null pointer \<^term>\<open>None\<close> or 0. \<open>panic\<close>, an access outside an object and a call that goes to sleep are
  the faults of theory \<open>Prelude\<close>, and every operation that can meet one returns a sum.

  \<^bold>\<open>The theories.\<close>
  \<^item> \<open>Prelude\<close>: C integers, faults, array access, table scans. \<open>Cstring\<close>: \<open>string.c\<close> and \<open>ulib.c\<close>. \<open>Printf\<close>:
    \<open>cprintf\<close> and \<open>printf\<close>; a printed number is read back by \<open>atoi\<close>, as far as its sum stays an \<open>int\<close>.
  \<^item> \<open>Spinlock\<close>: \<open>acquire\<close>, \<open>release\<close>, \<open>pushcli\<close>, \<open>popcli\<close> as interleaved steps of several CPUs; mutual exclusion and
    interrupts off under a lock. This is what lets the other theories take a critical section as one step.
    \<open>Sleeplock\<close>: the sleeping locks.
  \<^item> \<open>Proc_Table\<close>, \<open>Mlfq\<close>, \<open>Scheduler\<close>: the table operations, the five queues with \<open>rem_process\<close> and \<open>ageing\<close>,
    and the scheduling loop under each policy; who is picked, that passes end, that a round of the queues loses no process, and
    where the code departs from the policy it names.
  \<^item> \<open>Kalloc\<close>, \<open>Vm\<close>, \<open>Kvm\<close>, \<open>Vm_Frame\<close>: the page allocator and its free list, page tables, the kernel's half of an
    address space, and that these change nothing but pages.
  \<^item> \<open>Block_Layer\<close>, \<open>Bio\<close>, \<open>Log\<close>: the contract of a block cache as a locale, the buffer cache that
    meets it, and the log, whose commits are atomic under crashes at any disk write.
  \<^item> \<open>Fs\<close>, \<open>Dir\<close>: block allocation, inodes, file content, directories and paths.
  \<^item> \<open>Ring\<close>, \<open>Pipe\<close>, \<open>File\<close>: ring buffers with wrapping counters, pipes as first-in first-out channels under every
    interleaving, open files.
  \<^item> \<open>Syscall_Args\<close>, \<open>Proc_Life\<close>, \<open>Exec\<close>, \<open>Sysproc\<close>, \<open>Sysfile\<close>, \<open>Console\<close>, \<open>Kbd\<close>, \<open>Trap\<close>: user memory access,
    the life of a process, program loading, the system calls, the devices, and the dispatch of traps.
  \<^item> \<open>Frame\<close>, \<open>Calm\<close>: what each operation leaves alone, as lemmas that carry an earlier state along and chain.
    \<open>Kernel_Inv\<close>, \<open>First_Proc\<close>, \<open>Kernel_Steps\<close>: the invariant of the whole kernel (table sizes, unique pids, exact
    reference counts of open files, runnable processes have a stack and an address space), the creation of the first
    process, and the step relation of a running kernel with the invariant in every reachable state (\<open>kreach\<close>, or
    \<open>krun\<close> for the runs in which \<open>nextpid\<close> does not overflow). \<open>Process_Tree\<close>: the processes form a tree under the first one.
  \<^item> \<open>Sh\<close>, \<open>Sh_Run\<close>: the parser of the shell, which terminates, returns well-formed commands and inverts printing, and
    the descriptors that the programs of a command get and the shell holds while it waits. \<open>Grep\<close>: the matcher and the line loop.

  \<^bold>\<open>Bounds and fuel.\<close> Loops bounded by the data are structural or have a termination proof. The scheduler's passes carry
  fuel because a policy can move the scan backwards and a queue can grow while it is walked; the properties
  say how much is enough. The shell's parsers call each other with less fuel each time, and four calls per byte
  and four more are enough for every line. Loops that run until a zero byte are partial
  functions with \<^term>\<open>None\<close> for not ending.

  \<^bold>\<open>Parameters.\<close> What devices deliver, the linker's symbols (\<open>end\<close>, \<open>data\<close>, the addresses of assembly code, the bytes of
  \<open>initcode\<close>), the device switch, the policy the kernel is built with and what a process does while it runs are
  arguments. A call that sleeps is cut at \<open>sleep\<close>: it is a fault for a single thread, or, where threads are interleaved,
  a value that says what is left to do.

  \<^bold>\<open>Not modelled.\<close> Assembly files (\<open>bootasm.S\<close>, \<open>entry.S\<close>, \<open>entryother.S\<close>, \<open>swtch.S\<close>, \<open>trapasm.S\<close>, \<open>usys.S\<close>, \<open>vectors.S\<close>,
  \<open>initcode.S\<close>) are not C: the effect of the switch and of the trap entry is in \<open>Scheduler\<close> and \<open>Trap\<close>. \<open>lapic.c\<close>, \<open>ioapic.c\<close>,
  \<open>picirq.c\<close> and \<open>ide.c\<close> are register accesses whose meaning is in the hardware; \<open>ide.c\<close> has the same interface as \<open>memide.c\<close>,
  which the models use. \<open>mp.c\<close>, \<open>bootmain.c\<close> and \<open>main.c\<close> run once, before there is a process, on tables of the
  firmware and on the devices above. \<open>mkfs.c\<close> runs on the host. \<open>umalloc.c\<close> is taken to succeed where the shell uses it. \<open>usertests.c\<close>,
  \<open>forktest.c\<close>, \<open>stressfs.c\<close> and \<open>test.c\<close> are test programs, and the remaining user programs only make system calls and
  print. Messages printed by the kernel are left out, except for \<open>procdump\<close>, \<open>ps\<close> and \<open>display_queues\<close>.
\<close>

end
